theory Spec2Isabelle
  imports Main "HOL-Library.Word" "HOL-Library.Monad_Syntax"
begin

section \<open>Data model (tree.h)\<close>

text \<open>
  A node pointer \<^verbatim>\<open>PRB_TREE_NODE\<close> is an \<open>addr option\<close>: \<open>None\<close> is \<^verbatim>\<open>NULL\<close>.
  The pointer to a node's inline payload (\<^verbatim>\<open>node->object\<close>) is identified with the
  address of the node that holds it.
\<close>

type_synonym addr = nat

datatype COLOUR = red | black

record 'o RB_TREE_NODE =
  parent :: "addr option"
  left :: "addr option"
  right :: "addr option"
  colour :: COLOUR
  object :: 'o

definition RB_TREE_EQUAL :: "32 word" where
  "RB_TREE_EQUAL = 0"

definition RB_TREE_LESS_THAN :: "32 word" where
  "RB_TREE_LESS_THAN = 1"

definition RB_TREE_GREATER_THAN :: "32 word" where
  "RB_TREE_GREATER_THAN = 2"

text \<open>
  The \<^verbatim>\<open>RB_TREE\<close> structure. The guarded mutex is left out (locking is not modelled).
  The field \<open>mem\<close> is the memory that holds the node blocks currently allocated: every
  access through a node pointer reads or writes it, and an access to an address that
  holds no block is a fault (the result \<open>None\<close> of the operation).

  Modelled from the spec: the fixed-block pool (\<^verbatim>\<open>LOOKASIDE_LIST_EX\<close> and the kernel
  services \<^verbatim>\<open>ExAllocateFromLookasideListEx\<close>, \<^verbatim>\<open>ExFreeToLookasideListEx\<close>) is
  the list of blocks it can still hand out, each with its stale contents; allocation
  returns the empty result when the list is exhausted, and a freed block returns to it.
\<close>

record ('k, 'o) RB_TREE =
  root :: "addr option"
  compare :: "('k \<Rightarrow> 'o \<Rightarrow> 32 word) option"
  pool :: "(addr \<times> 'o RB_TREE_NODE) list"
  object_size :: "32 word"
  active :: "32 word"
  node_count :: "32 word"
  insertion_count :: "32 word"
  deletion_count :: "32 word"
  mem :: "addr \<Rightarrow> 'o RB_TREE_NODE option"

subsection \<open>Reading and writing node fields through a pointer\<close>

definition get_parent :: "('k, 'o) RB_TREE \<Rightarrow> addr \<Rightarrow> addr option option" where
  "get_parent Tree a = map_option parent (mem Tree a)"

definition get_left :: "('k, 'o) RB_TREE \<Rightarrow> addr \<Rightarrow> addr option option" where
  "get_left Tree a = map_option left (mem Tree a)"

definition get_right :: "('k, 'o) RB_TREE \<Rightarrow> addr \<Rightarrow> addr option option" where
  "get_right Tree a = map_option right (mem Tree a)"

definition get_colour :: "('k, 'o) RB_TREE \<Rightarrow> addr \<Rightarrow> COLOUR option" where
  "get_colour Tree a = map_option colour (mem Tree a)"

definition get_object :: "('k, 'o) RB_TREE \<Rightarrow> addr \<Rightarrow> 'o option" where
  "get_object Tree a = map_option object (mem Tree a)"

definition store ::
  "addr \<Rightarrow> ('o RB_TREE_NODE \<Rightarrow> 'o RB_TREE_NODE) \<Rightarrow> ('k, 'o) RB_TREE \<Rightarrow> ('k, 'o) RB_TREE option" where
  "store a f Tree =
     (case mem Tree a of
        None \<Rightarrow> None
      | Some n \<Rightarrow> Some (Tree\<lparr>mem := (mem Tree)(a \<mapsto> f n)\<rparr>))"

definition set_parent :: "addr \<Rightarrow> addr option \<Rightarrow> ('k, 'o) RB_TREE \<Rightarrow> ('k, 'o) RB_TREE option" where
  "set_parent a v Tree = store a (\<lambda>n. n\<lparr>parent := v\<rparr>) Tree"

definition set_left :: "addr \<Rightarrow> addr option \<Rightarrow> ('k, 'o) RB_TREE \<Rightarrow> ('k, 'o) RB_TREE option" where
  "set_left a v Tree = store a (\<lambda>n. n\<lparr>left := v\<rparr>) Tree"

definition set_right :: "addr \<Rightarrow> addr option \<Rightarrow> ('k, 'o) RB_TREE \<Rightarrow> ('k, 'o) RB_TREE option" where
  "set_right a v Tree = store a (\<lambda>n. n\<lparr>right := v\<rparr>) Tree"

definition set_colour :: "addr \<Rightarrow> COLOUR \<Rightarrow> ('k, 'o) RB_TREE \<Rightarrow> ('k, 'o) RB_TREE option" where
  "set_colour a v Tree = store a (\<lambda>n. n\<lparr>colour := v\<rparr>) Tree"

definition set_object :: "addr \<Rightarrow> 'o \<Rightarrow> ('k, 'o) RB_TREE \<Rightarrow> ('k, 'o) RB_TREE option" where
  "set_object a v Tree = store a (\<lambda>n. n\<lparr>object := v\<rparr>) Tree"

subsection \<open>The pool\<close>

definition ExAllocateFromLookasideListEx ::
  "('k, 'o) RB_TREE \<Rightarrow> addr option \<times> ('k, 'o) RB_TREE" where
  "ExAllocateFromLookasideListEx Tree =
     (case pool Tree of
        [] \<Rightarrow> (None, Tree)
      | (a, blk) # rest \<Rightarrow> (Some a, Tree\<lparr>pool := rest, mem := (mem Tree)(a \<mapsto> blk)\<rparr>))"

definition ExFreeToLookasideListEx ::
  "('k, 'o) RB_TREE \<Rightarrow> addr \<Rightarrow> ('k, 'o) RB_TREE option" where
  "ExFreeToLookasideListEx Tree a =
     (case mem Tree a of
        None \<Rightarrow> None
      | Some blk \<Rightarrow> Some (Tree\<lparr>pool := (a, blk) # pool Tree, mem := (mem Tree)(a := None)\<rparr>))"

subsection \<open>Statistics\<close>

definition RtlpRbTreeIncrementInsertionCount :: "('k, 'o) RB_TREE \<Rightarrow> ('k, 'o) RB_TREE" where
  "RtlpRbTreeIncrementInsertionCount Tree = Tree\<lparr>insertion_count := insertion_count Tree + 1\<rparr>"

definition RtlpRbTreeIncrementDeletionCount :: "('k, 'o) RB_TREE \<Rightarrow> ('k, 'o) RB_TREE" where
  "RtlpRbTreeIncrementDeletionCount Tree = Tree\<lparr>deletion_count := deletion_count Tree + 1\<rparr>"

definition RtlpRbTreeIncrementNodeCount :: "('k, 'o) RB_TREE \<Rightarrow> ('k, 'o) RB_TREE" where
  "RtlpRbTreeIncrementNodeCount Tree = Tree\<lparr>node_count := node_count Tree + 1\<rparr>"

definition RtlpRbTreeDecrementNodeCount :: "('k, 'o) RB_TREE \<Rightarrow> ('k, 'o) RB_TREE" where
  "RtlpRbTreeDecrementNodeCount Tree = Tree\<lparr>node_count := node_count Tree - 1\<rparr>"

section \<open>RtlRbTreeCreate\<close>

text \<open>
  \<^verbatim>\<open>NTSTATUS\<close> values are 32-bit; \<^verbatim>\<open>NT_SUCCESS\<close> holds of the values that are
  non-negative as signed integers. \<^verbatim>\<open>ExInitializeLookasideListEx\<close> is a kernel
  service: it is a parameter, a function of the block size that gives the status and
  the pool it has set up. \<open>sizeof_RB_TREE_NODE\<close> is the size of the node header.
\<close>

definition STATUS_SUCCESS :: "32 word" where
  "STATUS_SUCCESS = 0"

definition STATUS_INVALID_PARAMETER :: "32 word" where
  "STATUS_INVALID_PARAMETER = 0xC000000D"

definition NT_SUCCESS :: "32 word \<Rightarrow> bool" where
  "NT_SUCCESS status = (0 \<le> sint status)"

definition sizeof_RB_TREE_NODE :: nat where
  "sizeof_RB_TREE_NODE = 32"

definition RtlRbTreeCreate ::
  "(nat \<Rightarrow> 32 word \<times> (addr \<times> 'o RB_TREE_NODE) list) \<Rightarrow> ('k \<Rightarrow> 'o \<Rightarrow> 32 word) option \<Rightarrow> 32 word
     \<Rightarrow> ('k, 'o) RB_TREE \<Rightarrow> 32 word \<times> ('k, 'o) RB_TREE" where
  "RtlRbTreeCreate ExInitializeLookasideListEx Compare ObjectSize Tree =
     (if Compare = None \<or> ObjectSize = 0 then (STATUS_INVALID_PARAMETER, Tree)
      else
        let (status, lookaside) = ExInitializeLookasideListEx (unat ObjectSize + sizeof_RB_TREE_NODE);
            T1 = Tree\<lparr>pool := lookaside\<rparr>
        in if \<not> NT_SUCCESS status then (status, T1)
           else (STATUS_SUCCESS,
                 T1\<lparr>compare := Compare, deletion_count := 0, insertion_count := 0, node_count := 0\<rparr>))"

section \<open>Rotations\<close>

definition RtlpRbTreeRotateLeft :: "('k, 'o) RB_TREE \<Rightarrow> addr \<Rightarrow> ('k, 'o) RB_TREE option" where
  "RtlpRbTreeRotateLeft Tree Node = do {
     right_child_opt \<leftarrow> get_right Tree Node;
     right_child \<leftarrow> right_child_opt;
     rl \<leftarrow> get_left Tree right_child;
     T1 \<leftarrow> set_right Node rl Tree;
     rl1 \<leftarrow> get_left T1 right_child;
     T2 \<leftarrow> (case rl1 of None \<Rightarrow> Some T1 | Some b \<Rightarrow> set_parent b (Some Node) T1);
     np \<leftarrow> get_parent T2 Node;
     T3 \<leftarrow> set_parent right_child np T2;
     np3 \<leftarrow> get_parent T3 Node;
     T4 \<leftarrow> (case np3 of
              None \<Rightarrow> Some (T3\<lparr>root := Some right_child\<rparr>)
            | Some p \<Rightarrow> do {
                pl \<leftarrow> get_left T3 p;
                if Some Node = pl then set_left p (Some right_child) T3
                else set_right p (Some right_child) T3 });
     T5 \<leftarrow> set_left right_child (Some Node) T4;
     set_parent Node (Some right_child) T5 }"

definition RtlpRbTreeRotateRight :: "('k, 'o) RB_TREE \<Rightarrow> addr \<Rightarrow> ('k, 'o) RB_TREE option" where
  "RtlpRbTreeRotateRight Tree Node = do {
     left_child_opt \<leftarrow> get_left Tree Node;
     left_child \<leftarrow> left_child_opt;
     lr \<leftarrow> get_right Tree left_child;
     T1 \<leftarrow> set_left Node lr Tree;
     lr1 \<leftarrow> get_right T1 left_child;
     T2 \<leftarrow> (case lr1 of None \<Rightarrow> Some T1 | Some b \<Rightarrow> set_parent b (Some Node) T1);
     np \<leftarrow> get_parent T2 Node;
     T3 \<leftarrow> set_parent left_child np T2;
     np3 \<leftarrow> get_parent T3 Node;
     T4 \<leftarrow> (case np3 of
              None \<Rightarrow> Some (T3\<lparr>root := Some left_child\<rparr>)
            | Some p \<Rightarrow> do {
                pr \<leftarrow> get_right T3 p;
                if Some Node = pr then set_right p (Some left_child) T3
                else set_left p (Some left_child) T3 });
     T5 \<leftarrow> set_right left_child (Some Node) T4;
     set_parent Node (Some left_child) T5 }"

section \<open>Insertion\<close>

definition is_red :: "('k, 'o) RB_TREE \<Rightarrow> addr option \<Rightarrow> bool option" where
  "is_red Tree p =
     (case p of None \<Rightarrow> Some False | Some a \<Rightarrow> do { c \<leftarrow> get_colour Tree a; Some (c = red) })"

text \<open>
  The loop of \<^verbatim>\<open>RtlpRbTreeFixupInsert\<close>: one unfolding is one test of the loop
  condition followed, when it holds, by one run of the body.
\<close>

partial_function (option) FixupInsert_loop ::
  "('k, 'o) RB_TREE \<Rightarrow> addr \<Rightarrow> ('k, 'o) RB_TREE option" where
  "FixupInsert_loop Tree Node = do {
     parent_opt \<leftarrow> get_parent Tree Node;
     case parent_opt of
       None \<Rightarrow> Some Tree
     | Some par \<Rightarrow> do {
         pc \<leftarrow> get_colour Tree par;
         if pc \<noteq> red then Some Tree
         else do {
           grandparent_opt \<leftarrow> get_parent Tree par;
           grandparent \<leftarrow> grandparent_opt;
           gl \<leftarrow> get_left Tree grandparent;
           if Some par = gl then do {
             uncle \<leftarrow> get_right Tree grandparent;
             uncle_red \<leftarrow> is_red Tree uncle;
             if uncle_red then do {
               T1 \<leftarrow> set_colour par black Tree;
               u \<leftarrow> uncle;
               T2 \<leftarrow> set_colour u black T1;
               T3 \<leftarrow> set_colour grandparent red T2;
               FixupInsert_loop T3 grandparent }
             else do {
               pr \<leftarrow> get_right Tree par;
               (T1, Node1, parent1) \<leftarrow>
                 (if Some Node = pr then do {
                    T' \<leftarrow> RtlpRbTreeRotateLeft Tree par;
                    np \<leftarrow> get_parent T' par;
                    Some (T', par, np) }
                  else Some (Tree, Node, Some par));
               p1 \<leftarrow> parent1;
               T2 \<leftarrow> set_colour p1 black T1;
               T3 \<leftarrow> set_colour grandparent red T2;
               T4 \<leftarrow> RtlpRbTreeRotateRight T3 grandparent;
               FixupInsert_loop T4 Node1 } }
           else do {
             uncle \<leftarrow> get_left Tree grandparent;
             uncle_red \<leftarrow> is_red Tree uncle;
             if uncle_red then do {
               T1 \<leftarrow> set_colour par black Tree;
               u \<leftarrow> uncle;
               T2 \<leftarrow> set_colour u black T1;
               T3 \<leftarrow> set_colour grandparent red T2;
               FixupInsert_loop T3 grandparent }
             else do {
               pl \<leftarrow> get_left Tree par;
               (T1, Node1, parent1) \<leftarrow>
                 (if Some Node = pl then do {
                    T' \<leftarrow> RtlpRbTreeRotateRight Tree par;
                    np \<leftarrow> get_parent T' par;
                    Some (T', par, np) }
                  else Some (Tree, Node, Some par));
               p1 \<leftarrow> parent1;
               T2 \<leftarrow> set_colour p1 black T1;
               T3 \<leftarrow> set_colour grandparent red T2;
               T4 \<leftarrow> RtlpRbTreeRotateLeft T3 grandparent;
               FixupInsert_loop T4 Node1 } } } } }"

definition RtlpRbTreeFixupInsert :: "('k, 'o) RB_TREE \<Rightarrow> addr \<Rightarrow> ('k, 'o) RB_TREE option" where
  "RtlpRbTreeFixupInsert Tree Node = do {
     T1 \<leftarrow> FixupInsert_loop Tree Node;
     r \<leftarrow> root T1;
     set_colour r black T1 }"

text \<open>
  The descent of \<^verbatim>\<open>RtlRbTreeInsertNode\<close>. The loop ends either with the node whose
  object compares equal to the key (\<open>Inl\<close>: the function returns from inside the
  loop), or with the last node visited and the last comparison result (\<open>Inr\<close>).
\<close>

partial_function (option) InsertNode_loop ::
  "('k, 'o) RB_TREE \<Rightarrow> 'k \<Rightarrow> addr option \<Rightarrow> addr option \<Rightarrow> 32 word
     \<Rightarrow> (addr + addr option \<times> 32 word) option" where
  "InsertNode_loop Tree Key current par result =
     (case current of
        None \<Rightarrow> Some (Inr (par, result))
      | Some c \<Rightarrow> do {
          cmp \<leftarrow> compare Tree;
          ob \<leftarrow> get_object Tree c;
          let result' = cmp Key ob in
          if result' = RB_TREE_LESS_THAN then do {
            l \<leftarrow> get_left Tree c;
            InsertNode_loop Tree Key l (Some c) result' }
          else if result' = RB_TREE_GREATER_THAN then do {
            r \<leftarrow> get_right Tree c;
            InsertNode_loop Tree Key r (Some c) result' }
          else Some (Inl c) })"

text \<open>
  \<^verbatim>\<open>RtlRbTreeInsertNode\<close> returns the pointer it returns in C (\<open>None\<close> is \<^verbatim>\<open>NULL\<close>)
  and the tree after the call.
\<close>

definition RtlRbTreeInsertNode ::
  "('k, 'o) RB_TREE \<Rightarrow> 'k \<Rightarrow> (addr option \<times> ('k, 'o) RB_TREE) option" where
  "RtlRbTreeInsertNode Tree Key =
     (case ExAllocateFromLookasideListEx Tree of
        (None, T0) \<Rightarrow> Some (None, T0)
      | (Some node, T0) \<Rightarrow> do {
          T1 \<leftarrow> set_parent node None T0;
          T2 \<leftarrow> set_left node None T1;
          T3 \<leftarrow> set_right node None T2;
          T4 \<leftarrow> set_colour node red T3;
          r \<leftarrow> InsertNode_loop T4 Key (root T4) None 0;
          case r of
            Inl current \<Rightarrow> do {
              T5 \<leftarrow> ExFreeToLookasideListEx T4 node;
              Some (Some current, T5) }
          | Inr (par, result) \<Rightarrow> do {
              T5 \<leftarrow> set_parent node par T4;
              T6 \<leftarrow> (case par of
                       None \<Rightarrow> Some (T5\<lparr>root := Some node\<rparr>)
                     | Some p \<Rightarrow>
                         if result = RB_TREE_LESS_THAN then set_left p (Some node) T5
                         else set_right p (Some node) T5);
              T7 \<leftarrow> RtlpRbTreeFixupInsert T6 node;
              Some (Some node,
                    RtlpRbTreeIncrementNodeCount (RtlpRbTreeIncrementInsertionCount T7)) } })"

section \<open>Lookup\<close>

partial_function (option) FindNode_loop ::
  "('k, 'o) RB_TREE \<Rightarrow> 'k \<Rightarrow> addr option \<Rightarrow> addr option option" where
  "FindNode_loop Tree Key current =
     (case current of
        None \<Rightarrow> Some None
      | Some c \<Rightarrow> do {
          cmp \<leftarrow> compare Tree;
          ob \<leftarrow> get_object Tree c;
          let result = cmp Key ob in
          if result = RB_TREE_EQUAL then Some (Some c)
          else if result = RB_TREE_LESS_THAN then do {
            l \<leftarrow> get_left Tree c;
            FindNode_loop Tree Key l }
          else do {
            r \<leftarrow> get_right Tree c;
            FindNode_loop Tree Key r } })"

definition RtlpRbTreeFindNode :: "('k, 'o) RB_TREE \<Rightarrow> 'k \<Rightarrow> addr option option" where
  "RtlpRbTreeFindNode Tree Key = FindNode_loop Tree Key (root Tree)"

text \<open>
  \<^verbatim>\<open>RtlRbTreeFindNodeObject\<close> has the same loop as \<^verbatim>\<open>RtlpRbTreeFindNode\<close> and
  returns \<^verbatim>\<open>current->object\<close>; it is given the tree by reference, so the model
  returns the tree after the call as well.
\<close>

definition RtlRbTreeFindNodeObject ::
  "('k, 'o) RB_TREE \<Rightarrow> 'k \<Rightarrow> (addr option \<times> ('k, 'o) RB_TREE) option" where
  "RtlRbTreeFindNodeObject Tree Key = do {
     r \<leftarrow> FindNode_loop Tree Key (root Tree);
     Some (r, Tree) }"

section \<open>Deletion\<close>

partial_function (option) RtlpRbTreeMinimum :: "('k, 'o) RB_TREE \<Rightarrow> addr \<Rightarrow> addr option" where
  "RtlpRbTreeMinimum Tree Node = do {
     l \<leftarrow> get_left Tree Node;
     case l of None \<Rightarrow> Some Node | Some b \<Rightarrow> RtlpRbTreeMinimum Tree b }"

definition RtlpRbTreeTransplant ::
  "('k, 'o) RB_TREE \<Rightarrow> addr \<Rightarrow> addr option \<Rightarrow> ('k, 'o) RB_TREE option" where
  "RtlpRbTreeTransplant Tree Target Replacement = do {
     tp \<leftarrow> get_parent Tree Target;
     T1 \<leftarrow> (case tp of
              None \<Rightarrow> Some (Tree\<lparr>root := Replacement\<rparr>)
            | Some p \<Rightarrow> do {
                pl \<leftarrow> get_left Tree p;
                if Some Target = pl then set_left p Replacement Tree
                else set_right p Replacement Tree });
     case Replacement of
       None \<Rightarrow> Some T1
     | Some r \<Rightarrow> do {
         tp1 \<leftarrow> get_parent T1 Target;
         set_parent r tp1 T1 } }"

definition is_null_or_black :: "('k, 'o) RB_TREE \<Rightarrow> addr option \<Rightarrow> bool option" where
  "is_null_or_black Tree p =
     (case p of None \<Rightarrow> Some True | Some a \<Rightarrow> do { c \<leftarrow> get_colour Tree a; Some (c = black) })"

definition parent_of :: "('k, 'o) RB_TREE \<Rightarrow> addr \<Rightarrow> addr option" where
  "parent_of Tree Node = do { np \<leftarrow> get_parent Tree Node; np }"

text \<open>
  The loop of \<^verbatim>\<open>RtlpRbTreeFixupDelete\<close>; it returns the tree and the final value of
  \<^verbatim>\<open>Node\<close>. \<open>parent_of\<close> is the dereferenced \<^verbatim>\<open>Node->parent\<close>.
\<close>

partial_function (option) FixupDelete_loop ::
  "('k, 'o) RB_TREE \<Rightarrow> addr \<Rightarrow> (('k, 'o) RB_TREE \<times> addr) option" where
  "FixupDelete_loop Tree Node =
     (if Some Node = root Tree then Some (Tree, Node)
      else do {
        nc \<leftarrow> get_colour Tree Node;
        if nc \<noteq> black then Some (Tree, Node)
        else do {
          p \<leftarrow> parent_of Tree Node;
          pl \<leftarrow> get_left Tree p;
          if Some Node = pl then do {
            sibling0 \<leftarrow> get_right Tree p;
            s0_red \<leftarrow> is_red Tree sibling0;
            (T1, sibling) \<leftarrow>
              (if s0_red then do {
                 s \<leftarrow> sibling0;
                 Ta \<leftarrow> set_colour s black Tree;
                 pa \<leftarrow> parent_of Ta Node;
                 Tb \<leftarrow> set_colour pa red Ta;
                 pb \<leftarrow> parent_of Tb Node;
                 Tc \<leftarrow> RtlpRbTreeRotateLeft Tb pb;
                 pc \<leftarrow> parent_of Tc Node;
                 sib \<leftarrow> get_right Tc pc;
                 Some (Tc, sib) }
               else Some (Tree, sibling0));
            both_black \<leftarrow>
              (case sibling of
                 None \<Rightarrow> Some False
               | Some s \<Rightarrow> do {
                   sl \<leftarrow> get_left T1 s;
                   lb \<leftarrow> is_null_or_black T1 sl;
                   if lb then do { sr \<leftarrow> get_right T1 s; is_null_or_black T1 sr }
                   else Some False });
            if both_black then do {
              s \<leftarrow> sibling;
              T2 \<leftarrow> set_colour s red T1;
              p2 \<leftarrow> parent_of T2 Node;
              FixupDelete_loop T2 p2 }
            else do {
              far_black \<leftarrow>
                (case sibling of
                   None \<Rightarrow> Some False
                 | Some s \<Rightarrow> do { sr \<leftarrow> get_right T1 s; is_null_or_black T1 sr });
              (T2, sibling2) \<leftarrow>
                (if far_black then do {
                   s \<leftarrow> sibling;
                   sl \<leftarrow> get_left T1 s;
                   Ta \<leftarrow> (case sl of None \<Rightarrow> Some T1 | Some l \<Rightarrow> set_colour l black T1);
                   Tb \<leftarrow> set_colour s red Ta;
                   Tc \<leftarrow> RtlpRbTreeRotateRight Tb s;
                   pc \<leftarrow> parent_of Tc Node;
                   sib \<leftarrow> get_right Tc pc;
                   Some (Tc, sib) }
                 else Some (T1, sibling));
              T3 \<leftarrow>
                (case sibling2 of
                   None \<Rightarrow> Some T2
                 | Some s \<Rightarrow> do {
                     pa \<leftarrow> parent_of T2 Node;
                     pcol \<leftarrow> get_colour T2 pa;
                     Ta \<leftarrow> set_colour s pcol T2;
                     pb \<leftarrow> parent_of Ta Node;
                     Tb \<leftarrow> set_colour pb black Ta;
                     sr \<leftarrow> get_right Tb s;
                     Tc \<leftarrow> (case sr of None \<Rightarrow> Some Tb | Some r \<Rightarrow> set_colour r black Tb);
                     pc \<leftarrow> parent_of Tc Node;
                     RtlpRbTreeRotateLeft Tc pc });
              r \<leftarrow> root T3;
              FixupDelete_loop T3 r } }
          else do {
            sibling0 \<leftarrow> get_left Tree p;
            s0_red \<leftarrow> is_red Tree sibling0;
            (T1, sibling) \<leftarrow>
              (if s0_red then do {
                 s \<leftarrow> sibling0;
                 Ta \<leftarrow> set_colour s black Tree;
                 pa \<leftarrow> parent_of Ta Node;
                 Tb \<leftarrow> set_colour pa red Ta;
                 pb \<leftarrow> parent_of Tb Node;
                 Tc \<leftarrow> RtlpRbTreeRotateRight Tb pb;
                 pc \<leftarrow> parent_of Tc Node;
                 sib \<leftarrow> get_left Tc pc;
                 Some (Tc, sib) }
               else Some (Tree, sibling0));
            both_black \<leftarrow>
              (case sibling of
                 None \<Rightarrow> Some False
               | Some s \<Rightarrow> do {
                   sr \<leftarrow> get_right T1 s;
                   rb \<leftarrow> is_null_or_black T1 sr;
                   if rb then do { sl \<leftarrow> get_left T1 s; is_null_or_black T1 sl }
                   else Some False });
            if both_black then do {
              s \<leftarrow> sibling;
              T2 \<leftarrow> set_colour s red T1;
              p2 \<leftarrow> parent_of T2 Node;
              FixupDelete_loop T2 p2 }
            else do {
              far_black \<leftarrow>
                (case sibling of
                   None \<Rightarrow> Some False
                 | Some s \<Rightarrow> do { sl \<leftarrow> get_left T1 s; is_null_or_black T1 sl });
              (T2, sibling2) \<leftarrow>
                (if far_black then do {
                   s \<leftarrow> sibling;
                   sr \<leftarrow> get_right T1 s;
                   Ta \<leftarrow> (case sr of None \<Rightarrow> Some T1 | Some r \<Rightarrow> set_colour r black T1);
                   Tb \<leftarrow> set_colour s red Ta;
                   Tc \<leftarrow> RtlpRbTreeRotateLeft Tb s;
                   pc \<leftarrow> parent_of Tc Node;
                   sib \<leftarrow> get_left Tc pc;
                   Some (Tc, sib) }
                 else Some (T1, sibling));
              T3 \<leftarrow>
                (case sibling2 of
                   None \<Rightarrow> Some T2
                 | Some s \<Rightarrow> do {
                     pa \<leftarrow> parent_of T2 Node;
                     pcol \<leftarrow> get_colour T2 pa;
                     Ta \<leftarrow> set_colour s pcol T2;
                     pb \<leftarrow> parent_of Ta Node;
                     Tb \<leftarrow> set_colour pb black Ta;
                     sl \<leftarrow> get_left Tb s;
                     Tc \<leftarrow> (case sl of None \<Rightarrow> Some Tb | Some l \<Rightarrow> set_colour l black Tb);
                     pc \<leftarrow> parent_of Tc Node;
                     RtlpRbTreeRotateRight Tc pc });
              r \<leftarrow> root T3;
              FixupDelete_loop T3 r } } } })"

definition RtlpRbTreeFixupDelete :: "('k, 'o) RB_TREE \<Rightarrow> addr \<Rightarrow> ('k, 'o) RB_TREE option" where
  "RtlpRbTreeFixupDelete Tree Node = do {
     (T1, Node1) \<leftarrow> FixupDelete_loop Tree Node;
     set_colour Node1 black T1 }"

text \<open>
  The first part of \<^verbatim>\<open>RtlRbTreeDeleteNode\<close>, from the reading of the target's colour
  to the end of the three-way case distinction: it unlinks the target and gives the
  tree, the colour recorded in \<^verbatim>\<open>colour\<close> and the pointer recorded in \<^verbatim>\<open>child\<close>.
\<close>

definition DeleteNode_unlink ::
  "('k, 'o) RB_TREE \<Rightarrow> addr \<Rightarrow> (('k, 'o) RB_TREE \<times> COLOUR \<times> addr option) option" where
  "DeleteNode_unlink Tree target = do {
     col \<leftarrow> get_colour Tree target;
     tl \<leftarrow> get_left Tree target;
     if tl = None then do {
       child \<leftarrow> get_right Tree target;
       T1 \<leftarrow> RtlpRbTreeTransplant Tree target child;
       Some (T1, col, child) }
     else do {
       tr \<leftarrow> get_right Tree target;
       if tr = None then do {
         T1 \<leftarrow> RtlpRbTreeTransplant Tree target tl;
         Some (T1, col, tl) }
       else do {
         r \<leftarrow> tr;
         successor \<leftarrow> RtlpRbTreeMinimum Tree r;
         scol \<leftarrow> get_colour Tree successor;
         child \<leftarrow> get_right Tree successor;
         sp \<leftarrow> get_parent Tree successor;
         T1 \<leftarrow>
           (if sp = Some target then
              (case child of None \<Rightarrow> Some Tree | Some c \<Rightarrow> set_parent c (Some successor) Tree)
            else do {
              sr \<leftarrow> get_right Tree successor;
              Ta \<leftarrow> RtlpRbTreeTransplant Tree successor sr;
              tr' \<leftarrow> get_right Ta target;
              Tb \<leftarrow> set_right successor tr' Ta;
              sr' \<leftarrow> get_right Tb successor;
              x \<leftarrow> sr';
              set_parent x (Some successor) Tb });
         T2 \<leftarrow> RtlpRbTreeTransplant T1 target (Some successor);
         tl' \<leftarrow> get_left T2 target;
         T3 \<leftarrow> set_left successor tl' T2;
         sl \<leftarrow> get_left T3 successor;
         y \<leftarrow> sl;
         T4 \<leftarrow> set_parent y (Some successor) T3;
         tcol \<leftarrow> get_colour T4 target;
         T5 \<leftarrow> set_colour successor tcol T4;
         Some (T5, scol, child) } } }"

definition RtlRbTreeDeleteNode :: "('k, 'o) RB_TREE \<Rightarrow> 'k \<Rightarrow> ('k, 'o) RB_TREE option" where
  "RtlRbTreeDeleteNode Tree Key = do {
     target_opt \<leftarrow> RtlpRbTreeFindNode Tree Key;
     case target_opt of
       None \<Rightarrow> Some Tree
     | Some target \<Rightarrow> do {
         (T1, col, child) \<leftarrow> DeleteNode_unlink Tree target;
         T2 \<leftarrow> (if col = black \<and> child \<noteq> None then do {
                  c \<leftarrow> child;
                  RtlpRbTreeFixupDelete T1 c }
                else Some T1);
         T3 \<leftarrow> ExFreeToLookasideListEx T2 target;
         Some (RtlpRbTreeDecrementNodeCount (RtlpRbTreeIncrementDeletionCount T3)) } }"

section \<open>Enumeration\<close>

text \<open>
  The callback receives the object and the caller's context; its effect is a new
  context. The lock taken around the traversal is not modelled.
\<close>

partial_function (option) RtlpRbTreeEnumerate ::
  "('k, 'o) RB_TREE \<Rightarrow> addr option \<Rightarrow> ('o \<Rightarrow> 'c \<Rightarrow> 'c) \<Rightarrow> 'c \<Rightarrow> 'c option" where
  "RtlpRbTreeEnumerate Tree Node Callback Context =
     (case Node of
        None \<Rightarrow> Some Context
      | Some a \<Rightarrow> do {
          l \<leftarrow> get_left Tree a;
          c1 \<leftarrow> RtlpRbTreeEnumerate Tree l Callback Context;
          ob \<leftarrow> get_object Tree a;
          r \<leftarrow> get_right Tree a;
          RtlpRbTreeEnumerate Tree r Callback (Callback ob c1) })"

definition RtlRbTreeEnumerate ::
  "('k, 'o) RB_TREE \<Rightarrow> ('o \<Rightarrow> 'c \<Rightarrow> 'c) \<Rightarrow> 'c \<Rightarrow> 'c option" where
  "RtlRbTreeEnumerate Tree Callback Context =
     (if root Tree = None then Some Context
      else RtlpRbTreeEnumerate Tree (root Tree) Callback Context)"

section \<open>Callers\<close>

text \<open>
  \<^verbatim>\<open>RtlRbTreeInsertNode\<close> hands the caller the object of the node; it never writes
  the payload itself. A caller that inserts a record asks for the node of the record's
  key and then writes the record into the object returned (nothing is written when the
  result is \<^verbatim>\<open>NULL\<close>). \<open>keyof\<close> is the part of a record the comparator inspects.
\<close>

datatype ('k, 'o) operation = Insert 'o | Delete 'k

definition caller_insert ::
  "('o \<Rightarrow> 'k) \<Rightarrow> ('k, 'o) RB_TREE \<Rightarrow> 'o \<Rightarrow> ('k, 'o) RB_TREE option" where
  "caller_insert keyof Tree v = do {
     (ob, T1) \<leftarrow> RtlRbTreeInsertNode Tree (keyof v);
     case ob of None \<Rightarrow> Some T1 | Some a \<Rightarrow> set_object a v T1 }"

fun apply_operation ::
  "('o \<Rightarrow> 'k) \<Rightarrow> ('k, 'o) RB_TREE \<Rightarrow> ('k, 'o) operation \<Rightarrow> ('k, 'o) RB_TREE option" where
  "apply_operation keyof Tree (Insert v) = caller_insert keyof Tree v"
| "apply_operation keyof Tree (Delete k) = RtlRbTreeDeleteNode Tree k"

fun run_operations ::
  "('o \<Rightarrow> 'k) \<Rightarrow> ('k, 'o) RB_TREE \<Rightarrow> ('k, 'o) operation list \<Rightarrow> ('k, 'o) RB_TREE option" where
  "run_operations keyof Tree [] = Some Tree"
| "run_operations keyof Tree (x # xs) = do {
     T1 \<leftarrow> apply_operation keyof Tree x;
     run_operations keyof T1 xs }"

subsection \<open>A concrete tree of integers\<close>

definition compare_int :: "int \<Rightarrow> int \<Rightarrow> 32 word" where
  "compare_int k v =
     (if k < v then RB_TREE_LESS_THAN else if v < k then RB_TREE_GREATER_THAN else RB_TREE_EQUAL)"

definition zeroed_tree :: "(int, int) RB_TREE" where
  "zeroed_tree = \<lparr>root = None, compare = None, pool = [], object_size = 0, active = 0,
     node_count = 0, insertion_count = 0, deletion_count = 0, mem = Map.empty\<rparr>"

definition blank :: "int RB_TREE_NODE" where
  "blank = \<lparr>parent = None, left = None, right = None, colour = red, object = 0\<rparr>"

definition blocks :: "nat \<Rightarrow> (addr \<times> int RB_TREE_NODE) list" where
  "blocks n = map (\<lambda>a. (a, blank)) [1 ..< Suc n]"

definition new_tree :: "nat \<Rightarrow> (int, int) RB_TREE" where
  "new_tree n =
     snd (RtlRbTreeCreate (\<lambda>sz. (STATUS_SUCCESS, blocks n)) (Some compare_int) 8 zeroed_tree)"

section \<open>Invariants and specifications\<close>

subsection \<open>Views of the memory, shape and search order\<close>

text \<open>
  Total views of the memory: whether an address holds a node, and the fields of the
  node it holds (null pointers and black for an address that holds none).
\<close>

definition live :: "('k, 'o) RB_TREE \<Rightarrow> addr \<Rightarrow> bool" where
  "live T a = (mem T a \<noteq> None)"

definition pa :: "('k, 'o) RB_TREE \<Rightarrow> addr \<Rightarrow> addr option" where
  "pa T a = (case mem T a of None \<Rightarrow> None | Some n \<Rightarrow> parent n)"

definition lf :: "('k, 'o) RB_TREE \<Rightarrow> addr \<Rightarrow> addr option" where
  "lf T a = (case mem T a of None \<Rightarrow> None | Some n \<Rightarrow> left n)"

definition rt :: "('k, 'o) RB_TREE \<Rightarrow> addr \<Rightarrow> addr option" where
  "rt T a = (case mem T a of None \<Rightarrow> None | Some n \<Rightarrow> right n)"

definition col :: "('k, 'o) RB_TREE \<Rightarrow> addr \<Rightarrow> COLOUR" where
  "col T a = (case mem T a of None \<Rightarrow> black | Some n \<Rightarrow> colour n)"

text \<open>A key lies strictly between an optional lower and an optional upper bound.\<close>

definition inb :: "'k::linorder option \<Rightarrow> 'k option \<Rightarrow> 'k \<Rightarrow> bool" where
  "inb lo hi k = ((case lo of None \<Rightarrow> True | Some l \<Rightarrow> l < k) \<and> (case hi of None \<Rightarrow> True | Some u \<Rightarrow> k < u))"

text \<open>
  The links are consistent, outside a set \<open>X\<close> of nodes that are allocated but are not
  part of the tree: the nodes are finitely many, the root has no parent, a node
  without parent is the root, and the parent and child pointers agree.
\<close>

definition links_ok :: "addr set \<Rightarrow> ('k, 'o) RB_TREE \<Rightarrow> bool" where
  "links_ok X T =
     (finite {a. live T a} \<and>
      (\<forall>r. root T = Some r \<longrightarrow> live T r \<and> r \<notin> X \<and> pa T r = None) \<and>
      (\<forall>a. live T a \<and> a \<notin> X \<longrightarrow>
         (pa T a = None \<longrightarrow> root T = Some a) \<and>
         (\<forall>p. pa T a = Some p \<longrightarrow> live T p \<and> p \<notin> X \<and> (lf T p = Some a \<or> rt T p = Some a)) \<and>
         (\<forall>b. lf T a = Some b \<longrightarrow> live T b \<and> b \<notin> X \<and> pa T b = Some a) \<and>
         (\<forall>b. rt T a = Some b \<longrightarrow> live T b \<and> b \<notin> X \<and> pa T b = Some a)))"

text \<open>
  The search order, by a certificate: every node has an optional lower and an optional
  upper bound, none at the root; its key lies between them; and a child has the bounds
  of its parent, with the key of the parent on the side of the parent.
\<close>

definition bst_ok ::
  "addr set \<Rightarrow> (addr \<Rightarrow> 'k::linorder) \<Rightarrow> (addr \<Rightarrow> 'k option) \<Rightarrow> (addr \<Rightarrow> 'k option) \<Rightarrow> ('x, 'o) RB_TREE \<Rightarrow> bool" where
  "bst_ok X key lo hi T =
     (\<forall>a. live T a \<and> a \<notin> X \<longrightarrow>
        inb (lo a) (hi a) (key a) \<and>
        (pa T a = None \<longrightarrow> lo a = None \<and> hi a = None) \<and>
        (\<forall>b. lf T a = Some b \<longrightarrow> lo b = lo a \<and> hi b = Some (key a)) \<and>
        (\<forall>b. rt T a = Some b \<longrightarrow> lo b = Some (key a) \<and> hi b = hi a))"

text \<open>The child relation, and the nodes whose keys lie within the bounds of a node.\<close>

definition child :: "('k, 'o) RB_TREE \<Rightarrow> addr \<Rightarrow> addr \<Rightarrow> bool" where
  "child T a b = (live T a \<and> (lf T a = Some b \<or> rt T a = Some b))"

definition below :: "(addr \<Rightarrow> 'k::linorder) \<Rightarrow> (addr \<Rightarrow> 'k option) \<Rightarrow> (addr \<Rightarrow> 'k option) \<Rightarrow> addr set \<Rightarrow> ('x, 'o) RB_TREE \<Rightarrow> addr \<Rightarrow> addr set" where
  "below key lo hi X T a = {c. live T c \<and> c \<notin> X \<and> inb (lo a) (hi a) (key c)}"

text \<open>The payload of the node at an address, and a write to the node at an address.\<close>

definition obj :: "('k, 'o) RB_TREE \<Rightarrow> addr \<Rightarrow> 'o option" where
  "obj T a = map_option object (mem T a)"

definition upd :: "addr \<Rightarrow> ('o RB_TREE_NODE \<Rightarrow> 'o RB_TREE_NODE) \<Rightarrow> ('k, 'o) RB_TREE \<Rightarrow> ('k, 'o) RB_TREE" where
  "upd a f T = T\<lparr>mem := (mem T)(a := map_option f (mem T a))\<rparr>"

text \<open>Two states that differ at most in the root pointer, the links and the colours.\<close>

definition rest_eq :: "('k, 'o) RB_TREE \<Rightarrow> ('k, 'o) RB_TREE \<Rightarrow> bool" where
  "rest_eq T T' = (compare T' = compare T \<and> pool T' = pool T \<and> object_size T' = object_size T \<and>
     active T' = active T \<and> node_count T' = node_count T \<and> insertion_count T' = insertion_count T \<and>
     deletion_count T' = deletion_count T \<and> live T' = live T \<and> obj T' = obj T)"

text \<open>A function update at an optional point.\<close>

definition updo :: "addr option \<Rightarrow> 'v \<Rightarrow> (addr \<Rightarrow> 'v) \<Rightarrow> (addr \<Rightarrow> 'v)" where
  "updo p v f = (case p of None \<Rightarrow> f | Some a \<Rightarrow> f(a := v))"

subsection \<open>Rotations\<close>

text \<open>
  What \<^verbatim>\<open>RtlpRbTreeRotateLeft\<close> at \<open>x\<close>, whose right child is \<open>y\<close>, does to the root pointer
  and to the links, field by field.
\<close>

definition rotl_rel :: "('k, 'o) RB_TREE \<Rightarrow> addr \<Rightarrow> addr \<Rightarrow> ('k, 'o) RB_TREE \<Rightarrow> bool" where
  "rotl_rel T x y T' =
     (rest_eq T T' \<and> col T' = col T \<and>
      root T' = (if pa T x = None then Some y else root T) \<and>
      (\<forall>a. pa T' a = (if a = x then Some y else if a = y then pa T x
                      else if lf T y = Some a then Some x else pa T a)) \<and>
      (\<forall>a. lf T' a = (if a = y then Some x
                      else if pa T x = Some a \<and> lf T a = Some x then Some y else lf T a)) \<and>
      (\<forall>a. rt T' a = (if a = x then lf T y
                      else if pa T x = Some a \<and> lf T a \<noteq> Some x then Some y else rt T a)))"

text \<open>The same for \<^verbatim>\<open>RtlpRbTreeRotateRight\<close> at \<open>x\<close>, whose left child is \<open>y\<close>.\<close>

definition rotr_rel :: "('k, 'o) RB_TREE \<Rightarrow> addr \<Rightarrow> addr \<Rightarrow> ('k, 'o) RB_TREE \<Rightarrow> bool" where
  "rotr_rel T x y T' =
     (rest_eq T T' \<and> col T' = col T \<and>
      root T' = (if pa T x = None then Some y else root T) \<and>
      (\<forall>a. pa T' a = (if a = x then Some y else if a = y then pa T x
                      else if rt T y = Some a then Some x else pa T a)) \<and>
      (\<forall>a. rt T' a = (if a = y then Some x
                      else if pa T x = Some a \<and> rt T a = Some x then Some y else rt T a)) \<and>
      (\<forall>a. lf T' a = (if a = x then rt T y
                      else if pa T x = Some a \<and> rt T a \<noteq> Some x then Some y else lf T a)))"

subsection \<open>Lookup, insertion point and minimum\<close>

text \<open>
  The key of a node is the key of the record in its payload (but for the nodes in \<open>X\<close>:
  a node just allocated holds no record yet).
\<close>

definition keys_ok :: "addr set \<Rightarrow> ('o \<Rightarrow> 'k) \<Rightarrow> (addr \<Rightarrow> 'k) \<Rightarrow> ('x, 'o) RB_TREE \<Rightarrow> bool" where
  "keys_ok X keyof key T = (\<forall>a v. obj T a = Some v \<and> a \<notin> X \<longrightarrow> keyof v = key a)"

text \<open>
  The comparator is the three-way comparison of a strict total order: it compares the
  key it is given with the key of the object it is given.
\<close>

definition cmp_ok :: "('o \<Rightarrow> 'k::linorder) \<Rightarrow> ('k, 'o) RB_TREE \<Rightarrow> bool" where
  "cmp_ok keyof T =
     (\<exists>cmp. compare T = Some cmp \<and>
        (\<forall>k v. cmp k v = (if k < keyof v then RB_TREE_LESS_THAN
                          else if keyof v < k then RB_TREE_GREATER_THAN else RB_TREE_EQUAL)))"

subsection \<open>Colours and black height\<close>

text \<open>The root, if there is one, is black.\<close>

definition root_black :: "('k, 'o) RB_TREE \<Rightarrow> bool" where
  "root_black T = (\<forall>r. root T = Some r \<longrightarrow> col T r = black)"

text \<open>No red node has a red child, but for the children in \<open>E\<close>.\<close>

definition rr_ok :: "addr set \<Rightarrow> addr set \<Rightarrow> ('k, 'o) RB_TREE \<Rightarrow> bool" where
  "rr_ok X E T =
     (\<forall>a c. live T a \<and> a \<notin> X \<and> col T a = red \<and> (lf T a = Some c \<or> rt T a = Some c) \<and> col T c = red
        \<longrightarrow> c \<in> E)"

text \<open>
  The black height, by a certificate: \<open>bh a\<close> is the number of black nodes on every path
  from \<open>a\<close> down to a null pointer, \<open>a\<close> counted; the two children of a node have the
  same black height.
\<close>

definition bhO :: "(addr \<Rightarrow> nat) \<Rightarrow> addr option \<Rightarrow> nat" where
  "bhO bh p = (case p of None \<Rightarrow> 0 | Some b \<Rightarrow> bh b)"

definition bh_ok :: "addr set \<Rightarrow> (addr \<Rightarrow> nat) \<Rightarrow> ('k, 'o) RB_TREE \<Rightarrow> bool" where
  "bh_ok X bh T =
     (\<forall>a. live T a \<and> a \<notin> X \<longrightarrow>
        bhO bh (lf T a) = bhO bh (rt T a) \<and>
        bh a = bhO bh (lf T a) + (if col T a = black then 1 else 0))"

text \<open>Two states with the same root pointer and the same links.\<close>

definition same_links :: "('k, 'o) RB_TREE \<Rightarrow> ('k, 'o) RB_TREE \<Rightarrow> bool" where
  "same_links T T' = (root T' = root T \<and> live T' = live T \<and> pa T' = pa T \<and> lf T' = lf T \<and> rt T' = rt T)"

subsection \<open>Insertion fixup\<close>

text \<open>
  What the loop of \<^verbatim>\<open>RtlpRbTreeFixupInsert\<close> needs and what it gives. With \<open>full\<close> the
  colours are those of a red-black tree in which the node \<open>n\<close> is red and may have a red
  parent; without it only the shape and the search order are followed.
\<close>

definition fi_pre ::
  "bool \<Rightarrow> addr set \<Rightarrow> (addr \<Rightarrow> 'k::linorder) \<Rightarrow> (addr \<Rightarrow> 'k option) \<Rightarrow> (addr \<Rightarrow> 'k option) \<Rightarrow> (addr \<Rightarrow> nat)
     \<Rightarrow> ('x, 'o) RB_TREE \<Rightarrow> addr \<Rightarrow> bool" where
  "fi_pre full X key lo hi bh T n =
     (links_ok X T \<and> bst_ok X key lo hi T \<and> live T n \<and> n \<notin> X \<and>
      (root_black T \<or> root T = Some n) \<and>
      (full \<longrightarrow> col T n = red \<and> rr_ok X {n} T \<and> bh_ok X bh T))"

definition fi_post ::
  "bool \<Rightarrow> addr set \<Rightarrow> (addr \<Rightarrow> 'k::linorder) \<Rightarrow> ('x, 'o) RB_TREE \<Rightarrow> ('x, 'o) RB_TREE \<Rightarrow> bool" where
  "fi_post full X key T T' =
     (rest_eq T T' \<and> links_ok X T' \<and> (\<exists>lo' hi'. bst_ok X key lo' hi' T') \<and>
      (full \<longrightarrow> rr_ok X {} T' \<and> (\<exists>bh'. bh_ok X bh' T')))"

subsection \<open>Insertion\<close>

text \<open>The free blocks of the pool are distinct, and none of them is a node.\<close>

definition pool_ok :: "('k, 'o) RB_TREE \<Rightarrow> bool" where
  "pool_ok T = (distinct (map fst (pool T)) \<and> (\<forall>e \<in> set (pool T). \<not> live T (fst e)))"

text \<open>The state after the allocation and the four initialising stores of RtlRbTreeInsertNode.\<close>

definition fresh_rel :: "('k, 'o) RB_TREE \<Rightarrow> addr \<Rightarrow> ('k, 'o) RB_TREE \<Rightarrow> bool" where
  "fresh_rel T a T4 =
     (root T4 = root T \<and> compare T4 = compare T \<and> object_size T4 = object_size T \<and>
      active T4 = active T \<and> node_count T4 = node_count T \<and>
      insertion_count T4 = insertion_count T \<and> deletion_count T4 = deletion_count T \<and>
      pool T4 = tl (pool T) \<and>
      live T4 = (live T)(a := True) \<and> pa T4 = pa T \<and> lf T4 = lf T \<and> rt T4 = rt T \<and>
      col T4 = (col T)(a := red) \<and> (\<forall>b. b \<noteq> a \<longrightarrow> obj T4 b = obj T b) \<and>
      (\<forall>b. b \<noteq> a \<longrightarrow> mem T4 b = mem T b))"

text \<open>
  What the insertion of a new key at the address \<open>a\<close> does to everything but the root
  pointer, the links and the colours.
\<close>

definition ins_rel :: "('k, 'o) RB_TREE \<Rightarrow> addr \<Rightarrow> ('k, 'o) RB_TREE \<Rightarrow> bool" where
  "ins_rel T a T' =
     (compare T' = compare T \<and> object_size T' = object_size T \<and> active T' = active T \<and>
      pool T' = tl (pool T) \<and> node_count T' = node_count T + 1 \<and>
      insertion_count T' = insertion_count T + 1 \<and> deletion_count T' = deletion_count T \<and>
      live T' = (live T)(a := True) \<and> (\<forall>b. b \<noteq> a \<longrightarrow> obj T' b = obj T b))"

text \<open>The key of a node is the key of the record stored in it.\<close>

definition nkey :: "('o \<Rightarrow> 'k) \<Rightarrow> ('x, 'o) RB_TREE \<Rightarrow> addr \<Rightarrow> 'k" where
  "nkey keyof T a = keyof (the (obj T a))"

text \<open>
  A search tree: the comparator is a strict total order, the links are consistent and
  the keys of the nodes are in search order.
\<close>

definition bst_inv :: "('o \<Rightarrow> 'k::linorder) \<Rightarrow> ('k, 'o) RB_TREE \<Rightarrow> bool" where
  "bst_inv keyof T =
     (cmp_ok keyof T \<and> links_ok {} T \<and> (\<exists>lo hi. bst_ok {} (nkey keyof T) lo hi T))"

text \<open>The colours of a red-black tree: black root, no red-red edge, uniform black height.\<close>

definition rb_inv :: "('k, 'o) RB_TREE \<Rightarrow> bool" where
  "rb_inv T = (root_black T \<and> rr_ok {} {} T \<and> (\<exists>bh. bh_ok {} bh T))"

text \<open>The node counter holds the number of nodes, as a 32-bit number.\<close>

definition cnt_ok :: "('k, 'o) RB_TREE \<Rightarrow> bool" where
  "cnt_ok T = (node_count T = of_nat (card {a. live T a}))"

text \<open>The blocks of a tree: the nodes and the free blocks of the pool.\<close>

definition blocks_of :: "('k, 'o) RB_TREE \<Rightarrow> nat" where
  "blocks_of T = card {a. live T a} + length (pool T)"

subsection \<open>Black height along paths; concrete trees\<close>

text \<open>The tree of scenario A, with one block left in the pool.\<close>

definition tree_10_20_30 :: "(int, int) RB_TREE" where
  "tree_10_20_30 = the (run_operations id (new_tree 4) [Insert 10, Insert 20, Insert 30])"

text \<open>The tree of scenario A: 10, 20 and 30 inserted, in that order, into an empty tree.\<close>

definition scenario_A_tree :: "(int, int) RB_TREE" where
  "scenario_A_tree = the (run_operations id (new_tree 3) [Insert 10, Insert 20, Insert 30])"

text \<open>The tree that holds the key 10, with a pool that had one block.\<close>

definition tree_10_exhausted :: "(int, int) RB_TREE" where
  "tree_10_exhausted = the (run_operations id (new_tree 1) [Insert 10])"

text \<open>
  \<open>bpath T x n\<close>: some path that starts at \<open>x\<close> and follows child pointers down to a
  null pointer passes \<open>n\<close> black nodes.
\<close>

inductive bpath :: "('k, 'o) RB_TREE \<Rightarrow> addr option \<Rightarrow> nat \<Rightarrow> bool" for T where
  bpath_null: "bpath T None 0"
| bpath_left: "live T a \<Longrightarrow> bpath T (lf T a) n \<Longrightarrow>
     bpath T (Some a) (if col T a = black then Suc n else n)"
| bpath_right: "live T a \<Longrightarrow> bpath T (rt T a) n \<Longrightarrow>
     bpath T (Some a) (if col T a = black then Suc n else n)"

code_pred bpath .

text \<open>Any two paths from a node down to a null pointer pass the same number of black nodes.\<close>

definition bh_uniform :: "('k, 'o) RB_TREE \<Rightarrow> bool" where
  "bh_uniform T = (\<forall>a n m. live T a \<and> bpath T (Some a) n \<and> bpath T (Some a) m \<longrightarrow> n = m)"

text \<open>No red node has a red parent.\<close>

definition no_red_red :: "('k, 'o) RB_TREE \<Rightarrow> bool" where
  "no_red_red T = (\<forall>a p. live T a \<and> col T a = red \<and> pa T a = Some p \<longrightarrow> col T p = black)"

text \<open>The red-black invariants of the tree, with a comparator that is a strict total order
  on the keys and a pool whose free blocks are not nodes of the tree.\<close>

definition rb_tree :: "('o \<Rightarrow> 'k::linorder) \<Rightarrow> ('k, 'o) RB_TREE \<Rightarrow> bool" where
  "rb_tree keyof T = (bst_inv keyof T \<and> pool_ok T \<and> rb_inv T)"

subsection \<open>Unlinking the target of a deletion\<close>

text \<open>What \<^verbatim>\<open>RtlpRbTreeTransplant\<close> does to the links, field by field.\<close>

definition transplant_rel ::
  "('k, 'o) RB_TREE \<Rightarrow> addr \<Rightarrow> addr option \<Rightarrow> ('k, 'o) RB_TREE \<Rightarrow> bool" where
  "transplant_rel T z x T' =
     (rest_eq T T' \<and> col T' = col T \<and>
      root T' = (if pa T z = None then x else root T) \<and>
      (\<forall>a. lf T' a = (if pa T z = Some a \<and> lf T a = Some z then x else lf T a)) \<and>
      (\<forall>a. rt T' a = (if pa T z = Some a \<and> lf T a \<noteq> Some z then x else rt T a)) \<and>
      (\<forall>a. pa T' a = (if x = Some a then pa T z else pa T a)))"

text \<open>
  The node \<open>y\<close>, which is out of the tree, takes the place of the node \<open>z\<close>: its links
  and its colour. The fields of \<open>z\<close> itself are left out.
\<close>

definition relabel_rel ::
  "('k, 'o) RB_TREE \<Rightarrow> addr \<Rightarrow> addr \<Rightarrow> ('k, 'o) RB_TREE \<Rightarrow> bool" where
  "relabel_rel T z y T' =
     (rest_eq T T' \<and>
      root T' = (if root T = Some z then Some y else root T) \<and>
      (\<forall>a. a \<noteq> z \<longrightarrow> pa T' a = (if a = y then pa T z else if pa T a = Some z then Some y else pa T a)) \<and>
      (\<forall>a. a \<noteq> z \<longrightarrow> lf T' a = (if a = y then lf T z else if lf T a = Some z then Some y else lf T a)) \<and>
      (\<forall>a. a \<noteq> z \<longrightarrow> rt T' a = (if a = y then rt T z else if rt T a = Some z then Some y else rt T a)) \<and>
      (\<forall>a. a \<noteq> z \<longrightarrow> col T' a = (if a = y then col T z else col T a)))"

subsection \<open>Deletion fixup\<close>

text \<open>
  The four steps of one round of the loop of \<^verbatim>\<open>RtlpRbTreeFixupDelete\<close>, for a node
  that is a left child: the red sibling, the test for a sibling with two black
  children, the sibling whose far child is black, and the final rotation.
\<close>

definition fd_red_sibling_left ::
  "('k, 'o) RB_TREE \<Rightarrow> addr \<Rightarrow> addr \<Rightarrow> (('k, 'o) RB_TREE \<times> addr option) option" where
  "fd_red_sibling_left Tree Node p = do {
     sibling0 \<leftarrow> get_right Tree p;
     s0_red \<leftarrow> is_red Tree sibling0;
     (if s0_red then do {
        s \<leftarrow> sibling0;
        Ta \<leftarrow> set_colour s black Tree;
        pa \<leftarrow> parent_of Ta Node;
        Tb \<leftarrow> set_colour pa red Ta;
        pb \<leftarrow> parent_of Tb Node;
        Tc \<leftarrow> RtlpRbTreeRotateLeft Tb pb;
        pc \<leftarrow> parent_of Tc Node;
        sib \<leftarrow> get_right Tc pc;
        Some (Tc, sib) }
      else Some (Tree, sibling0)) }"

definition fd_both_black_left :: "('k, 'o) RB_TREE \<Rightarrow> addr option \<Rightarrow> bool option" where
  "fd_both_black_left T1 sibling =
     (case sibling of
        None \<Rightarrow> Some False
      | Some s \<Rightarrow> do {
          sl \<leftarrow> get_left T1 s;
          lb \<leftarrow> is_null_or_black T1 sl;
          if lb then do { sr \<leftarrow> get_right T1 s; is_null_or_black T1 sr }
          else Some False })"

definition fd_near_red_left ::
  "('k, 'o) RB_TREE \<Rightarrow> addr \<Rightarrow> addr option \<Rightarrow> (('k, 'o) RB_TREE \<times> addr option) option" where
  "fd_near_red_left T1 Node sibling = do {
     far_black \<leftarrow>
       (case sibling of
          None \<Rightarrow> Some False
        | Some s \<Rightarrow> do { sr \<leftarrow> get_right T1 s; is_null_or_black T1 sr });
     (if far_black then do {
        s \<leftarrow> sibling;
        sl \<leftarrow> get_left T1 s;
        Ta \<leftarrow> (case sl of None \<Rightarrow> Some T1 | Some l \<Rightarrow> set_colour l black T1);
        Tb \<leftarrow> set_colour s red Ta;
        Tc \<leftarrow> RtlpRbTreeRotateRight Tb s;
        pc \<leftarrow> parent_of Tc Node;
        sib \<leftarrow> get_right Tc pc;
        Some (Tc, sib) }
      else Some (T1, sibling)) }"

definition fd_far_red_left ::
  "('k, 'o) RB_TREE \<Rightarrow> addr \<Rightarrow> addr option \<Rightarrow> ('k, 'o) RB_TREE option" where
  "fd_far_red_left T2 Node sibling2 =
     (case sibling2 of
        None \<Rightarrow> Some T2
      | Some s \<Rightarrow> do {
          pa \<leftarrow> parent_of T2 Node;
          pcol \<leftarrow> get_colour T2 pa;
          Ta \<leftarrow> set_colour s pcol T2;
          pb \<leftarrow> parent_of Ta Node;
          Tb \<leftarrow> set_colour pb black Ta;
          sr \<leftarrow> get_right Tb s;
          Tc \<leftarrow> (case sr of None \<Rightarrow> Some Tb | Some r \<Rightarrow> set_colour r black Tb);
          pc \<leftarrow> parent_of Tc Node;
          RtlpRbTreeRotateLeft Tc pc })"

text \<open>The same four steps for a node that is a right child.\<close>

definition fd_red_sibling_right ::
  "('k, 'o) RB_TREE \<Rightarrow> addr \<Rightarrow> addr \<Rightarrow> (('k, 'o) RB_TREE \<times> addr option) option" where
  "fd_red_sibling_right Tree Node p = do {
     sibling0 \<leftarrow> get_left Tree p;
     s0_red \<leftarrow> is_red Tree sibling0;
     (if s0_red then do {
        s \<leftarrow> sibling0;
        Ta \<leftarrow> set_colour s black Tree;
        pa \<leftarrow> parent_of Ta Node;
        Tb \<leftarrow> set_colour pa red Ta;
        pb \<leftarrow> parent_of Tb Node;
        Tc \<leftarrow> RtlpRbTreeRotateRight Tb pb;
        pc \<leftarrow> parent_of Tc Node;
        sib \<leftarrow> get_left Tc pc;
        Some (Tc, sib) }
      else Some (Tree, sibling0)) }"

definition fd_both_black_right :: "('k, 'o) RB_TREE \<Rightarrow> addr option \<Rightarrow> bool option" where
  "fd_both_black_right T1 sibling =
     (case sibling of
        None \<Rightarrow> Some False
      | Some s \<Rightarrow> do {
          sr \<leftarrow> get_right T1 s;
          rb \<leftarrow> is_null_or_black T1 sr;
          if rb then do { sl \<leftarrow> get_left T1 s; is_null_or_black T1 sl }
          else Some False })"

definition fd_near_red_right ::
  "('k, 'o) RB_TREE \<Rightarrow> addr \<Rightarrow> addr option \<Rightarrow> (('k, 'o) RB_TREE \<times> addr option) option" where
  "fd_near_red_right T1 Node sibling = do {
     far_black \<leftarrow>
       (case sibling of
          None \<Rightarrow> Some False
        | Some s \<Rightarrow> do { sl \<leftarrow> get_left T1 s; is_null_or_black T1 sl });
     (if far_black then do {
        s \<leftarrow> sibling;
        sr \<leftarrow> get_right T1 s;
        Ta \<leftarrow> (case sr of None \<Rightarrow> Some T1 | Some r \<Rightarrow> set_colour r black T1);
        Tb \<leftarrow> set_colour s red Ta;
        Tc \<leftarrow> RtlpRbTreeRotateLeft Tb s;
        pc \<leftarrow> parent_of Tc Node;
        sib \<leftarrow> get_left Tc pc;
        Some (Tc, sib) }
      else Some (T1, sibling)) }"

definition fd_far_red_right ::
  "('k, 'o) RB_TREE \<Rightarrow> addr \<Rightarrow> addr option \<Rightarrow> ('k, 'o) RB_TREE option" where
  "fd_far_red_right T2 Node sibling2 =
     (case sibling2 of
        None \<Rightarrow> Some T2
      | Some s \<Rightarrow> do {
          pa \<leftarrow> parent_of T2 Node;
          pcol \<leftarrow> get_colour T2 pa;
          Ta \<leftarrow> set_colour s pcol T2;
          pb \<leftarrow> parent_of Ta Node;
          Tb \<leftarrow> set_colour pb black Ta;
          sl \<leftarrow> get_left Tb s;
          Tc \<leftarrow> (case sl of None \<Rightarrow> Some Tb | Some l \<Rightarrow> set_colour l black Tb);
          pc \<leftarrow> parent_of Tc Node;
          RtlpRbTreeRotateRight Tc pc })"

text \<open>The test \<^verbatim>\<open>!p || p->colour == black\<close>.\<close>

definition null_or_black :: "('k, 'o) RB_TREE \<Rightarrow> addr option \<Rightarrow> bool" where
  "null_or_black T x = (case x of None \<Rightarrow> True | Some a \<Rightarrow> col T a = black)"

text \<open>The state between two steps of a round, for a node \<open>n\<close> that is the left child of \<open>p\<close>.\<close>

definition fd_mid_left ::
  "addr set \<Rightarrow> (addr \<Rightarrow> 'k::linorder) \<Rightarrow> ('x, 'o) RB_TREE \<Rightarrow> addr \<Rightarrow> addr \<Rightarrow> addr option \<Rightarrow> bool" where
  "fd_mid_left X key T n p sib =
     (links_ok X T \<and> (\<exists>lo hi. bst_ok X key lo hi T) \<and> live T n \<and> n \<notin> X \<and>
      pa T n = Some p \<and> lf T p = Some n \<and> rt T p = sib \<and> root_black T)"

text \<open>The same for a node \<open>n\<close> that is the right child of \<open>p\<close>.\<close>

definition fd_mid_right ::
  "addr set \<Rightarrow> (addr \<Rightarrow> 'k::linorder) \<Rightarrow> ('x, 'o) RB_TREE \<Rightarrow> addr \<Rightarrow> addr \<Rightarrow> addr option \<Rightarrow> bool" where
  "fd_mid_right X key T n p sib =
     (links_ok X T \<and> (\<exists>lo hi. bst_ok X key lo hi T) \<and> live T n \<and> n \<notin> X \<and>
      pa T n = Some p \<and> rt T p = Some n \<and> lf T p = sib \<and> root_black T)"

text \<open>
  What the loop of \<^verbatim>\<open>RtlpRbTreeFixupDelete\<close> needs and what it gives, whatever the
  colours of the nodes: the shape and the search order are kept, and the root stays
  black unless the loop ends at the root.
\<close>

definition fd_pre ::
  "addr set \<Rightarrow> (addr \<Rightarrow> 'k::linorder) \<Rightarrow> (addr \<Rightarrow> 'k option) \<Rightarrow> (addr \<Rightarrow> 'k option) \<Rightarrow>
     ('x, 'o) RB_TREE \<Rightarrow> addr \<Rightarrow> bool" where
  "fd_pre X key lo hi T n =
     (links_ok X T \<and> bst_ok X key lo hi T \<and> live T n \<and> n \<notin> X \<and>
      (root_black T \<or> root T = Some n))"

definition fd_post ::
  "addr set \<Rightarrow> (addr \<Rightarrow> 'k::linorder) \<Rightarrow> ('x, 'o) RB_TREE \<Rightarrow> ('x, 'o) RB_TREE \<Rightarrow> addr \<Rightarrow> bool" where
  "fd_post X key T T' n' =
     (rest_eq T T' \<and> links_ok X T' \<and> (\<exists>lo' hi'. bst_ok X key lo' hi' T') \<and>
      live T' n' \<and> n' \<notin> X \<and> (root_black T' \<or> root T' = Some n'))"

subsection \<open>Enumeration\<close>

text \<open>The nodes below a pointer: none below a null pointer.\<close>

definition desc :: "('k, 'o) RB_TREE \<Rightarrow> addr option \<Rightarrow> addr set" where
  "desc T x = (case x of None \<Rightarrow> {} | Some a \<Rightarrow> {c. (child T)\<^sup>*\<^sup>* a c})"

subsection \<open>Sequences of operations\<close>

text \<open>The invariant of the tree under the operations of its callers.\<close>

definition tree_inv :: "('o \<Rightarrow> 'k::linorder) \<Rightarrow> ('k, 'o) RB_TREE \<Rightarrow> bool" where
  "tree_inv keyof T = (bst_inv keyof T \<and> pool_ok T \<and> root_black T \<and> cnt_ok T)"

text \<open>An empty tree: no node, a comparator that is a strict total order, a zero node count.\<close>

definition empty_tree :: "('o \<Rightarrow> 'k::linorder) \<Rightarrow> ('k, 'o) RB_TREE \<Rightarrow> bool" where
  "empty_tree keyof T =
     (cmp_ok keyof T \<and> root T = None \<and> mem T = Map.empty \<and> node_count T = 0 \<and>
      distinct (map fst (pool T)))"

text \<open>The nodes reachable from the root.\<close>

definition reachable :: "('k, 'o) RB_TREE \<Rightarrow> addr set" where
  "reachable T = desc T (root T)"

section \<open>Properties of the operations\<close>

subsection \<open>Views of the memory, shape and search order\<close>

lemma inb_left: "inb lo hi k \<Longrightarrow> inb lo (Some k) j \<Longrightarrow> inb lo hi j"
  by (auto simp: inb_def split: option.splits)

lemma inb_right: "inb lo hi k \<Longrightarrow> inb (Some k) hi j \<Longrightarrow> inb lo hi j"
  by (auto simp: inb_def split: option.splits)

lemma inb_self_left [simp]: "\<not> inb lo (Some k) k"
  by (auto simp: inb_def split: option.splits)

lemma inb_self_right [simp]: "\<not> inb (Some k) hi k"
  by (auto simp: inb_def split: option.splits)

lemma inb_Some_left: "inb lo (Some u) k \<Longrightarrow> k < u"
  by (auto simp: inb_def split: option.splits)

lemma inb_Some_right: "inb (Some l) hi k \<Longrightarrow> l < k"
  by (auto simp: inb_def split: option.splits)

lemma bst_okD:
  assumes "bst_ok X key lo hi T" "live T a" "a \<notin> X"
  shows "inb (lo a) (hi a) (key a)"
    and "pa T a = None \<Longrightarrow> lo a = None \<and> hi a = None"
    and "lf T a = Some b \<Longrightarrow> lo b = lo a \<and> hi b = Some (key a)"
    and "rt T a = Some b \<Longrightarrow> lo b = Some (key a) \<and> hi b = hi a"
  using assms unfolding bst_ok_def by blast+

lemma links_okD:
  assumes "links_ok X T" "live T a" "a \<notin> X"
  shows "pa T a = None \<Longrightarrow> root T = Some a"
    and "pa T a = Some p \<Longrightarrow> live T p \<and> p \<notin> X \<and> (lf T p = Some a \<or> rt T p = Some a)"
    and "lf T a = Some b \<Longrightarrow> live T b \<and> b \<notin> X \<and> pa T b = Some a"
    and "rt T a = Some b \<Longrightarrow> live T b \<and> b \<notin> X \<and> pa T b = Some a"
  using assms unfolding links_ok_def by blast+

lemma links_ok_root: "links_ok X T \<Longrightarrow> root T = Some r \<Longrightarrow> live T r \<and> r \<notin> X \<and> pa T r = None"
  unfolding links_ok_def by blast

lemma links_ok_finite: "links_ok X T \<Longrightarrow> finite {a. live T a}"
  unfolding links_ok_def by blast

lemma finite_below: "links_ok X T \<Longrightarrow> finite (below key lo hi X T a)"
  by (rule finite_subset[OF _ links_ok_finite]) (auto simp: below_def)

lemma child_below_less:
  assumes L: "links_ok X T" and B: "bst_ok X key lo hi T" and a: "live T a" "a \<notin> X" and c: "child T a b"
  shows "below key lo hi X T b \<subset> below key lo hi X T a"
proof -
  have ia: "inb (lo a) (hi a) (key a)" using bst_okD(1)[OF B a] .
  from c have "lf T a = Some b \<or> rt T a = Some b" by (simp add: child_def)
  then show ?thesis
  proof
    assume l: "lf T a = Some b"
    then have b: "lo b = lo a" "hi b = Some (key a)" using bst_okD(3)[OF B a] by auto
    have "a \<in> below key lo hi X T a" using a ia by (simp add: below_def)
    moreover have "a \<notin> below key lo hi X T b" by (simp add: below_def b)
    moreover have "below key lo hi X T b \<subseteq> below key lo hi X T a"
      using ia by (auto simp: below_def b intro: inb_left)
    ultimately show ?thesis by blast
  next
    assume r: "rt T a = Some b"
    then have b: "lo b = Some (key a)" "hi b = hi a" using bst_okD(4)[OF B a] by auto
    have "a \<in> below key lo hi X T a" using a ia by (simp add: below_def)
    moreover have "a \<notin> below key lo hi X T b" by (simp add: below_def b)
    moreover have "below key lo hi X T b \<subseteq> below key lo hi X T a"
      using ia by (auto simp: below_def b intro: inb_right)
    ultimately show ?thesis by blast
  qed
qed

lemma child_card_less:
  assumes "links_ok X T" "bst_ok X key lo hi T" "live T a" "a \<notin> X" "child T a b"
  shows "card (below key lo hi X T b) < card (below key lo hi X T a)"
  by (rule psubset_card_mono[OF finite_below[OF assms(1)] child_below_less[OF assms]])

text \<open>Every node of the tree descends from the root.\<close>

lemma desc_root:
  assumes L: "links_ok X T" and B: "bst_ok X key lo hi T"
  shows "live T a \<Longrightarrow> a \<notin> X \<Longrightarrow> \<exists>r. root T = Some r \<and> (child T)\<^sup>*\<^sup>* r a"
proof (induction "card {c. live T c} - card (below key lo hi X T a)" arbitrary: a rule: less_induct)
  case less
  show ?case
  proof (cases "pa T a")
    case None
    then have "root T = Some a" using links_okD(1)[OF L less.prems] by simp
    then show ?thesis by auto
  next
    case (Some p)
    then have p: "live T p" "p \<notin> X" "lf T p = Some a \<or> rt T p = Some a"
      using links_okD(2)[OF L less.prems] by auto
    then have ch: "child T p a" by (simp add: child_def)
    have lt: "card (below key lo hi X T a) < card (below key lo hi X T p)"
      using child_card_less[OF L B p(1,2) ch] .
    have le: "card (below key lo hi X T p) \<le> card {c. live T c}"
      by (rule card_mono[OF links_ok_finite[OF L]]) (auto simp: below_def)
    have "card {c. live T c} - card (below key lo hi X T p) < card {c. live T c} - card (below key lo hi X T a)"
      using lt le by arith
    from less.hyps[OF this p(1,2)] obtain r where "root T = Some r" "(child T)\<^sup>*\<^sup>* r p" by blast
    then show ?thesis using ch by (meson rtranclp.rtrancl_into_rtrancl)
  qed
qed

lemma desc_props:
  assumes L: "links_ok X T" and B: "bst_ok X key lo hi T"
  shows "(child T)\<^sup>*\<^sup>* a c \<Longrightarrow> live T a \<Longrightarrow> a \<notin> X \<Longrightarrow>
     live T c \<and> c \<notin> X \<and> inb (lo a) (hi a) (key c) \<and> (\<forall>k. inb (lo c) (hi c) k \<longrightarrow> inb (lo a) (hi a) k)"
proof (induction rule: rtranclp_induct)
  case base
  then show ?case using bst_okD(1)[OF B] by simp
next
  case (step y z)
  then have y: "live T y" "y \<notin> X" "inb (lo a) (hi a) (key y)" and sub: "\<And>k. inb (lo y) (hi y) k \<Longrightarrow> inb (lo a) (hi a) k"
    by auto
  from step.hyps(2) have "lf T y = Some z \<or> rt T y = Some z" by (simp add: child_def)
  then have z: "live T z \<and> z \<notin> X" using links_okD(3,4)[OF L y(1,2)] by auto
  have iy: "inb (lo y) (hi y) (key y)" using bst_okD(1)[OF B y(1,2)] .
  have iz: "inb (lo z) (hi z) (key z)" using bst_okD(1)[OF B] z by simp
  have zy: "\<And>k. inb (lo z) (hi z) k \<Longrightarrow> inb (lo y) (hi y) k"
    using \<open>lf T y = Some z \<or> rt T y = Some z\<close> bst_okD(3,4)[OF B y(1,2)] iy
    by (auto intro: inb_left inb_right)
  show ?case using z iz zy sub by blast
qed

lemma desc_cases:
  assumes "(child T)\<^sup>*\<^sup>* a c"
  shows "c = a \<or> (\<exists>b. lf T a = Some b \<and> (child T)\<^sup>*\<^sup>* b c) \<or> (\<exists>b. rt T a = Some b \<and> (child T)\<^sup>*\<^sup>* b c)"
  using assms by (cases rule: converse_rtranclpE) (auto simp: child_def)

text \<open>A node whose key lies within the bounds of another is one of its descendants.\<close>

lemma inb_desc:
  assumes L: "links_ok X T" and B: "bst_ok X key lo hi T" and c: "live T c" "c \<notin> X"
  shows "(child T)\<^sup>*\<^sup>* r a \<Longrightarrow> root T = Some r \<Longrightarrow> inb (lo a) (hi a) (key c) \<Longrightarrow> (child T)\<^sup>*\<^sup>* a c"
proof (induction rule: rtranclp_induct)
  case base
  then show ?case using desc_root[OF L B c] by simp
next
  case (step p a)
  have r: "live T r" "r \<notin> X" using links_ok_root[OF L step.prems(1)] by auto
  have p: "live T p" "p \<notin> X" using desc_props[OF L B step.hyps(1) r] by auto
  have ip: "inb (lo p) (hi p) (key p)" using bst_okD(1)[OF B p] .
  from step.hyps(2) have pc: "lf T p = Some a \<or> rt T p = Some a" by (simp add: child_def)
  have a: "live T a" "a \<notin> X" using pc links_okD(3,4)[OF L p] by auto
  have "inb (lo p) (hi p) (key c)"
    using pc bst_okD(3,4)[OF B p] ip step.prems(2) by (auto intro: inb_left inb_right)
  then have pcd: "(child T)\<^sup>*\<^sup>* p c" using step.IH step.prems(1) by simp
  from desc_cases[OF pcd] show ?case
  proof (elim disjE exE conjE)
    assume "c = p"
    then show ?thesis using pc bst_okD(3,4)[OF B p] step.prems(2) by auto
  next
    fix b assume b: "lf T p = Some b" "(child T)\<^sup>*\<^sup>* b c"
    have bl: "live T b" "b \<notin> X" using links_okD(3)[OF L p b(1)] by auto
    have ib: "inb (lo b) (hi b) (key c)" using desc_props[OF L B b(2) bl] by simp
    show ?thesis
    proof (cases "lf T p = Some a")
      case True then show ?thesis using b by simp
    next
      case False
      then have "rt T p = Some a" using pc by simp
      then have "inb (Some (key p)) (hi p) (key c)" using bst_okD(4)[OF B p] step.prems(2) by auto
      moreover have "inb (lo p) (Some (key p)) (key c)" using bst_okD(3)[OF B p b(1)] ib by auto
      ultimately show ?thesis by (auto dest!: inb_Some_left inb_Some_right)
    qed
  next
    fix b assume b: "rt T p = Some b" "(child T)\<^sup>*\<^sup>* b c"
    have bl: "live T b" "b \<notin> X" using links_okD(4)[OF L p b(1)] by auto
    have ib: "inb (lo b) (hi b) (key c)" using desc_props[OF L B b(2) bl] by simp
    show ?thesis
    proof (cases "rt T p = Some a")
      case True then show ?thesis using b by simp
    next
      case False
      then have "lf T p = Some a" using pc by simp
      then have "inb (lo p) (Some (key p)) (key c)" using bst_okD(3)[OF B p] step.prems(2) by auto
      moreover have "inb (Some (key p)) (hi p) (key c)" using bst_okD(4)[OF B p b(1)] ib by auto
      ultimately show ?thesis by (auto dest!: inb_Some_left inb_Some_right)
    qed
  qed
qed

lemma inb_imp_desc:
  assumes L: "links_ok X T" and B: "bst_ok X key lo hi T"
    and a: "live T a" "a \<notin> X" and c: "live T c" "c \<notin> X" and i: "inb (lo a) (hi a) (key c)"
  shows "(child T)\<^sup>*\<^sup>* a c"
proof -
  obtain r where r: "root T = Some r" "(child T)\<^sup>*\<^sup>* r a" using desc_root[OF L B a] by blast
  show ?thesis using inb_desc[OF L B c r(2) r(1) i] .
qed

text \<open>Keys are distinct.\<close>

lemma key_inj:
  assumes L: "links_ok X T" and B: "bst_ok X key lo hi T"
    and a: "live T a" "a \<notin> X" and c: "live T c" "c \<notin> X" and k: "key a = key c"
  shows "a = c"
proof (rule ccontr)
  assume ne: "a \<noteq> c"
  have ia: "inb (lo a) (hi a) (key a)" using bst_okD(1)[OF B a] .
  have ic: "inb (lo c) (hi c) (key c)" using bst_okD(1)[OF B c] .
  have ac: "(child T)\<^sup>*\<^sup>* a c" using inb_imp_desc[OF L B a c] ia k by simp
  from desc_cases[OF ac] ne obtain b where b: "lf T a = Some b \<or> rt T a = Some b" "(child T)\<^sup>*\<^sup>* b c"
    by auto
  have bl: "live T b" "b \<notin> X" using b(1) links_okD(3,4)[OF L a] by auto
  have "inb (lo b) (hi b) (key c)" using desc_props[OF L B b(2) bl] by simp
  then show False using b(1) bst_okD(3,4)[OF B a] k by auto
qed

lemma store_upd: "store a f T = (if live T a then Some (upd a f T) else None)"
  by (auto simp: store_def upd_def live_def split: option.splits)

lemma live_upd [simp]: "live (upd a f T) = live T"
  by (auto simp: upd_def live_def fun_eq_iff)

lemma root_upd [simp]: "root (upd a f T) = root T"
  and pool_upd [simp]: "pool (upd a f T) = pool T"
  and compare_upd [simp]: "compare (upd a f T) = compare T"
  and node_count_upd [simp]: "node_count (upd a f T) = node_count T"
  and insertion_count_upd [simp]: "insertion_count (upd a f T) = insertion_count T"
  and deletion_count_upd [simp]: "deletion_count (upd a f T) = deletion_count T"
  and object_size_upd [simp]: "object_size (upd a f T) = object_size T"
  and active_upd [simp]: "active (upd a f T) = active T"
  by (simp_all add: upd_def)

lemma live_root_update [simp]: "live (T\<lparr>root := r\<rparr>) = live T"
  and pa_root_update [simp]: "pa (T\<lparr>root := r\<rparr>) = pa T"
  and lf_root_update [simp]: "lf (T\<lparr>root := r\<rparr>) = lf T"
  and rt_root_update [simp]: "rt (T\<lparr>root := r\<rparr>) = rt T"
  and col_root_update [simp]: "col (T\<lparr>root := r\<rparr>) = col T"
  and obj_root_update [simp]: "obj (T\<lparr>root := r\<rparr>) = obj T"
  by (simp_all add: live_def pa_def lf_def rt_def col_def obj_def fun_eq_iff)

lemma pa_upd:
  "pa (upd a (\<lambda>n. n\<lparr>parent := v\<rparr>) T) = (if live T a then (pa T)(a := v) else pa T)"
  "pa (upd a (\<lambda>n. n\<lparr>left := w\<rparr>) T) = pa T"
  "pa (upd a (\<lambda>n. n\<lparr>right := w\<rparr>) T) = pa T"
  "pa (upd a (\<lambda>n. n\<lparr>colour := c\<rparr>) T) = pa T"
  "pa (upd a (\<lambda>n. n\<lparr>object := ob\<rparr>) T) = pa T"
  by (auto simp: upd_def pa_def live_def fun_eq_iff split: option.splits)

lemma lf_upd:
  "lf (upd a (\<lambda>n. n\<lparr>left := v\<rparr>) T) = (if live T a then (lf T)(a := v) else lf T)"
  "lf (upd a (\<lambda>n. n\<lparr>parent := w\<rparr>) T) = lf T"
  "lf (upd a (\<lambda>n. n\<lparr>right := w\<rparr>) T) = lf T"
  "lf (upd a (\<lambda>n. n\<lparr>colour := c\<rparr>) T) = lf T"
  "lf (upd a (\<lambda>n. n\<lparr>object := ob\<rparr>) T) = lf T"
  by (auto simp: upd_def lf_def live_def fun_eq_iff split: option.splits)

lemma rt_upd:
  "rt (upd a (\<lambda>n. n\<lparr>right := v\<rparr>) T) = (if live T a then (rt T)(a := v) else rt T)"
  "rt (upd a (\<lambda>n. n\<lparr>parent := w\<rparr>) T) = rt T"
  "rt (upd a (\<lambda>n. n\<lparr>left := w\<rparr>) T) = rt T"
  "rt (upd a (\<lambda>n. n\<lparr>colour := c\<rparr>) T) = rt T"
  "rt (upd a (\<lambda>n. n\<lparr>object := ob\<rparr>) T) = rt T"
  by (auto simp: upd_def rt_def live_def fun_eq_iff split: option.splits)

lemma col_upd:
  "col (upd a (\<lambda>n. n\<lparr>colour := c\<rparr>) T) = (if live T a then (col T)(a := c) else col T)"
  "col (upd a (\<lambda>n. n\<lparr>parent := w\<rparr>) T) = col T"
  "col (upd a (\<lambda>n. n\<lparr>left := w\<rparr>) T) = col T"
  "col (upd a (\<lambda>n. n\<lparr>right := w\<rparr>) T) = col T"
  "col (upd a (\<lambda>n. n\<lparr>object := ob\<rparr>) T) = col T"
  by (auto simp: upd_def col_def live_def fun_eq_iff split: option.splits)

lemma obj_upd:
  "obj (upd a (\<lambda>n. n\<lparr>object := ob\<rparr>) T) = (if live T a then (obj T)(a := Some ob) else obj T)"
  "obj (upd a (\<lambda>n. n\<lparr>parent := w\<rparr>) T) = obj T"
  "obj (upd a (\<lambda>n. n\<lparr>left := w\<rparr>) T) = obj T"
  "obj (upd a (\<lambda>n. n\<lparr>right := w\<rparr>) T) = obj T"
  "obj (upd a (\<lambda>n. n\<lparr>colour := c\<rparr>) T) = obj T"
  by (auto simp: upd_def obj_def live_def fun_eq_iff option.map_comp comp_def split: option.splits)

lemmas view_upd = pa_upd lf_upd rt_upd col_upd obj_upd

lemma getters:
  "get_parent T a = (if live T a then Some (pa T a) else None)"
  "get_left T a = (if live T a then Some (lf T a) else None)"
  "get_right T a = (if live T a then Some (rt T a) else None)"
  "get_colour T a = (if live T a then Some (col T a) else None)"
  "get_object T a = obj T a"
  by (auto simp: get_parent_def get_left_def get_right_def get_colour_def get_object_def
      live_def pa_def lf_def rt_def col_def obj_def split: option.splits)

lemma setters:
  "set_parent a v T = (if live T a then Some (upd a (\<lambda>n. n\<lparr>parent := v\<rparr>) T) else None)"
  "set_left a v T = (if live T a then Some (upd a (\<lambda>n. n\<lparr>left := v\<rparr>) T) else None)"
  "set_right a v T = (if live T a then Some (upd a (\<lambda>n. n\<lparr>right := v\<rparr>) T) else None)"
  "set_colour a c T = (if live T a then Some (upd a (\<lambda>n. n\<lparr>colour := c\<rparr>) T) else None)"
  "set_object a ob T = (if live T a then Some (upd a (\<lambda>n. n\<lparr>object := ob\<rparr>) T) else None)"
  by (simp_all add: set_parent_def set_left_def set_right_def set_colour_def set_object_def store_upd)

lemma RotateLeft_spec:
  assumes x: "live T x" and y: "rt T x = Some y" "live T y"
    and b: "\<And>b. lf T y = Some b \<Longrightarrow> live T b"
    and p: "\<And>p. pa T x = Some p \<Longrightarrow> live T p"
  shows "\<exists>T'. RtlpRbTreeRotateLeft T x = Some T' \<and> rest_eq T T' \<and> col T' = col T"
  using assms
  apply (simp add: RtlpRbTreeRotateLeft_def getters setters view_upd rest_eq_def split: option.splits)
  done

lemma updo_simps [simp]: "updo None v f = f" "updo (Some a) v f = f(a := v)"
  by (simp_all add: updo_def)

lemma child_less:
  assumes "links_ok X T" "bst_ok X key lo hi T"
  shows "(child T)\<^sup>+\<^sup>+ a b \<Longrightarrow> live T a \<Longrightarrow> a \<notin> X \<Longrightarrow>
    live T b \<and> b \<notin> X \<and> card (below key lo hi X T b) < card (below key lo hi X T a)"
proof (induction rule: tranclp_induct)
  case (base y)
  then show ?case using child_card_less[OF assms base.prems base.hyps] links_okD(3,4)[OF assms(1) base.prems]
    by (auto simp: child_def)
next
  case (step y z)
  then have y: "live T y" "y \<notin> X" by auto
  show ?case using child_card_less[OF assms y step.hyps(2)] links_okD(3,4)[OF assms(1) y] step
    by (auto simp: child_def)
qed

lemma acyclic1:
  assumes "links_ok X T" "bst_ok X key lo hi T" "live T a" "a \<notin> X" "child T a b"
  shows "a \<noteq> b"
  using child_less[OF assms(1,2) tranclp.r_into_trancl[of "child T", OF assms(5)] assms(3,4)]
  by auto

lemma acyclic2:
  assumes "links_ok X T" "bst_ok X key lo hi T" "live T a" "a \<notin> X" "child T a b" "child T b c"
  shows "a \<noteq> c"
proof -
  have "(child T)\<^sup>+\<^sup>+ a b" using assms(5) by (rule tranclp.r_into_trancl)
  then have "(child T)\<^sup>+\<^sup>+ a c" using assms(6) by (rule tranclp.trancl_into_trancl)
  from child_less[OF assms(1,2) this assms(3,4)] show ?thesis by auto
qed

lemma acyclic3:
  assumes "links_ok X T" "bst_ok X key lo hi T" "live T a" "a \<notin> X" "child T a b" "child T b c" "child T c d"
  shows "a \<noteq> d"
proof -
  have "(child T)\<^sup>+\<^sup>+ a b" using assms(5) by (rule tranclp.r_into_trancl)
  then have "(child T)\<^sup>+\<^sup>+ a c" using assms(6) by (rule tranclp.trancl_into_trancl)
  then have "(child T)\<^sup>+\<^sup>+ a d" using assms(7) by (rule tranclp.trancl_into_trancl)
  from child_less[OF assms(1,2) this assms(3,4)] show ?thesis by auto
qed

lemma lf_neq_rt:
  assumes "links_ok X T" "bst_ok X key lo hi T" "live T a" "a \<notin> X" "lf T a = Some b"
  shows "rt T a \<noteq> Some b"
proof
  assume r: "rt T a = Some b"
  have "lo b = lo a" using bst_okD(3)[OF assms(2,3,4) assms(5)] by simp
  moreover have "lo b = Some (key a)" using bst_okD(4)[OF assms(2,3,4) r] by simp
  ultimately have "inb (Some (key a)) (hi a) (key a)" using bst_okD(1)[OF assms(2,3,4)] by simp
  then show False by simp
qed

lemma childI1: "live T a \<Longrightarrow> lf T a = Some b \<Longrightarrow> child T a b"
  and childI2: "live T a \<Longrightarrow> rt T a = Some b \<Longrightarrow> child T a b"
  by (simp_all add: child_def)

lemma rt_neq_lf:
  assumes "links_ok X T" "bst_ok X key lo hi T" "live T a" "a \<notin> X" "rt T a = Some b"
  shows "lf T a \<noteq> Some b"
  using lf_neq_rt[OF assms(1-4)] assms(5) by auto

subsection \<open>Rotations\<close>

lemma RotateLeft_raw:
  assumes x: "live T x" and y: "rt T x = Some y" "live T y" "x \<noteq> y"
    and b: "\<forall>b. lf T y = Some b \<longrightarrow> live T b \<and> b \<noteq> x \<and> b \<noteq> y"
    and p: "\<forall>p. pa T x = Some p \<longrightarrow> live T p \<and> p \<noteq> x \<and> p \<noteq> y \<and> lf T y \<noteq> Some p"
  shows "\<exists>T'. RtlpRbTreeRotateLeft T x = Some T' \<and> rest_eq T T' \<and> col T' = col T \<and>
     root T' = (if pa T x = None then Some y else root T) \<and>
     (\<forall>a. pa T' a = (if a = x then Some y else if a = y then pa T x
                     else if lf T y = Some a then Some x else pa T a)) \<and>
     (\<forall>a. lf T' a = (if a = y then Some x
                     else if pa T x = Some a \<and> lf T a = Some x then Some y else lf T a)) \<and>
     (\<forall>a. rt T' a = (if a = x then lf T y
                     else if pa T x = Some a \<and> lf T a \<noteq> Some x then Some y else rt T a))"
  using assms
  apply (cases "lf T y"; cases "pa T x")
     apply (simp_all add: RtlpRbTreeRotateLeft_def getters setters view_upd rest_eq_def)
  done

lemma RotateLeft_links:
  assumes L: "links_ok X T" and B: "bst_ok X key lo hi T"
    and x: "live T x" "x \<notin> X" and y: "rt T x = Some y"
  shows "\<exists>T'. RtlpRbTreeRotateLeft T x = Some T' \<and> rest_eq T T' \<and> col T' = col T \<and>
     root T' = (if pa T x = None then Some y else root T) \<and>
     (\<forall>a. pa T' a = (if a = x then Some y else if a = y then pa T x
                     else if lf T y = Some a then Some x else pa T a)) \<and>
     (\<forall>a. lf T' a = (if a = y then Some x
                     else if pa T x = Some a \<and> lf T a = Some x then Some y else lf T a)) \<and>
     (\<forall>a. rt T' a = (if a = x then lf T y
                     else if pa T x = Some a \<and> lf T a \<noteq> Some x then Some y else rt T a)) \<and>
     links_ok X T'"
proof -
  have yl: "live T y" "y \<notin> X" "pa T y = Some x" using links_okD(4)[OF L x y] by auto
  have xy: "x \<noteq> y" using acyclic1[OF L B x childI2[OF x(1) y]] .
  have b: "\<forall>b. lf T y = Some b \<longrightarrow> live T b \<and> b \<noteq> x \<and> b \<noteq> y"
  proof (intro allI impI)
    fix b assume b: "lf T y = Some b"
    have "live T b" using links_okD(3)[OF L yl(1,2) b] by simp
    moreover have "b \<noteq> y" using acyclic1[OF L B yl(1,2) childI1[OF yl(1) b]] by simp
    moreover have "b \<noteq> x" using acyclic2[OF L B x childI2[OF x(1) y] childI1[OF yl(1) b]] by simp
    ultimately show "live T b \<and> b \<noteq> x \<and> b \<noteq> y" by simp
  qed
  have p: "\<forall>p. pa T x = Some p \<longrightarrow> live T p \<and> p \<noteq> x \<and> p \<noteq> y \<and> lf T y \<noteq> Some p"
  proof (intro allI impI)
    fix p assume p: "pa T x = Some p"
    have pl: "live T p" "p \<notin> X" "lf T p = Some x \<or> rt T p = Some x" using links_okD(2)[OF L x p] by auto
    then have c: "child T p x" by (simp add: child_def)
    have "p \<noteq> x" using acyclic1[OF L B pl(1,2) c] .
    moreover have "p \<noteq> y" using acyclic2[OF L B pl(1,2) c childI2[OF x(1) y]] .
    moreover have "lf T y \<noteq> Some p"
    proof
      assume "lf T y = Some p"
      from acyclic3[OF L B pl(1,2) c childI2[OF x(1) y] childI1[OF yl(1) this]] show False by simp
    qed
    ultimately show "live T p \<and> p \<noteq> x \<and> p \<noteq> y \<and> lf T y \<noteq> Some p" using pl by simp
  qed
  from RotateLeft_raw[OF x(1) y yl(1) xy b p] obtain T' where T':
    "RtlpRbTreeRotateLeft T x = Some T'" "rest_eq T T'" "col T' = col T"
    "root T' = (if pa T x = None then Some y else root T)"
    "\<And>a. pa T' a = (if a = x then Some y else if a = y then pa T x
                     else if lf T y = Some a then Some x else pa T a)"
    "\<And>a. lf T' a = (if a = y then Some x
                     else if pa T x = Some a \<and> lf T a = Some x then Some y else lf T a)"
    "\<And>a. rt T' a = (if a = x then lf T y
                     else if pa T x = Some a \<and> lf T a \<noteq> Some x then Some y else rt T a)"
    by blast
  have lv: "live T' = live T" using T'(2) by (simp add: rest_eq_def)
  note LD = links_okD[OF L] links_ok_root[OF L]
  have pax: "\<And>q. pa T x = Some q \<Longrightarrow> live T q \<and> q \<notin> X \<and> (lf T q = Some x \<or> rt T q = Some x)"
    using LD(2)[OF x] by blast
  have lfy: "\<And>c. lf T y = Some c \<Longrightarrow> live T c \<and> c \<notin> X \<and> pa T c = Some y \<and> c \<noteq> x \<and> c \<noteq> y"
    using LD(3)[OF yl(1,2)] b by blast
  have "links_ok X T'"
    unfolding links_ok_def lv
  proof (intro conjI allI impI)
    show "finite {a. live T a}" using links_ok_finite[OF L] .
  next
    fix r assume r: "root T' = Some r"
    show "live T r" using r T'(4) yl(1) LD(5) by (auto split: if_splits)
    show "r \<notin> X" using r T'(4) yl(2) LD(5) by (auto split: if_splits)
    show "pa T' r = None" using r T'(4) yl LD(5)[of r] T'(5)[of r] lfy[of r] xy
      by (auto split: if_splits)
  next
    fix a assume a: "live T a \<and> a \<notin> X" "pa T' a = None"
    then show "root T' = Some a"
      using T'(4) T'(5)[of a] LD(1)[of a] LD(1)[OF x]  by (auto split: if_splits)
  next
    fix a q assume a: "live T a \<and> a \<notin> X" "pa T' a = Some q"
    show "live T q" using a T'(5)[of a] LD(2)[of a q] pax[of q] x yl by (auto split: if_splits)
    show "q \<notin> X" using a T'(5)[of a] LD(2)[of a q] pax[of q] x yl by (auto split: if_splits)
    show "lf T' q = Some a \<or> rt T' q = Some a"
      using a T'(5)[of a] T'(6)[of q] T'(7)[of q] LD(2)[of a q] pax[of q] y xy yl p lfy[of a] by (auto split: if_splits)
  next
    fix a c assume a: "live T a \<and> a \<notin> X" "lf T' a = Some c"
    show "live T c" using a T'(6)[of a] LD(3)[of a c] x yl by (auto split: if_splits)
    show "c \<notin> X" using a T'(6)[of a] LD(3)[of a c] x yl by (auto split: if_splits)
    show "pa T' c = Some a" using a T'(6)[of a] T'(5)[of c] LD(3)[of a c] xy yl(3) lfy[of c] p y lf_neq_rt[OF L B x, of y]
      by (auto split: if_splits)
  next
    fix a c assume a: "live T a \<and> a \<notin> X" "rt T' a = Some c"
    show "live T c" using a T'(7)[of a] LD(4)[of a c] lfy[of c] yl by (auto split: if_splits)
    show "c \<notin> X" using a T'(7)[of a] LD(4)[of a c] lfy[of c] yl by (auto split: if_splits)
    show "pa T' c = Some a" using a T'(7)[of a] T'(5)[of c] LD(4)[of a c] xy yl(3) lfy y
        lf_neq_rt[OF L B, of a c]
      by (auto split: if_splits)
  qed
  then show ?thesis using T' by blast
qed

lemma rotl_bst:
  assumes L: "links_ok X T" and B: "bst_ok X key lo hi T"
    and x: "live T x" "x \<notin> X" and y: "rt T x = Some y"
    and R: "rotl_rel T x y T'"
  shows "bst_ok X key (lo(y := lo x)) (hi(y := hi x, x := Some (key y))) T'"
proof -
  have T': "\<And>a. pa T' a = (if a = x then Some y else if a = y then pa T x
                     else if lf T y = Some a then Some x else pa T a)"
    "\<And>a. lf T' a = (if a = y then Some x
                     else if pa T x = Some a \<and> lf T a = Some x then Some y else lf T a)"
    "\<And>a. rt T' a = (if a = x then lf T y
                     else if pa T x = Some a \<and> lf T a \<noteq> Some x then Some y else rt T a)"
    using R by (simp_all add: rotl_rel_def)
  have lv: "live T' = live T" using R by (simp add: rotl_rel_def rest_eq_def)
  note LD = links_okD[OF L] links_ok_root[OF L]
  note BD = bst_okD[OF B]
  have yl: "live T y" "y \<notin> X" "pa T y = Some x" using LD(4)[OF x y] by auto
  have xy: "x \<noteq> y" using acyclic1[OF L B x childI2[OF x(1) y]] .
  have bdy: "lo y = Some (key x)" "hi y = hi x" using BD(4)[OF x y] by auto
  have ix: "inb (lo x) (hi x) (key x)" using BD(1)[OF x] .
  have iy: "inb (Some (key x)) (hi x) (key y)" using BD(1)[OF yl(1,2)] bdy by simp
  have kxy: "key x < key y" using iy by (rule inb_Some_right)
  have pax: "\<And>q. pa T x = Some q \<Longrightarrow> live T q \<and> q \<notin> X \<and> (lf T q = Some x \<or> rt T q = Some x) \<and> q \<noteq> x \<and> q \<noteq> y"
  proof -
    fix q assume q: "pa T x = Some q"
    have pl: "live T q" "q \<notin> X" "lf T q = Some x \<or> rt T q = Some x" using LD(2)[OF x q] by auto
    then have c: "child T q x" by (simp add: child_def)
    have "q \<noteq> x" using acyclic1[OF L B pl(1,2) c] .
    moreover have "q \<noteq> y" using acyclic2[OF L B pl(1,2) c childI2[OF x(1) y]] .
    ultimately show "live T q \<and> q \<notin> X \<and> (lf T q = Some x \<or> rt T q = Some x) \<and> q \<noteq> x \<and> q \<noteq> y"
      using pl by simp
  qed
  have lfy: "\<And>c. lf T y = Some c \<Longrightarrow> live T c \<and> c \<notin> X \<and> pa T c = Some y \<and> c \<noteq> x \<and> c \<noteq> y
      \<and> lo c = Some (key x) \<and> hi c = Some (key y)"
  proof -
    fix c assume c: "lf T y = Some c"
    have "c \<noteq> y" using acyclic1[OF L B yl(1,2) childI1[OF yl(1) c]] by simp
    moreover have "c \<noteq> x" using acyclic2[OF L B x childI2[OF x(1) y] childI1[OF yl(1) c]] by simp
    ultimately show "live T c \<and> c \<notin> X \<and> pa T c = Some y \<and> c \<noteq> x \<and> c \<noteq> y
      \<and> lo c = Some (key x) \<and> hi c = Some (key y)"
      using LD(3)[OF yl(1,2) c] BD(3)[OF yl(1,2) c] bdy by simp
  qed
  let ?lo = "lo(y := lo x)" and ?hi = "hi(y := hi x, x := Some (key y))"
  have 1: "\<forall>a. live T a \<and> a \<notin> X \<longrightarrow> inb (?lo a) (?hi a) (key a)"
    using BD(1) ix iy kxy xy by (auto simp: inb_def split: option.splits)
  have 2: "\<forall>a. live T a \<and> a \<notin> X \<longrightarrow> pa T' a = None \<longrightarrow> ?lo a = None \<and> ?hi a = None"
  proof (intro allI impI)
    fix a assume a: "live T a \<and> a \<notin> X" "pa T' a = None"
    show "?lo a = None \<and> ?hi a = None"
      using a T'(1)[of a] BD(2)[of a] BD(2)[OF x] xy by (auto split: if_splits)
  qed
  have 3: "\<forall>a c. live T a \<and> a \<notin> X \<longrightarrow> lf T' a = Some c \<longrightarrow> ?lo c = ?lo a \<and> ?hi c = Some (key a)"
  proof (intro allI impI)
    fix a c assume a: "live T a \<and> a \<notin> X" and ac: "lf T' a = Some c"
    have "(a = y \<and> c = x) \<or> (pa T x = Some a \<and> lf T a = Some x \<and> c = y \<and> a \<noteq> y) \<or>
        (lf T a = Some c \<and> a \<noteq> y \<and> \<not> (pa T x = Some a \<and> lf T a = Some x))"
      using ac[unfolded T'(2)] by (simp split: if_splits)
    then consider
        (top) "a = y" "c = x"
      | (par) "pa T x = Some a" "lf T a = Some x" "c = y" "a \<noteq> y"
      | (other) "lf T a = Some c" "a \<noteq> y" "\<not> (pa T x = Some a \<and> lf T a = Some x)"
      by blast
    then show "?lo c = ?lo a \<and> ?hi c = Some (key a)"
    proof cases
      case top
      then show ?thesis using xy by simp
    next
      case par
      then show ?thesis using xy pax[of a] BD(3)[of a x] a bdy by simp
    next
      case other
      have c: "live T c \<and> c \<notin> X \<and> pa T c = Some a" using LD(3)[of a c] a other(1) by simp
      have cy: "c \<noteq> y"
      proof
        assume "c = y"
        then have "a = x" using c yl(3) by simp
        then show False using lf_neq_rt[OF L B x, of y] other(1) y \<open>c = y\<close> by simp
      qed
      have cx: "c \<noteq> x" using other(3) c other(1) by auto
      show ?thesis using BD(3)[of a c] a other(1,2) cy cx by simp
    qed
  qed
  have 4: "\<forall>a c. live T a \<and> a \<notin> X \<longrightarrow> rt T' a = Some c \<longrightarrow> ?lo c = Some (key a) \<and> ?hi c = ?hi a"
  proof (intro allI impI)
    fix a c assume a: "live T a \<and> a \<notin> X" and ac: "rt T' a = Some c"
    have "(a = x \<and> lf T y = Some c) \<or> (pa T x = Some a \<and> lf T a \<noteq> Some x \<and> c = y \<and> a \<noteq> x) \<or>
        (rt T a = Some c \<and> a \<noteq> x \<and> \<not> (pa T x = Some a \<and> lf T a \<noteq> Some x))"
      using ac[unfolded T'(3)] by (simp split: if_splits)
    then consider
        (piv) "a = x" "lf T y = Some c"
      | (par) "pa T x = Some a" "lf T a \<noteq> Some x" "c = y" "a \<noteq> x"
      | (other) "rt T a = Some c" "a \<noteq> x" "\<not> (pa T x = Some a \<and> lf T a \<noteq> Some x)"
      by blast
    then show "?lo c = Some (key a) \<and> ?hi c = ?hi a"
    proof cases
      case piv
      then show ?thesis using lfy[of c] xy by simp
    next
      case par
      have "rt T a = Some x" using pax[of a] par by auto
      then show ?thesis using par xy pax[of a] BD(4)[of a x] a bdy by simp
    next
      case other
      have c: "live T c \<and> c \<notin> X \<and> pa T c = Some a" using LD(4)[of a c] a other(1) by simp
      have cy: "c \<noteq> y" using c yl(3) other(2) by auto
      have cx: "c \<noteq> x"
      proof
        assume "c = x"
        then have "pa T x = Some a" "rt T a = Some x" using c other(1) by auto
        then show False using other(3) rt_neq_lf[OF L B _ _ \<open>rt T a = Some x\<close>] a by auto
      qed
      show ?thesis using BD(4)[of a c] a other(1,2) cy cx bdy by auto
    qed
  qed
  show ?thesis
    unfolding bst_ok_def lv using 1 2 3 4 by blast
qed

lemma RotateRight_raw:
  assumes x: "live T x" and y: "lf T x = Some y" "live T y" "x \<noteq> y"
    and b: "\<forall>b. rt T y = Some b \<longrightarrow> live T b \<and> b \<noteq> x \<and> b \<noteq> y"
    and p: "\<forall>p. pa T x = Some p \<longrightarrow> live T p \<and> p \<noteq> x \<and> p \<noteq> y \<and> rt T y \<noteq> Some p"
  shows "\<exists>T'. RtlpRbTreeRotateRight T x = Some T' \<and> rest_eq T T' \<and> col T' = col T \<and>
     root T' = (if pa T x = None then Some y else root T) \<and>
     (\<forall>a. pa T' a = (if a = x then Some y else if a = y then pa T x
                     else if rt T y = Some a then Some x else pa T a)) \<and>
     (\<forall>a. rt T' a = (if a = y then Some x
                     else if pa T x = Some a \<and> rt T a = Some x then Some y else rt T a)) \<and>
     (\<forall>a. lf T' a = (if a = x then rt T y
                     else if pa T x = Some a \<and> rt T a \<noteq> Some x then Some y else lf T a))"
  using assms
  apply (cases "rt T y"; cases "pa T x")
     apply (simp_all add: RtlpRbTreeRotateRight_def getters setters view_upd rest_eq_def)
  done

lemma RotateRight_links:
  assumes L: "links_ok X T" and B: "bst_ok X key lo hi T"
    and x: "live T x" "x \<notin> X" and y: "lf T x = Some y"
  shows "\<exists>T'. RtlpRbTreeRotateRight T x = Some T' \<and> rest_eq T T' \<and> col T' = col T \<and>
     root T' = (if pa T x = None then Some y else root T) \<and>
     (\<forall>a. pa T' a = (if a = x then Some y else if a = y then pa T x
                     else if rt T y = Some a then Some x else pa T a)) \<and>
     (\<forall>a. rt T' a = (if a = y then Some x
                     else if pa T x = Some a \<and> rt T a = Some x then Some y else rt T a)) \<and>
     (\<forall>a. lf T' a = (if a = x then rt T y
                     else if pa T x = Some a \<and> rt T a \<noteq> Some x then Some y else lf T a)) \<and>
     links_ok X T'"
proof -
  have yl: "live T y" "y \<notin> X" "pa T y = Some x" using links_okD(3)[OF L x y] by auto
  have xy: "x \<noteq> y" using acyclic1[OF L B x childI1[OF x(1) y]] .
  have b: "\<forall>b. rt T y = Some b \<longrightarrow> live T b \<and> b \<noteq> x \<and> b \<noteq> y"
  proof (intro allI impI)
    fix b assume b: "rt T y = Some b"
    have "live T b" using links_okD(4)[OF L yl(1,2) b] by simp
    moreover have "b \<noteq> y" using acyclic1[OF L B yl(1,2) childI2[OF yl(1) b]] by simp
    moreover have "b \<noteq> x" using acyclic2[OF L B x childI1[OF x(1) y] childI2[OF yl(1) b]] by simp
    ultimately show "live T b \<and> b \<noteq> x \<and> b \<noteq> y" by simp
  qed
  have p: "\<forall>p. pa T x = Some p \<longrightarrow> live T p \<and> p \<noteq> x \<and> p \<noteq> y \<and> rt T y \<noteq> Some p"
  proof (intro allI impI)
    fix p assume p: "pa T x = Some p"
    have pl: "live T p" "p \<notin> X" "lf T p = Some x \<or> rt T p = Some x" using links_okD(2)[OF L x p] by auto
    then have c: "child T p x" by (simp add: child_def)
    have "p \<noteq> x" using acyclic1[OF L B pl(1,2) c] .
    moreover have "p \<noteq> y" using acyclic2[OF L B pl(1,2) c childI1[OF x(1) y]] .
    moreover have "rt T y \<noteq> Some p"
    proof
      assume "rt T y = Some p"
      from acyclic3[OF L B pl(1,2) c childI1[OF x(1) y] childI2[OF yl(1) this]] show False by simp
    qed
    ultimately show "live T p \<and> p \<noteq> x \<and> p \<noteq> y \<and> rt T y \<noteq> Some p" using pl by simp
  qed
  from RotateRight_raw[OF x(1) y yl(1) xy b p] obtain T' where T':
    "RtlpRbTreeRotateRight T x = Some T'" "rest_eq T T'" "col T' = col T"
    "root T' = (if pa T x = None then Some y else root T)"
    "\<And>a. pa T' a = (if a = x then Some y else if a = y then pa T x
                     else if rt T y = Some a then Some x else pa T a)"
    "\<And>a. rt T' a = (if a = y then Some x
                     else if pa T x = Some a \<and> rt T a = Some x then Some y else rt T a)"
    "\<And>a. lf T' a = (if a = x then rt T y
                     else if pa T x = Some a \<and> rt T a \<noteq> Some x then Some y else lf T a)"
    by blast
  have lv: "live T' = live T" using T'(2) by (simp add: rest_eq_def)
  note LD = links_okD[OF L] links_ok_root[OF L]
  have pax: "\<And>q. pa T x = Some q \<Longrightarrow> live T q \<and> q \<notin> X \<and> (lf T q = Some x \<or> rt T q = Some x)"
    using LD(2)[OF x] by blast
  have lfy: "\<And>c. rt T y = Some c \<Longrightarrow> live T c \<and> c \<notin> X \<and> pa T c = Some y \<and> c \<noteq> x \<and> c \<noteq> y"
    using LD(4)[OF yl(1,2)] b by blast
  have "links_ok X T'"
    unfolding links_ok_def lv
  proof (intro conjI allI impI)
    show "finite {a. live T a}" using links_ok_finite[OF L] .
  next
    fix r assume r: "root T' = Some r"
    show "live T r" using r T'(4) yl(1) LD(5) by (auto split: if_splits)
    show "r \<notin> X" using r T'(4) yl(2) LD(5) by (auto split: if_splits)
    show "pa T' r = None" using r T'(4) yl LD(5)[of r] T'(5)[of r] lfy[of r] xy
      by (auto split: if_splits)
  next
    fix a assume a: "live T a \<and> a \<notin> X" "pa T' a = None"
    then show "root T' = Some a"
      using T'(4) T'(5)[of a] LD(1)[of a] LD(1)[OF x]  by (auto split: if_splits)
  next
    fix a q assume a: "live T a \<and> a \<notin> X" "pa T' a = Some q"
    show "live T q" using a T'(5)[of a] LD(2)[of a q] pax[of q] x yl by (auto split: if_splits)
    show "q \<notin> X" using a T'(5)[of a] LD(2)[of a q] pax[of q] x yl by (auto split: if_splits)
    show "lf T' q = Some a \<or> rt T' q = Some a"
      using a T'(5)[of a] T'(6)[of q] T'(7)[of q] LD(2)[of a q] pax[of q] y xy yl p lfy[of a] by (auto split: if_splits)
  next
    fix a c assume a: "live T a \<and> a \<notin> X" "rt T' a = Some c"
    show "live T c" using a T'(6)[of a] LD(4)[of a c] x yl by (auto split: if_splits)
    show "c \<notin> X" using a T'(6)[of a] LD(4)[of a c] x yl by (auto split: if_splits)
    show "pa T' c = Some a" using a T'(6)[of a] T'(5)[of c] LD(4)[of a c] xy yl(3) lfy[of c] p y rt_neq_lf[OF L B x, of y]
      by (auto split: if_splits)
  next
    fix a c assume a: "live T a \<and> a \<notin> X" "lf T' a = Some c"
    show "live T c" using a T'(7)[of a] LD(3)[of a c] lfy[of c] yl by (auto split: if_splits)
    show "c \<notin> X" using a T'(7)[of a] LD(3)[of a c] lfy[of c] yl by (auto split: if_splits)
    show "pa T' c = Some a" using a T'(7)[of a] T'(5)[of c] LD(3)[of a c] xy yl(3) lfy y
        rt_neq_lf[OF L B, of a c]
      by (auto split: if_splits)
  qed
  then show ?thesis using T' by blast
qed

lemma rotr_bst:
  assumes L: "links_ok X T" and B: "bst_ok X key lo hi T"
    and x: "live T x" "x \<notin> X" and y: "lf T x = Some y"
    and R: "rotr_rel T x y T'"
  shows "bst_ok X key (lo(y := lo x, x := Some (key y))) (hi(y := hi x)) T'"
proof -
  have T': "\<And>a. pa T' a = (if a = x then Some y else if a = y then pa T x
                     else if rt T y = Some a then Some x else pa T a)"
    "\<And>a. rt T' a = (if a = y then Some x
                     else if pa T x = Some a \<and> rt T a = Some x then Some y else rt T a)"
    "\<And>a. lf T' a = (if a = x then rt T y
                     else if pa T x = Some a \<and> rt T a \<noteq> Some x then Some y else lf T a)"
    using R by (simp_all add: rotr_rel_def)
  have lv: "live T' = live T" using R by (simp add: rotr_rel_def rest_eq_def)
  note LD = links_okD[OF L] links_ok_root[OF L]
  note BD = bst_okD[OF B]
  have yl: "live T y" "y \<notin> X" "pa T y = Some x" using LD(3)[OF x y] by auto
  have xy: "x \<noteq> y" using acyclic1[OF L B x childI1[OF x(1) y]] .
  have bdy: "hi y = Some (key x)" "lo y = lo x" using BD(3)[OF x y] by auto
  have ix: "inb (lo x) (hi x) (key x)" using BD(1)[OF x] .
  have iy: "inb (lo x) (Some (key x)) (key y)" using BD(1)[OF yl(1,2)] bdy by simp
  have kxy: "key y < key x" using iy by (rule inb_Some_left)
  have pax: "\<And>q. pa T x = Some q \<Longrightarrow> live T q \<and> q \<notin> X \<and> (lf T q = Some x \<or> rt T q = Some x) \<and> q \<noteq> x \<and> q \<noteq> y"
  proof -
    fix q assume q: "pa T x = Some q"
    have pl: "live T q" "q \<notin> X" "lf T q = Some x \<or> rt T q = Some x" using LD(2)[OF x q] by auto
    then have c: "child T q x" by (simp add: child_def)
    have "q \<noteq> x" using acyclic1[OF L B pl(1,2) c] .
    moreover have "q \<noteq> y" using acyclic2[OF L B pl(1,2) c childI1[OF x(1) y]] .
    ultimately show "live T q \<and> q \<notin> X \<and> (lf T q = Some x \<or> rt T q = Some x) \<and> q \<noteq> x \<and> q \<noteq> y"
      using pl by simp
  qed
  have lfy: "\<And>c. rt T y = Some c \<Longrightarrow> live T c \<and> c \<notin> X \<and> pa T c = Some y \<and> c \<noteq> x \<and> c \<noteq> y
      \<and> hi c = Some (key x) \<and> lo c = Some (key y)"
  proof -
    fix c assume c: "rt T y = Some c"
    have "c \<noteq> y" using acyclic1[OF L B yl(1,2) childI2[OF yl(1) c]] by simp
    moreover have "c \<noteq> x" using acyclic2[OF L B x childI1[OF x(1) y] childI2[OF yl(1) c]] by simp
    ultimately show "live T c \<and> c \<notin> X \<and> pa T c = Some y \<and> c \<noteq> x \<and> c \<noteq> y
      \<and> hi c = Some (key x) \<and> lo c = Some (key y)"
      using LD(4)[OF yl(1,2) c] BD(4)[OF yl(1,2) c] bdy by simp
  qed
  let ?hi = "hi(y := hi x)" and ?lo = "lo(y := lo x, x := Some (key y))"
  have 1: "\<forall>a. live T a \<and> a \<notin> X \<longrightarrow> inb (?lo a) (?hi a) (key a)"
    using BD(1) ix iy kxy xy by (auto simp: inb_def split: option.splits)
  have 2: "\<forall>a. live T a \<and> a \<notin> X \<longrightarrow> pa T' a = None \<longrightarrow> ?hi a = None \<and> ?lo a = None"
  proof (intro allI impI)
    fix a assume a: "live T a \<and> a \<notin> X" "pa T' a = None"
    show "?hi a = None \<and> ?lo a = None"
      using a T'(1)[of a] BD(2)[of a] BD(2)[OF x] xy by (auto split: if_splits)
  qed
  have 3: "\<forall>a c. live T a \<and> a \<notin> X \<longrightarrow> rt T' a = Some c \<longrightarrow> ?hi c = ?hi a \<and> ?lo c = Some (key a)"
  proof (intro allI impI)
    fix a c assume a: "live T a \<and> a \<notin> X" and ac: "rt T' a = Some c"
    have "(a = y \<and> c = x) \<or> (pa T x = Some a \<and> rt T a = Some x \<and> c = y \<and> a \<noteq> y) \<or>
        (rt T a = Some c \<and> a \<noteq> y \<and> \<not> (pa T x = Some a \<and> rt T a = Some x))"
      using ac[unfolded T'(2)] by (simp split: if_splits)
    then consider
        (top) "a = y" "c = x"
      | (par) "pa T x = Some a" "rt T a = Some x" "c = y" "a \<noteq> y"
      | (other) "rt T a = Some c" "a \<noteq> y" "\<not> (pa T x = Some a \<and> rt T a = Some x)"
      by blast
    then show "?hi c = ?hi a \<and> ?lo c = Some (key a)"
    proof cases
      case top
      then show ?thesis using xy by simp
    next
      case par
      then show ?thesis using xy pax[of a] BD(4)[of a x] a bdy by simp
    next
      case other
      have c: "live T c \<and> c \<notin> X \<and> pa T c = Some a" using LD(4)[of a c] a other(1) by simp
      have cy: "c \<noteq> y"
      proof
        assume "c = y"
        then have "a = x" using c yl(3) by simp
        then show False using rt_neq_lf[OF L B x, of y] other(1) y \<open>c = y\<close> by simp
      qed
      have cx: "c \<noteq> x" using other(3) c other(1) by auto
      show ?thesis using BD(4)[of a c] a other(1,2) cy cx by simp
    qed
  qed
  have 4: "\<forall>a c. live T a \<and> a \<notin> X \<longrightarrow> lf T' a = Some c \<longrightarrow> ?hi c = Some (key a) \<and> ?lo c = ?lo a"
  proof (intro allI impI)
    fix a c assume a: "live T a \<and> a \<notin> X" and ac: "lf T' a = Some c"
    have "(a = x \<and> rt T y = Some c) \<or> (pa T x = Some a \<and> rt T a \<noteq> Some x \<and> c = y \<and> a \<noteq> x) \<or>
        (lf T a = Some c \<and> a \<noteq> x \<and> \<not> (pa T x = Some a \<and> rt T a \<noteq> Some x))"
      using ac[unfolded T'(3)] by (simp split: if_splits)
    then consider
        (piv) "a = x" "rt T y = Some c"
      | (par) "pa T x = Some a" "rt T a \<noteq> Some x" "c = y" "a \<noteq> x"
      | (other) "lf T a = Some c" "a \<noteq> x" "\<not> (pa T x = Some a \<and> rt T a \<noteq> Some x)"
      by blast
    then show "?hi c = Some (key a) \<and> ?lo c = ?lo a"
    proof cases
      case piv
      then show ?thesis using lfy[of c] xy by simp
    next
      case par
      have "lf T a = Some x" using pax[of a] par by auto
      then show ?thesis using par xy pax[of a] BD(3)[of a x] a bdy by simp
    next
      case other
      have c: "live T c \<and> c \<notin> X \<and> pa T c = Some a" using LD(3)[of a c] a other(1) by simp
      have cy: "c \<noteq> y" using c yl(3) other(2) by auto
      have cx: "c \<noteq> x"
      proof
        assume "c = x"
        then have "pa T x = Some a" "lf T a = Some x" using c other(1) by auto
        then show False using other(3) lf_neq_rt[OF L B _ _ \<open>lf T a = Some x\<close>] a by auto
      qed
      show ?thesis using BD(3)[of a c] a other(1,2) cy cx bdy by auto
    qed
  qed
  show ?thesis
    unfolding bst_ok_def lv using 1 2 3 4 by blast
qed

subsection \<open>Lookup, insertion point and minimum\<close>

lemma live_obj: "live T a \<Longrightarrow> \<exists>v. obj T a = Some v"
  by (auto simp: live_def obj_def)

lemma cmp_consts [simp]:
  "RB_TREE_LESS_THAN \<noteq> RB_TREE_EQUAL" "RB_TREE_GREATER_THAN \<noteq> RB_TREE_EQUAL"
  "RB_TREE_LESS_THAN \<noteq> RB_TREE_GREATER_THAN" "RB_TREE_EQUAL \<noteq> RB_TREE_LESS_THAN"
  "RB_TREE_EQUAL \<noteq> RB_TREE_GREATER_THAN" "RB_TREE_GREATER_THAN \<noteq> RB_TREE_LESS_THAN"
  by (simp_all add: RB_TREE_LESS_THAN_def RB_TREE_GREATER_THAN_def RB_TREE_EQUAL_def)

lemma FindNode_loop_spec:
  fixes key :: "addr \<Rightarrow> 'k::linorder" and T :: "('k, 'o) RB_TREE"
  assumes L: "links_ok X T" and B: "bst_ok X key lo hi T" and K: "keys_ok X keyof key T"
    and C: "cmp_ok keyof T"
  shows "live T a \<Longrightarrow> a \<notin> X \<Longrightarrow>
     \<exists>r. FindNode_loop T k (Some a) = Some r \<and>
       (case r of Some c \<Rightarrow> live T c \<and> c \<notin> X \<and> key c = k \<and> (child T)\<^sup>*\<^sup>* a c
        | None \<Rightarrow> \<forall>c. (child T)\<^sup>*\<^sup>* a c \<longrightarrow> key c \<noteq> k)"
proof (induction "card (below key lo hi X T a)" arbitrary: a rule: less_induct)
  case less
  note a = less.prems
  from C obtain cmp where cmp: "compare T = Some cmp"
    "\<And>k v. cmp k v = (if k < keyof v then RB_TREE_LESS_THAN
                          else if keyof v < k then RB_TREE_GREATER_THAN else RB_TREE_EQUAL)"
    unfolding cmp_ok_def by blast
  obtain v where v: "obj T a = Some v" using live_obj[OF a(1)] by blast
  have kv: "keyof v = key a" using K v a(2) unfolding keys_ok_def by blast
  note LD = links_okD[OF L a] and BD = bst_okD[OF B a]
  consider (eq) "k = key a" | (lt) "k < key a" | (gt) "key a < k" by (meson linorder_cases)
  then show ?case
  proof cases
    case eq
    then show ?thesis using a
      by (subst FindNode_loop.simps) (simp add: cmp v kv getters)
  next
    case lt
    show ?thesis
    proof (cases "lf T a")
      case None
      have "\<forall>c. (child T)\<^sup>*\<^sup>* a c \<longrightarrow> key c \<noteq> k"
      proof (intro allI impI)
        fix c assume d: "(child T)\<^sup>*\<^sup>* a c"
        from desc_cases[OF d] show "key c \<noteq> k"
        proof (elim disjE exE conjE)
          assume "c = a" then show ?thesis using lt by simp
        next
          fix b assume "lf T a = Some b" then show ?thesis using None by simp
        next
          fix b assume b: "rt T a = Some b" "(child T)\<^sup>*\<^sup>* b c"
          have "live T b" "b \<notin> X" using LD(4)[OF b(1)] by auto
          from desc_props[OF L B b(2) this] have "inb (lo b) (hi b) (key c)" by simp
          then have "key a < key c" using BD(4)[OF b(1)] by (auto dest: inb_Some_right)
          then show ?thesis using lt by simp
        qed
      qed
      then show ?thesis using a lt None
        by (subst FindNode_loop.simps) (simp add: cmp v kv getters FindNode_loop.simps)
    next
      case (Some b)
      have b: "live T b" "b \<notin> X" using LD(3)[OF Some] by auto
      have ch: "child T a b" using a(1) Some by (simp add: child_def)
      from less.hyps[OF child_card_less[OF L B a ch] b] obtain r where
        r: "FindNode_loop T k (Some b) = Some r"
           "case r of Some c \<Rightarrow> live T c \<and> c \<notin> X \<and> key c = k \<and> (child T)\<^sup>*\<^sup>* b c
            | None \<Rightarrow> \<forall>c. (child T)\<^sup>*\<^sup>* b c \<longrightarrow> key c \<noteq> k" by blast
      have run: "FindNode_loop T k (Some a) = Some r" using a lt Some r(1)
        by (subst FindNode_loop.simps) (simp add: cmp v kv getters)
      show ?thesis
      proof (cases r)
        case None
        have "\<forall>c. (child T)\<^sup>*\<^sup>* a c \<longrightarrow> key c \<noteq> k"
        proof (intro allI impI)
          fix c assume d: "(child T)\<^sup>*\<^sup>* a c"
          from desc_cases[OF d] show "key c \<noteq> k"
          proof (elim disjE exE conjE)
            assume "c = a" then show ?thesis using lt by simp
          next
            fix b' assume "lf T a = Some b'" "(child T)\<^sup>*\<^sup>* b' c"
            then show ?thesis using r(2) None Some by simp
          next
            fix b' assume b': "rt T a = Some b'" "(child T)\<^sup>*\<^sup>* b' c"
            have "live T b'" "b' \<notin> X" using LD(4)[OF b'(1)] by auto
            from desc_props[OF L B b'(2) this] have "inb (lo b') (hi b') (key c)" by simp
            then have "key a < key c" using BD(4)[OF b'(1)] by (auto dest: inb_Some_right)
            then show ?thesis using lt by simp
          qed
        qed
        then show ?thesis using run None by simp
      next
        case (Some c)
        then have "(child T)\<^sup>*\<^sup>* a c" using r(2) ch by (auto intro: converse_rtranclp_into_rtranclp)
        then show ?thesis using run Some r(2) by simp
      qed
    qed
  next
    case gt
    then have ngt: "\<not> k < key a" by simp
    show ?thesis
    proof (cases "rt T a")
      case None
      have "\<forall>c. (child T)\<^sup>*\<^sup>* a c \<longrightarrow> key c \<noteq> k"
      proof (intro allI impI)
        fix c assume d: "(child T)\<^sup>*\<^sup>* a c"
        from desc_cases[OF d] show "key c \<noteq> k"
        proof (elim disjE exE conjE)
          assume "c = a" then show ?thesis using gt by simp
        next
          fix b assume "rt T a = Some b" then show ?thesis using None by simp
        next
          fix b assume b: "lf T a = Some b" "(child T)\<^sup>*\<^sup>* b c"
          have "live T b" "b \<notin> X" using LD(3)[OF b(1)] by auto
          from desc_props[OF L B b(2) this] have "inb (lo b) (hi b) (key c)" by simp
          then have "key c < key a" using BD(3)[OF b(1)] by (auto dest: inb_Some_left)
          then show ?thesis using gt by simp
        qed
      qed
      then show ?thesis using a gt ngt None
        by (subst FindNode_loop.simps) (simp add: cmp v kv getters FindNode_loop.simps)
    next
      case (Some b)
      have b: "live T b" "b \<notin> X" using LD(4)[OF Some] by auto
      have ch: "child T a b" using a(1) Some by (simp add: child_def)
      from less.hyps[OF child_card_less[OF L B a ch] b] obtain r where
        r: "FindNode_loop T k (Some b) = Some r"
           "case r of Some c \<Rightarrow> live T c \<and> c \<notin> X \<and> key c = k \<and> (child T)\<^sup>*\<^sup>* b c
            | None \<Rightarrow> \<forall>c. (child T)\<^sup>*\<^sup>* b c \<longrightarrow> key c \<noteq> k" by blast
      have run: "FindNode_loop T k (Some a) = Some r" using a gt ngt Some r(1)
        by (subst FindNode_loop.simps) (simp add: cmp v kv getters)
      show ?thesis
      proof (cases r)
        case None
        have "\<forall>c. (child T)\<^sup>*\<^sup>* a c \<longrightarrow> key c \<noteq> k"
        proof (intro allI impI)
          fix c assume d: "(child T)\<^sup>*\<^sup>* a c"
          from desc_cases[OF d] show "key c \<noteq> k"
          proof (elim disjE exE conjE)
            assume "c = a" then show ?thesis using gt by simp
          next
            fix b' assume "rt T a = Some b'" "(child T)\<^sup>*\<^sup>* b' c"
            then show ?thesis using r(2) None Some by simp
          next
            fix b' assume b': "lf T a = Some b'" "(child T)\<^sup>*\<^sup>* b' c"
            have "live T b'" "b' \<notin> X" using LD(3)[OF b'(1)] by auto
            from desc_props[OF L B b'(2) this] have "inb (lo b') (hi b') (key c)" by simp
            then have "key c < key a" using BD(3)[OF b'(1)] by (auto dest: inb_Some_left)
            then show ?thesis using gt by simp
          qed
        qed
        then show ?thesis using run None by simp
      next
        case (Some c)
        then have "(child T)\<^sup>*\<^sup>* a c" using r(2) ch by (auto intro: converse_rtranclp_into_rtranclp)
        then show ?thesis using run Some r(2) by simp
      qed
    qed
  qed
qed

lemma FindNode_spec:
  fixes key :: "addr \<Rightarrow> 'k::linorder" and T :: "('k, 'o) RB_TREE"
  assumes L: "links_ok X T" and B: "bst_ok X key lo hi T" and K: "keys_ok X keyof key T"
    and C: "cmp_ok keyof T"
  shows "\<exists>r. FindNode_loop T k (root T) = Some r \<and>
       (case r of Some c \<Rightarrow> live T c \<and> c \<notin> X \<and> key c = k
        | None \<Rightarrow> \<forall>c. live T c \<and> c \<notin> X \<longrightarrow> key c \<noteq> k)"
proof (cases "root T")
  case None
  have "\<forall>c. live T c \<and> c \<notin> X \<longrightarrow> key c \<noteq> k"
    using desc_root[OF L B] None by auto
  then show ?thesis using None by (subst FindNode_loop.simps) simp
next
  case (Some r)
  have r: "live T r" "r \<notin> X" using links_ok_root[OF L Some] by auto
  from FindNode_loop_spec[OF L B K C r, of k] obtain res where
    res: "FindNode_loop T k (Some r) = Some res"
      "case res of Some c \<Rightarrow> live T c \<and> c \<notin> X \<and> key c = k \<and> (child T)\<^sup>*\<^sup>* r c
        | None \<Rightarrow> \<forall>c. (child T)\<^sup>*\<^sup>* r c \<longrightarrow> key c \<noteq> k" by blast
  show ?thesis
  proof (cases res)
    case None
    then have "\<forall>c. live T c \<and> c \<notin> X \<longrightarrow> key c \<noteq> k"
      using res(2) desc_root[OF L B] Some by auto
    then show ?thesis using res(1) None Some by simp
  next
    case (Some c)
    then show ?thesis using res \<open>root T = Some r\<close> by simp
  qed
qed

lemma InsertNode_loop_spec:
  fixes key :: "addr \<Rightarrow> 'k::linorder" and T :: "('k, 'o) RB_TREE"
  assumes L: "links_ok X T" and B: "bst_ok X key lo hi T" and K: "keys_ok X keyof key T"
    and C: "cmp_ok keyof T"
  shows "live T a \<Longrightarrow> a \<notin> X \<Longrightarrow> inb (lo a) (hi a) k \<Longrightarrow>
     \<exists>r. InsertNode_loop T k (Some a) par res = Some r \<and>
       (case r of Inl c \<Rightarrow> live T c \<and> c \<notin> X \<and> key c = k
        | Inr (p', res') \<Rightarrow> \<exists>p. p' = Some p \<and> live T p \<and> p \<notin> X \<and> inb (lo p) (hi p) k \<and>
            ((res' = RB_TREE_LESS_THAN \<and> k < key p \<and> lf T p = None) \<or>
             (res' \<noteq> RB_TREE_LESS_THAN \<and> key p < k \<and> rt T p = None)))"
proof (induction "card (below key lo hi X T a)" arbitrary: a par res rule: less_induct)
  case less
  note a = less.prems
  from C obtain cmp where cmp: "compare T = Some cmp"
    "\<And>k v. cmp k v = (if k < keyof v then RB_TREE_LESS_THAN
                          else if keyof v < k then RB_TREE_GREATER_THAN else RB_TREE_EQUAL)"
    unfolding cmp_ok_def by blast
  obtain v where v: "obj T a = Some v" using live_obj[OF a(1)] by blast
  have kv: "keyof v = key a" using K v a(2) unfolding keys_ok_def by blast
  note LD = links_okD[OF L a(1,2)] and BD = bst_okD[OF B a(1,2)]
  consider (eq) "k = key a" | (lt) "k < key a" | (gt) "key a < k" by (meson linorder_cases)
  then show ?case
  proof cases
    case eq
    then show ?thesis using a
      by (subst InsertNode_loop.simps) (simp add: cmp v kv getters)
  next
    case lt
    show ?thesis
    proof (cases "lf T a")
      case None
      then show ?thesis using a lt
        by (subst InsertNode_loop.simps) (simp add: cmp v kv getters InsertNode_loop.simps)
    next
      case (Some b)
      have b: "live T b" "b \<notin> X" using LD(3)[OF Some] by auto
      have ch: "child T a b" using a(1) Some by (simp add: child_def)
      have ib: "inb (lo b) (hi b) k" using BD(3)[OF Some] a(3) lt by (simp add: inb_def)
      from less.hyps[OF child_card_less[OF L B a(1,2) ch] b ib, of "Some a" RB_TREE_LESS_THAN]
      show ?thesis using a lt Some
        by (subst InsertNode_loop.simps) (simp add: cmp v kv getters)
    qed
  next
    case gt
    then have ngt: "\<not> k < key a" by simp
    show ?thesis
    proof (cases "rt T a")
      case None
      then show ?thesis using a gt ngt
        by (subst InsertNode_loop.simps) (simp add: cmp v kv getters InsertNode_loop.simps)
    next
      case (Some b)
      have b: "live T b" "b \<notin> X" using LD(4)[OF Some] by auto
      have ch: "child T a b" using a(1) Some by (simp add: child_def)
      have ib: "inb (lo b) (hi b) k" using BD(4)[OF Some] a(3) gt by (simp add: inb_def)
      from less.hyps[OF child_card_less[OF L B a(1,2) ch] b ib, of "Some a" RB_TREE_GREATER_THAN]
      show ?thesis using a gt ngt Some
        by (subst InsertNode_loop.simps) (simp add: cmp v kv getters)
    qed
  qed
qed

lemma Minimum_spec:
  fixes key :: "addr \<Rightarrow> 'k::linorder" and T :: "('k, 'o) RB_TREE"
  assumes L: "links_ok X T" and B: "bst_ok X key lo hi T"
  shows "live T a \<Longrightarrow> a \<notin> X \<Longrightarrow>
     \<exists>m. RtlpRbTreeMinimum T a = Some m \<and> live T m \<and> m \<notin> X \<and> lf T m = None \<and> lo m = lo a \<and>
         (m = a \<or> (\<exists>q. pa T m = Some q \<and> lf T q = Some m \<and> (child T)\<^sup>*\<^sup>* a q))"
proof (induction "card (below key lo hi X T a)" arbitrary: a rule: less_induct)
  case less
  note a = less.prems
  note LD = links_okD[OF L a(1,2)] and BD = bst_okD[OF B a(1,2)]
  show ?case
  proof (cases "lf T a")
    case None
    then show ?thesis using a by (subst RtlpRbTreeMinimum.simps) (simp add: getters)
  next
    case (Some b)
    have b: "live T b" "b \<notin> X" "pa T b = Some a" using LD(3)[OF Some] by auto
    have ch: "child T a b" using a(1) Some by (simp add: child_def)
    from less.hyps[OF child_card_less[OF L B a(1,2) ch] b(1,2)] obtain m where
      m: "RtlpRbTreeMinimum T b = Some m" "live T m" "m \<notin> X" "lf T m = None" "lo m = lo b"
         "m = b \<or> (\<exists>q. pa T m = Some q \<and> lf T q = Some m \<and> (child T)\<^sup>*\<^sup>* b q)" by blast
    have run: "RtlpRbTreeMinimum T a = Some m" using a Some m(1)
      by (subst RtlpRbTreeMinimum.simps) (simp add: getters)
    have "\<exists>q. pa T m = Some q \<and> lf T q = Some m \<and> (child T)\<^sup>*\<^sup>* a q"
      using m(6) b(3) Some ch by (auto intro: converse_rtranclp_into_rtranclp)
    then show ?thesis using run m BD(3)[OF Some] by simp
  qed
qed

subsection \<open>Colours and black height\<close>

lemma bhO_simps [simp]: "bhO bh None = 0" "bhO bh (Some b) = bh b"
  by (simp_all add: bhO_def)

lemma same_links_links_ok: "same_links T T' \<Longrightarrow> links_ok X T' = links_ok X T"
  by (simp add: same_links_def links_ok_def)

lemma same_links_bst_ok: "same_links T T' \<Longrightarrow> bst_ok X key lo hi T' = bst_ok X key lo hi T"
  by (simp add: same_links_def bst_ok_def)

lemma same_links_below: "same_links T T' \<Longrightarrow> below key lo hi X T' = below key lo hi X T"
  by (simp add: same_links_def below_def fun_eq_iff)

lemma same_links_child: "same_links T T' \<Longrightarrow> child T' = child T"
  by (simp add: same_links_def child_def fun_eq_iff)

lemma same_links_refl [simp]: "same_links T T"
  by (simp add: same_links_def)

lemma same_links_trans: "same_links T T' \<Longrightarrow> same_links T' T'' \<Longrightarrow> same_links T T''"
  by (simp add: same_links_def)

lemma rest_eq_refl [simp]: "rest_eq T T"
  by (simp add: rest_eq_def)

lemma rest_eq_trans: "rest_eq T T' \<Longrightarrow> rest_eq T' T'' \<Longrightarrow> rest_eq T T''"
  by (simp add: rest_eq_def)

lemma set_colour_spec:
  "live T a \<Longrightarrow> \<exists>T'. set_colour a c T = Some T' \<and> same_links T T' \<and> rest_eq T T' \<and>
     col T' = (col T)(a := c)"
  by (simp add: setters same_links_def rest_eq_def view_upd)

lemma bh_okD:
  assumes "bh_ok X bh T" "live T a" "a \<notin> X"
  shows "bhO bh (lf T a) = bhO bh (rt T a)"
    and "bh a = bhO bh (lf T a) + (if col T a = black then 1 else 0)"
  using assms unfolding bh_ok_def by blast+

lemma rr_okD:
  assumes "rr_ok X E T" "live T a" "a \<notin> X" "col T a = red"
  shows "lf T a = Some c \<Longrightarrow> col T c = red \<Longrightarrow> c \<in> E"
    and "rt T a = Some c \<Longrightarrow> col T c = red \<Longrightarrow> c \<in> E"
  using assms unfolding rr_ok_def by blast+

lemma col_cases: "col T a = red \<or> col T a = black"
  by (cases "col T a") simp_all

lemma not_red [simp]: "(c \<noteq> red) = (c = black)"
  by (cases c) simp_all

lemma not_black [simp]: "(c \<noteq> black) = (c = red)"
  by (cases c) simp_all

lemma rotl_red_red:
  assumes L: "links_ok X T" and B: "bst_ok X key lo hi T"
    and x: "live T x" "x \<notin> X" and y: "rt T x = Some y"
    and R: "rotl_rel T x y T'"
    and cx: "col T x = red" and cy: "col T y = red"
    and RR: "rr_ok X {y} T" and H: "bh_ok X bh T"
  shows "rr_ok X {x} T' \<and> bh_ok X bh T'"
proof -
  have T': "\<And>a. pa T' a = (if a = x then Some y else if a = y then pa T x
                     else if lf T y = Some a then Some x else pa T a)"
    "\<And>a. lf T' a = (if a = y then Some x
                     else if pa T x = Some a \<and> lf T a = Some x then Some y else lf T a)"
    "\<And>a. rt T' a = (if a = x then lf T y
                     else if pa T x = Some a \<and> lf T a \<noteq> Some x then Some y else rt T a)"
    using R by (simp_all add: rotl_rel_def)
  have lv: "live T' = live T" and cl: "col T' = col T" using R by (simp_all add: rotl_rel_def rest_eq_def)
  note LD = links_okD[OF L] links_ok_root[OF L]
  have yl: "live T y" "y \<notin> X" "pa T y = Some x" using LD(4)[OF x y] by auto
  have xy: "x \<noteq> y" using acyclic1[OF L B x childI2[OF x(1) y]] .
  note Hx = bh_okD[OF H x] and Hy = bh_okD[OF H yl(1,2)]
  have e: "bh x = bh y" "bhO bh (lf T x) = bh y" "bhO bh (lf T y) = bh y" "bhO bh (rt T y) = bh y"
    using Hx Hy y cx cy by simp_all
  have pax: "\<And>q. pa T x = Some q \<Longrightarrow> live T q \<and> q \<notin> X \<and> (lf T q = Some x \<or> rt T q = Some x) \<and> q \<noteq> x \<and> q \<noteq> y"
  proof -
    fix q assume q: "pa T x = Some q"
    have pl: "live T q" "q \<notin> X" "lf T q = Some x \<or> rt T q = Some x" using LD(2)[OF x q] by auto
    then have c: "child T q x" by (simp add: child_def)
    have "q \<noteq> x" using acyclic1[OF L B pl(1,2) c] .
    moreover have "q \<noteq> y" using acyclic2[OF L B pl(1,2) c childI2[OF x(1) y]] .
    ultimately show "live T q \<and> q \<notin> X \<and> (lf T q = Some x \<or> rt T q = Some x) \<and> q \<noteq> x \<and> q \<noteq> y"
      using pl by simp
  qed
  have nxx: "lf T x \<noteq> Some x" "lf T x \<noteq> Some y"
    using acyclic1[OF L B x, of x] lf_neq_rt[OF L B x, of y] y x(1) by (auto simp: child_def)
  have lx: "lf T' x = lf T x" using T'(2)[of x] xy pax[of x] by auto
  have ry: "rt T' y = rt T y" using T'(3)[of y] xy pax[of y] by auto
  have bh: "bh_ok X bh T'"
    unfolding bh_ok_def lv cl
  proof (intro allI impI, goal_cases)
    case (1 a)
    note a = 1
    note Ha = bh_okD[OF H, of a]
    consider (ax) "a = x" | (ay) "a = y" | (aq) "a \<noteq> x" "a \<noteq> y" "pa T x = Some a"
      | (ao) "a \<noteq> x" "a \<noteq> y" "pa T x \<noteq> Some a" by blast
    then show ?case
    proof cases
      case ax
      then show ?thesis using lx T'(3)[of x] e cx by simp
    next
      case ay
      then show ?thesis using ry T'(2)[of y] e cy by simp
    next
      case aq
      show ?thesis
      proof (cases "lf T a = Some x")
        case True
        have "lf T' a = Some y" "rt T' a = rt T a" using T'(2)[of a] T'(3)[of a] aq True by simp_all
        then show ?thesis using Ha a True e(1) by simp
      next
        case False
        then have r: "rt T a = Some x" using pax[of a] aq by simp
        have "lf T' a = lf T a" "rt T' a = Some y" using T'(2)[of a] T'(3)[of a] aq False by simp_all
        then show ?thesis using Ha a r e(1) by simp
      qed
    next
      case ao
      have "lf T' a = lf T a" "rt T' a = rt T a" using T'(2)[of a] T'(3)[of a] ao by simp_all
      then show ?thesis using Ha a by simp
    qed
  qed
  have rr: "rr_ok X {x} T'"
    unfolding rr_ok_def lv cl
  proof (intro allI impI)
    fix a c assume h: "live T a \<and> a \<notin> X \<and> col T a = red \<and> (lf T' a = Some c \<or> rt T' a = Some c) \<and> col T c = red"
    note Ra = rr_okD[OF RR, of a c]
    consider (ax) "a = x" | (ay) "a = y" | (aq) "a \<noteq> x" "a \<noteq> y" "pa T x = Some a"
      | (ao) "a \<noteq> x" "a \<noteq> y" "pa T x \<noteq> Some a" by blast
    then show "c \<in> {x}"
    proof cases
      case ax
      have "lf T x = Some c \<or> lf T y = Some c" using h ax lx T'(3)[of x] by auto
      then show ?thesis
        using rr_okD[OF RR x cx, of c] rr_okD[OF RR yl(1,2) cy, of c] h nxx
          acyclic1[OF L B yl(1,2), of y] yl(1) by (auto simp: child_def)
    next
      case ay
      have "c = x \<or> rt T y = Some c" using h ay ry T'(2)[of y] by auto
      then show ?thesis
        using rr_okD[OF RR yl(1,2) cy, of c] h acyclic1[OF L B yl(1,2), of y] yl(1)
        by (auto simp: child_def)
    next
      case aq
      have "lf T a = Some x \<or> rt T a = Some x" using pax[of a] aq by simp
      then have False using rr_okD[OF RR, of a x] h cx xy by auto
      then show ?thesis ..
    next
      case ao
      then have "lf T a = Some c \<or> rt T a = Some c" using h T'(2)[of a] T'(3)[of a] by auto
      then have "c = y" using Ra h by auto
      then have "a = x" using \<open>lf T a = Some c \<or> rt T a = Some c\<close> LD(3,4)[of a y] h yl(3) by auto
      then show ?thesis using ao by simp
    qed
  qed
  show ?thesis using rr bh by simp
qed

lemma rotr_recolour:
  assumes L: "links_ok X T" and B: "bst_ok X key lo hi T"
    and g: "live T g" "g \<notin> X" and p: "lf T g = Some p" and n: "lf T p = Some n"
    and S: "same_links T T3" and c3: "col T3 = (col T)(p := black, g := red)"
    and R: "rotr_rel T3 g p T4"
    and cp: "col T p = red" and cn: "col T n = red"
    and cu: "\<forall>u. rt T g = Some u \<longrightarrow> col T u = black"
    and RR: "rr_ok X {n} T" and H: "bh_ok X bh T"
  shows "rr_ok X {} T4 \<and> bh_ok X (bh(g := bh p, p := Suc (bh p))) T4"
proof -
  have sl: "pa T3 = pa T" "lf T3 = lf T" "rt T3 = rt T" "live T3 = live T"
    using S by (simp_all add: same_links_def)
  have T': "\<And>a. pa T4 a = (if a = g then Some p else if a = p then pa T g
                     else if rt T p = Some a then Some g else pa T a)"
    "\<And>a. rt T4 a = (if a = p then Some g
                     else if pa T g = Some a \<and> rt T a = Some g then Some p else rt T a)"
    "\<And>a. lf T4 a = (if a = g then rt T p
                     else if pa T g = Some a \<and> rt T a \<noteq> Some g then Some p else lf T a)"
    using R by (simp_all add: rotr_rel_def sl)
  have lv: "live T4 = live T" and cl: "col T4 = (col T)(p := black, g := red)"
    using R c3 by (simp_all add: rotr_rel_def rest_eq_def sl)
  note LD = links_okD[OF L] links_ok_root[OF L]
  have pl: "live T p" "p \<notin> X" "pa T p = Some g" using LD(3)[OF g p] by auto
  have nl: "live T n" "n \<notin> X" "pa T n = Some p" using LD(3)[OF pl(1,2) n] by auto
  have gp: "g \<noteq> p" using acyclic1[OF L B g childI1[OF g(1) p]] .
  have pn: "p \<noteq> n" using acyclic1[OF L B pl(1,2) childI1[OF pl(1) n]] .
  have gn: "g \<noteq> n" using acyclic2[OF L B g childI1[OF g(1) p] childI1[OF pl(1) n]] .
  have cg: "col T g = black"
  proof (rule ccontr)
    assume "col T g \<noteq> black"
    then have "col T g = red" by simp
    from rr_okD(1)[OF RR g this p cp] show False using pn by simp
  qed
  note Hg = bh_okD[OF H g] and Hp = bh_okD[OF H pl(1,2)]
  have e: "bh n = bh p" "bhO bh (rt T p) = bh p" "bh g = Suc (bh p)" "bhO bh (rt T g) = bh p"
    using Hg Hp p n cp cg by simp_all
  have rtp: "\<And>b. rt T p = Some b \<Longrightarrow> live T b \<and> b \<notin> X \<and> pa T b = Some p \<and> b \<noteq> g \<and> b \<noteq> p \<and> b \<noteq> n
      \<and> col T b = black"
  proof -
    fix b assume b: "rt T p = Some b"
    have bl: "live T b \<and> b \<notin> X \<and> pa T b = Some p" using LD(4)[OF pl(1,2) b] by simp
    have "b \<noteq> p" using acyclic1[OF L B pl(1,2) childI2[OF pl(1) b]] by simp
    moreover have "b \<noteq> g" using acyclic2[OF L B g childI1[OF g(1) p] childI2[OF pl(1) b]] by simp
    moreover have bn: "b \<noteq> n" using rt_neq_lf[OF L B pl(1,2) b] n by auto
    moreover have "col T b = black" using rr_okD(2)[OF RR pl(1,2) cp b] bn by (cases "col T b") auto
    ultimately show "live T b \<and> b \<notin> X \<and> pa T b = Some p \<and> b \<noteq> g \<and> b \<noteq> p \<and> b \<noteq> n \<and> col T b = black"
      using bl by simp
  qed
  have rtg: "\<And>u. rt T g = Some u \<Longrightarrow> live T u \<and> u \<notin> X \<and> pa T u = Some g \<and> u \<noteq> g \<and> u \<noteq> p \<and> col T u = black"
  proof -
    fix u assume u: "rt T g = Some u"
    have ul: "live T u \<and> u \<notin> X \<and> pa T u = Some g" using LD(4)[OF g u] by simp
    have "u \<noteq> g" using acyclic1[OF L B g childI2[OF g(1) u]] by simp
    moreover have "u \<noteq> p" using rt_neq_lf[OF L B g u] p by auto
    ultimately show "live T u \<and> u \<notin> X \<and> pa T u = Some g \<and> u \<noteq> g \<and> u \<noteq> p \<and> col T u = black"
      using ul cu u by simp
  qed
  have pag: "\<And>q. pa T g = Some q \<Longrightarrow> live T q \<and> q \<notin> X \<and> (lf T q = Some g \<or> rt T q = Some g) \<and> q \<noteq> g \<and> q \<noteq> p \<and> q \<noteq> n"
  proof -
    fix q assume q: "pa T g = Some q"
    have ql: "live T q" "q \<notin> X" "lf T q = Some g \<or> rt T q = Some g" using LD(2)[OF g q] by auto
    then have c: "child T q g" by (simp add: child_def)
    have "q \<noteq> g" using acyclic1[OF L B ql(1,2) c] .
    moreover have "q \<noteq> p" using acyclic2[OF L B ql(1,2) c childI1[OF g(1) p]] .
    moreover have "q \<noteq> n" using acyclic3[OF L B ql(1,2) c childI1[OF g(1) p] childI1[OF pl(1) n]] .
    ultimately show "live T q \<and> q \<notin> X \<and> (lf T q = Some g \<or> rt T q = Some g) \<and> q \<noteq> g \<and> q \<noteq> p \<and> q \<noteq> n"
      using ql by simp
  qed
  have vg: "lf T4 g = rt T p" "rt T4 g = rt T g"
    using T'(2)[of g] T'(3)[of g] gp pag[of g] by auto
  have vp: "lf T4 p = Some n" "rt T4 p = Some g"
    using T'(2)[of p] T'(3)[of p] gp pag[of p] n by auto
  let ?bh = "bh(g := bh p, p := Suc (bh p))"
  have bhB: "bhO ?bh (rt T p) = bh p" using e(2) rtp by (cases "rt T p") auto
  have bhU: "bhO ?bh (rt T g) = bh p" using e(4) rtg by (cases "rt T g") auto
  have bh: "bh_ok X ?bh T4"
    unfolding bh_ok_def lv cl
  proof (intro allI impI, goal_cases)
    case (1 a)
    note a = 1
    note Ha = bh_okD[OF H, of a]
    consider (ag) "a = g" | (ap) "a = p" | (aq) "a \<noteq> g" "a \<noteq> p" "pa T g = Some a"
      | (ao) "a \<noteq> g" "a \<noteq> p" "pa T g \<noteq> Some a" by blast
    then show ?case
    proof cases
      case ag
      then show ?thesis using vg bhB bhU gp by simp
    next
      case ap
      then show ?thesis using vp e(1) gp pn gn by simp
    next
      case aq
      have ch: "\<And>c. lf T a = Some c \<or> rt T a = Some c \<Longrightarrow> c \<noteq> p"
        using LD(3,4)[of a p] a pl(3) aq(1) by auto
      show ?thesis
      proof (cases "rt T a = Some g")
        case True
        have v: "lf T4 a = lf T a" "rt T4 a = Some p" using T'(2)[of a] T'(3)[of a] aq True by simp_all
        have "lf T a \<noteq> Some g" using rt_neq_lf[OF L B _ _ True] a by simp
        then have "bhO ?bh (lf T a) = bhO bh (lf T a)" using ch[of "the (lf T a)"] by (cases "lf T a") auto
        then show ?thesis using v Ha a True e(3) aq by simp
      next
        case False
        then have l: "lf T a = Some g" using pag[of a] aq by simp
        have v: "lf T4 a = Some p" "rt T4 a = rt T a" using T'(2)[of a] T'(3)[of a] aq False by simp_all
        have "rt T a \<noteq> Some g" using False by simp
        then have "bhO ?bh (rt T a) = bhO bh (rt T a)" using ch[of "the (rt T a)"] by (cases "rt T a") auto
        then show ?thesis using v Ha a l e(3) aq by simp
      qed
    next
      case ao
      have v: "lf T4 a = lf T a" "rt T4 a = rt T a" using T'(2)[of a] T'(3)[of a] ao by simp_all
      have ch: "\<And>c. lf T a = Some c \<or> rt T a = Some c \<Longrightarrow> c \<noteq> p \<and> c \<noteq> g"
        using LD(3,4)[of a p] LD(3,4)[of a g] a pl(3) ao by auto
      have "bhO ?bh (lf T a) = bhO bh (lf T a)" using ch[of "the (lf T a)"] by (cases "lf T a") auto
      moreover have "bhO ?bh (rt T a) = bhO bh (rt T a)" using ch[of "the (rt T a)"] by (cases "rt T a") auto
      ultimately show ?thesis using v Ha a ao by simp
    qed
  qed
  have rr: "rr_ok X {} T4"
    unfolding rr_ok_def lv cl
  proof (intro allI impI)
    fix a c assume h: "live T a \<and> a \<notin> X \<and> ((col T)(p := black, g := red)) a = red \<and>
        (lf T4 a = Some c \<or> rt T4 a = Some c) \<and> ((col T)(p := black, g := red)) c = red"
    then have ap: "a \<noteq> p" and cp': "c \<noteq> p" using gp by auto
    consider (ag) "a = g" | (aq) "a \<noteq> g" "pa T g = Some a"
      | (ao) "a \<noteq> g" "pa T g \<noteq> Some a" by blast
    then have False
    proof cases
      case ag
      then have "rt T p = Some c \<or> rt T g = Some c" using h vg by auto
      then show False using rtp[of c] rtg[of c] h by auto
    next
      case aq
      have ca: "col T a = red" using h aq ap by simp
      have v: "(lf T a = Some c \<or> rt T a = Some c) \<and> c \<noteq> g"
      proof (cases "rt T a = Some g")
        case True
        have "lf T4 a = lf T a" "rt T4 a = Some p" using T'(2)[of a] T'(3)[of a] aq ap True by simp_all
        moreover have "lf T a \<noteq> Some g" using rt_neq_lf[OF L B _ _ True] h by simp
        ultimately show ?thesis using h cp' by auto
      next
        case False
        then have l: "lf T a = Some g" using pag[of a] aq by simp
        have "lf T4 a = Some p" "rt T4 a = rt T a" using T'(2)[of a] T'(3)[of a] aq ap False by simp_all
        then show ?thesis using h cp' False by auto
      qed
      moreover have "col T c = red" using h cp' v by simp
      ultimately have "c = n" using rr_okD[OF RR _ _ ca, of c] h by auto
      then show False using v LD(3,4)[of a n] h nl(3) ap by auto
    next
      case ao
      have ca: "col T a = red" using h ao ap by simp
      have v: "lf T a = Some c \<or> rt T a = Some c" using h T'(2)[of a] T'(3)[of a] ao ap by (auto split: if_splits)
      have "c \<noteq> g" using v LD(3,4)[of a g] h ao by auto
      then have "col T c = red" using h cp' by simp
      then have "c = n" using rr_okD[OF RR _ _ ca, of c] h v by auto
      then show False using v LD(3,4)[of a n] h nl(3) ap by auto
    qed
    then show "c \<in> {}" ..
  qed
  show ?thesis using rr bh by simp
qed

lemma recolour_up:
  assumes L: "links_ok X T" and B: "bst_ok X key lo hi T"
    and n: "live T n" "n \<notin> X" "pa T n = Some p" and g: "pa T p = Some g"
    and u: "lf T g = Some u \<or> rt T g = Some u" "u \<noteq> p"
    and cp: "col T p = red" and cu: "col T u = red" and cn: "col T n = red"
    and S: "same_links T T3" and c3: "col T3 = (col T)(p := black, u := black, g := red)"
    and RR: "rr_ok X {n} T" and H: "bh_ok X bh T"
  shows "rr_ok X {g} T3 \<and> bh_ok X (bh(p := Suc (bh p), u := Suc (bh u))) T3"
proof -
  have sl: "pa T3 = pa T" "lf T3 = lf T" "rt T3 = rt T" "live T3 = live T"
    using S by (simp_all add: same_links_def)
  note LD = links_okD[OF L] links_ok_root[OF L]
  have pl: "live T p" "p \<notin> X" "lf T p = Some n \<or> rt T p = Some n" using LD(2)[OF n(1,2,3)] by auto
  have gl: "live T g" "g \<notin> X" "lf T g = Some p \<or> rt T g = Some p" using LD(2)[OF pl(1,2) g] by auto
  have ul: "live T u" "u \<notin> X" "pa T u = Some g" using u(1) LD(3,4)[OF gl(1,2), of u] by auto
  have chgp: "child T g p" using gl by (simp add: child_def)
  have chgu: "child T g u" using gl(1) u(1) by (simp add: child_def)
  have chpn: "child T p n" using pl by (simp add: child_def)
  have gp: "g \<noteq> p" using acyclic1[OF L B gl(1,2) chgp] .
  have gu: "g \<noteq> u" using acyclic1[OF L B gl(1,2) chgu] .
  have pn: "p \<noteq> n" using acyclic1[OF L B pl(1,2) chpn] .
  have cg: "col T g = black"
  proof (rule ccontr)
    assume "col T g \<noteq> black"
    then have "col T g = red" by simp
    from rr_okD[OF RR gl(1,2) this, of p] gl(3) cp show False using pn by auto
  qed
  note Hg = bh_okD[OF H gl(1,2)] and Hp = bh_okD[OF H pl(1,2)] and Hu = bh_okD[OF H ul(1,2)]
  have ch: "(lf T g = Some p \<and> rt T g = Some u) \<or> (lf T g = Some u \<and> rt T g = Some p)"
    using gl(3) u by auto
  have e: "bh u = bh p" "bh g = Suc (bh p)" using Hg ch cg by auto
  let ?bh = "bh(p := Suc (bh p), u := Suc (bh u))"
  let ?col = "(col T)(p := black, u := black, g := red)"
  have kids: "\<And>a c. live T a \<and> a \<notin> X \<Longrightarrow> lf T a = Some c \<or> rt T a = Some c \<Longrightarrow> a \<noteq> g \<Longrightarrow> c \<noteq> p \<and> c \<noteq> u"
  proof -
    fix a c assume a: "live T a \<and> a \<notin> X" "lf T a = Some c \<or> rt T a = Some c" "a \<noteq> g"
    have "pa T c = Some a" using LD(3,4)[of a c] a by auto
    then show "c \<noteq> p \<and> c \<noteq> u" using g ul(3) a(3) by auto
  qed
  have bh: "bh_ok X ?bh T3"
    unfolding bh_ok_def sl c3
  proof (intro allI impI)
    fix a assume a: "live T a \<and> a \<notin> X"
    note Ha = bh_okD[OF H, of a]
    consider (ag) "a = g" | (ap) "a = p" | (au) "a = u" | (ao) "a \<noteq> g" "a \<noteq> p" "a \<noteq> u" by blast
    then show "bhO ?bh (lf T a) = bhO ?bh (rt T a) \<and>
       ?bh a = bhO ?bh (lf T a) + (if ?col a = black then 1 else 0)"
    proof cases
      case ag
      have "bhO ?bh (lf T g) = Suc (bh p) \<and> bhO ?bh (rt T g) = Suc (bh p)"
        using ch e(1) u(2) by auto
      then show ?thesis using ag e(2) gp gu by simp
    next
      case ap
      have "bhO ?bh (lf T p) = bhO bh (lf T p)" using kids[of p "the (lf T p)"] pl gp by (cases "lf T p") auto
      moreover have "bhO ?bh (rt T p) = bhO bh (rt T p)" using kids[of p "the (rt T p)"] pl gp by (cases "rt T p") auto
      ultimately show ?thesis using ap Hp cp gp u(2) by simp
    next
      case au
      have "bhO ?bh (lf T u) = bhO bh (lf T u)" using kids[of u "the (lf T u)"] ul gu by (cases "lf T u") auto
      moreover have "bhO ?bh (rt T u) = bhO bh (rt T u)" using kids[of u "the (rt T u)"] ul gu by (cases "rt T u") auto
      ultimately show ?thesis using au Hu cu gu u(2) by simp
    next
      case ao
      have "bhO ?bh (lf T a) = bhO bh (lf T a)" using kids[of a "the (lf T a)"] a ao by (cases "lf T a") auto
      moreover have "bhO ?bh (rt T a) = bhO bh (rt T a)" using kids[of a "the (rt T a)"] a ao by (cases "rt T a") auto
      ultimately show ?thesis using Ha a ao by simp
    qed
  qed
  have rr: "rr_ok X {g} T3"
    unfolding rr_ok_def sl c3
  proof (intro allI impI)
    fix a c assume h: "live T a \<and> a \<notin> X \<and> ?col a = red \<and> (lf T a = Some c \<or> rt T a = Some c) \<and> ?col c = red"
    then have ap: "a \<noteq> p" "a \<noteq> u" "c \<noteq> p" "c \<noteq> u" using gp gu by (auto split: if_splits)
    show "c \<in> {g}"
    proof (rule ccontr)
      assume "c \<notin> {g}"
      then have cg': "c \<noteq> g" by simp
      have "a \<noteq> g" using h ch ap by auto
      then have "col T a = red" "col T c = red" using h ap cg' by auto
      then have "c = n" using rr_okD[OF RR _ _ \<open>col T a = red\<close>, of c] h by auto
      then have "a = p" using h LD(3,4)[of a n] n(3) by auto
      then show False using ap by simp
    qed
  qed
  show ?thesis using rr bh by simp
qed

lemma RotateLeft_inv:
  assumes L: "links_ok X T" and B: "bst_ok X key lo hi T"
    and x: "live T x" "x \<notin> X" and y: "rt T x = Some y"
  shows "\<exists>T'. RtlpRbTreeRotateLeft T x = Some T' \<and> rotl_rel T x y T' \<and> links_ok X T' \<and>
     bst_ok X key (lo(y := lo x)) (hi(y := hi x, x := Some (key y))) T'"
proof -
  from RotateLeft_links[OF L B x y] obtain T' where
    T': "RtlpRbTreeRotateLeft T x = Some T'" "rotl_rel T x y T'" "links_ok X T'"
    unfolding rotl_rel_def by blast
  show ?thesis using T' rotl_bst[OF L B x y T'(2)] by blast
qed
lemma RotateRight_inv:
  assumes L: "links_ok X T" and B: "bst_ok X key lo hi T"
    and x: "live T x" "x \<notin> X" and y: "lf T x = Some y"
  shows "\<exists>T'. RtlpRbTreeRotateRight T x = Some T' \<and> rotr_rel T x y T' \<and> links_ok X T' \<and>
     bst_ok X key (lo(y := lo x, x := Some (key y))) (hi(y := hi x)) T'"
proof -
  from RotateRight_links[OF L B x y] obtain T' where
    T': "RtlpRbTreeRotateRight T x = Some T'" "rotr_rel T x y T'" "links_ok X T'"
    unfolding rotr_rel_def by blast
  show ?thesis using T' rotr_bst[OF L B x y T'(2)] by blast
qed

subsection \<open>Insertion fixup\<close>

lemma is_red_simp:
  "is_red T None = Some False"
  "live T u \<Longrightarrow> is_red T (Some u) = Some (col T u = red)"
  by (simp_all add: is_red_def getters)

lemma fi_post_trans: "rest_eq T T3 \<Longrightarrow> fi_post full X key T3 T' \<Longrightarrow> fi_post full X key T T'"
  by (auto simp: fi_post_def intro: rest_eq_trans)

lemma rotl_rel_rest: "rotl_rel T x y T' \<Longrightarrow> rest_eq T T'"
  and rotr_rel_rest: "rotr_rel T x y T' \<Longrightarrow> rest_eq T T'"
  by (simp_all add: rotl_rel_def rotr_rel_def)

lemma rr_ok_no_parent:
  assumes L: "links_ok X T" and RR: "rr_ok X {n} T" and n: "\<forall>p. pa T n = Some p \<longrightarrow> col T p = black"
  shows "rr_ok X {} T"
  unfolding rr_ok_def
proof (intro allI impI)
  fix a c assume h: "live T a \<and> a \<notin> X \<and> col T a = red \<and> (lf T a = Some c \<or> rt T a = Some c) \<and> col T c = red"
  then have "c = n" using RR unfolding rr_ok_def by blast
  then have "pa T n = Some a" using h links_okD(3,4)[OF L, of a n] by auto
  then have False using n h by auto
  then show "c \<in> {}" ..
qed

lemma fi_left:
  assumes P: "fi_pre full X key lo hi bh T n"
    and p: "pa T n = Some p" and cp: "col T p = red" and g: "pa T p = Some g"
    and lg: "lf T g = Some p"
    and IH: "\<And>T3 bh3. same_links T T3 \<Longrightarrow> rest_eq T T3 \<Longrightarrow> fi_pre full X key lo hi bh3 T3 g \<Longrightarrow>
       \<exists>T'. FixupInsert_loop T3 g = Some T' \<and> fi_post full X key T3 T'"
  shows "\<exists>T'. FixupInsert_loop T n = Some T' \<and> fi_post full X key T T'"
proof -
  have L: "links_ok X T" and B: "bst_ok X key lo hi T" and n: "live T n" "n \<notin> X"
    and rb: "root_black T \<or> root T = Some n"
    and F: "full \<Longrightarrow> col T n = red" "full \<Longrightarrow> rr_ok X {n} T" "full \<Longrightarrow> bh_ok X bh T"
    using P by (simp_all add: fi_pre_def)
  note LD = links_okD[OF L] links_ok_root[OF L]
  have pl: "live T p" "p \<notin> X" "lf T p = Some n \<or> rt T p = Some n" using LD(2)[OF n p] by auto
  have gl: "live T g" "g \<notin> X" using LD(2)[OF pl(1,2) g] by auto
  have gp: "g \<noteq> p" using acyclic1[OF L B gl childI1[OF gl(1) lg]] .
  have chpn: "child T p n" using pl by (simp add: child_def)
  have pn: "p \<noteq> n" using acyclic1[OF L B pl(1,2) chpn] .
  have gn: "g \<noteq> n" using acyclic2[OF L B gl childI1[OF gl(1) lg] chpn] .
  have rbt: "root_black T" using rb LD(5)[of n] p by auto
  have nrg: "rt T g \<noteq> Some p" "Some p \<noteq> rt T g"
    using lf_neq_rt[OF L B gl lg] by auto
  have ng: "lf T n \<noteq> Some g"
  proof
    assume a: "lf T n = Some g"
    from acyclic3[OF L B gl childI1[OF gl(1) lg] chpn childI1[OF n(1) a]] show False by simp
  qed
  have ul: "\<And>u. rt T g = Some u \<Longrightarrow> live T u \<and> u \<notin> X \<and> pa T u = Some g \<and> u \<noteq> g \<and> u \<noteq> p"
  proof -
    fix u assume u: "rt T g = Some u"
    have "u \<noteq> g" using acyclic1[OF L B gl childI2[OF gl(1) u]] by simp
    moreover have "u \<noteq> p" using rt_neq_lf[OF L B gl u] lg by auto
    ultimately show "live T u \<and> u \<notin> X \<and> pa T u = Some g \<and> u \<noteq> g \<and> u \<noteq> p"
      using LD(4)[OF gl u] by simp
  qed
  show ?thesis
  proof (cases "\<exists>u. rt T g = Some u \<and> col T u = red")
    case True
    then obtain u where u: "rt T g = Some u" "col T u = red" by blast
    note ul' = ul[OF u(1)]
    from set_colour_spec[of T p black] pl(1) obtain T1 where
      T1: "set_colour p black T = Some T1" "same_links T T1" "rest_eq T T1" "col T1 = (col T)(p := black)"
      by blast
    have lv1: "live T1 = live T" using T1(2) by (simp add: same_links_def)
    from set_colour_spec[of T1 u black] ul' lv1 obtain T2 where
      T2: "set_colour u black T1 = Some T2" "same_links T1 T2" "rest_eq T1 T2" "col T2 = (col T1)(u := black)"
      by auto
    have lv2: "live T2 = live T" using T2(2) lv1 by (simp add: same_links_def)
    from set_colour_spec[of T2 g red] gl lv2 obtain T3 where
      T3: "set_colour g red T2 = Some T3" "same_links T2 T3" "rest_eq T2 T3" "col T3 = (col T2)(g := red)"
      by auto
    have S: "same_links T T3" using T1(2) T2(2) T3(2) by (blast intro: same_links_trans)
    have RE: "rest_eq T T3" using T1(3) T2(3) T3(3) by (blast intro: rest_eq_trans)
    have c3: "col T3 = (col T)(p := black, u := black, g := red)" using T1(4) T2(4) T3(4) by simp
    have step: "FixupInsert_loop T n = FixupInsert_loop T3 g"
      using n pl(1) gl p cp g lg nrg u ul' T1(1) T2(1) T3(1)
      by (subst FixupInsert_loop.simps) (simp add: getters is_red_simp)
    have sl: "root T3 = root T" "live T3 = live T" using S by (simp_all add: same_links_def)
    have rb3: "root_black T3 \<or> root T3 = Some g"
    proof (cases "root T = Some g")
      case True then show ?thesis using sl by simp
    next
      case False
      have "root_black T3" unfolding root_black_def
      proof (intro allI impI)
        fix r assume r: "root T3 = Some r"
        then have "col T r = black" using rbt sl by (simp add: root_black_def)
        then have "r \<noteq> p" "r \<noteq> u" using cp u(2) by auto
        then show "col T3 r = black" using c3 \<open>col T r = black\<close> r sl False by simp
      qed
      then show ?thesis ..
    qed
    have pre3: "fi_pre full X key lo hi (bh(p := Suc (bh p), u := Suc (bh u))) T3 g"
      unfolding fi_pre_def
    proof (intro conjI impI)
      show "links_ok X T3" using same_links_links_ok[OF S, of X] L by simp
      show "bst_ok X key lo hi T3" using same_links_bst_ok[OF S, where X=X and key=key and lo=lo and hi=hi] B by simp
      show "live T3 g" "g \<notin> X" using gl sl by simp_all
      show "root_black T3 \<or> root T3 = Some g" using rb3 .
    next
      assume full
      show "col T3 g = red" using c3 by simp
      from recolour_up[OF L B n p g _ _ cp u(2) F(1)[OF \<open>full\<close>] S c3 F(2)[OF \<open>full\<close>] F(3)[OF \<open>full\<close>]]
      show "rr_ok X {g} T3" "bh_ok X (bh(p := Suc (bh p), u := Suc (bh u))) T3"
        using u(1) ul' by auto
    qed
    from IH[OF S RE pre3] obtain T' where T': "FixupInsert_loop T3 g = Some T'" "fi_post full X key T3 T'"
      by blast
    show ?thesis using step T' fi_post_trans[OF RE T'(2)] by simp
  next
    case False
    then have cu: "\<forall>u. rt T g = Some u \<longrightarrow> col T u = black" by auto
    have ir: "is_red T (rt T g) = Some False"
      using cu ul by (cases "rt T g") (auto simp: is_red_simp)
    show ?thesis
    proof (cases "rt T p = Some n")
      case True
      from RotateLeft_inv[OF L B pl(1,2) True] obtain Ta where
        Ta: "RtlpRbTreeRotateLeft T p = Some Ta" "rotl_rel T p n Ta" "links_ok X Ta"
          "bst_ok X key (lo(n := lo p)) (hi(n := hi p, p := Some (key n))) Ta" by blast
      have va: "live Ta = live T" "col Ta = col T" "pa Ta p = Some n" "pa Ta n = Some g"
        "lf Ta g = Some n" "lf Ta n = Some p" "rt Ta g = rt T g" "pa Ta g = pa T g" "root Ta = root T"
        using Ta(2) g lg pn gp gn True LD(4)[OF pl(1,2) True] ul[of p] ul[of n] p ng
          acyclic1[OF L B n, of p] n(1)
        by (auto simp: rotl_rel_def rest_eq_def child_def)
      from set_colour_spec[of Ta n black] n(1) va(1) obtain T2 where
        T2: "set_colour n black Ta = Some T2" "same_links Ta T2" "rest_eq Ta T2" "col T2 = (col Ta)(n := black)"
        by auto
      have lv2: "live T2 = live T" using T2(2) va(1) by (simp add: same_links_def)
      from set_colour_spec[of T2 g red] gl lv2 obtain T3 where
        T3: "set_colour g red T2 = Some T3" "same_links T2 T3" "rest_eq T2 T3" "col T3 = (col T2)(g := red)"
        by auto
      have S3: "same_links Ta T3" using T2(2) T3(2) by (blast intro: same_links_trans)
      have c3: "col T3 = (col Ta)(n := black, g := red)" using T2(4) T3(4) by simp
      have L3: "links_ok X T3" using same_links_links_ok[OF S3, of X] Ta(3) by simp
      have B3: "bst_ok X key (lo(n := lo p)) (hi(n := hi p, p := Some (key n))) T3"
        using same_links_bst_ok[OF S3, where X=X and key=key and lo="lo(n := lo p)" and hi="hi(n := hi p, p := Some (key n))"] Ta(4) by simp
      have v3: "live T3 = live T" "lf T3 g = Some n" "pa T3 = pa Ta" "lf T3 = lf Ta" "rt T3 = rt Ta" "root T3 = root T"
        using S3 va by (simp_all add: same_links_def)
      have gl3: "live T3 g" using gl v3 by simp
      from RotateRight_inv[OF L3 B3 gl3 gl(2) v3(2)] obtain T4 where
        T4: "RtlpRbTreeRotateRight T3 g = Some T4" "rotr_rel T3 g n T4" "links_ok X T4"
          "\<exists>lo' hi'. bst_ok X key lo' hi' T4" by blast
      have rn: "rt Ta n \<noteq> Some p"
        using acyclic1[OF Ta(3,4), of p p] lf_neq_rt[OF Ta(3,4), of n p] va n pl(1)
        by (auto simp: child_def)
      have v4: "live T4 = live T" "pa T4 p = Some n" "col T4 n = black"
        using T4(2) v3 va c3 pn gp gn rn
        by (auto simp: rotr_rel_def rest_eq_def)
      have exit: "FixupInsert_loop T4 p = Some T4"
        using v4 pl(1) n(1)
        by (subst FixupInsert_loop.simps) (simp add: getters)
      have run: "FixupInsert_loop T n = Some T4"
        using n pl(1) gl p cp g lg nrg ir True Ta(1) va T2(1) T3(1) T4(1) exit
        by (subst FixupInsert_loop.simps) (simp add: getters)
      have RE: "rest_eq T T4"
        using rotl_rel_rest[OF Ta(2)] T2(3) T3(3) rotr_rel_rest[OF T4(2)] by (blast intro: rest_eq_trans)
      have colpart: "rr_ok X {} T4 \<and> (\<exists>bh'. bh_ok X bh' T4)" if "full"
      proof -
        from rotl_red_red[OF L B pl(1,2) True Ta(2) cp F(1)[OF that] F(2)[OF that] F(3)[OF that]]
        have a: "rr_ok X {p} Ta" "bh_ok X bh Ta" by simp_all
        have gla: "live Ta g" using gl va by simp
        have cua: "\<forall>u. rt Ta g = Some u \<longrightarrow> col Ta u = black" using cu va by simp
        from rotr_recolour[OF Ta(3,4) gla gl(2) va(5) va(6) S3 c3 T4(2) _ _ cua a]
        show ?thesis using va cp F(1)[OF that] by auto
      qed
      show ?thesis using run RE T4(3,4) colpart by (auto simp: fi_post_def)
    next
      case False
      then have ln: "lf T p = Some n" using pl(3) by simp
      from set_colour_spec[of T p black] pl(1) obtain T2 where
        T2: "set_colour p black T = Some T2" "same_links T T2" "rest_eq T T2" "col T2 = (col T)(p := black)"
        by auto
      have lv2: "live T2 = live T" using T2(2) by (simp add: same_links_def)
      from set_colour_spec[of T2 g red] gl lv2 obtain T3 where
        T3: "set_colour g red T2 = Some T3" "same_links T2 T3" "rest_eq T2 T3" "col T3 = (col T2)(g := red)"
        by auto
      have S3: "same_links T T3" using T2(2) T3(2) by (blast intro: same_links_trans)
      have c3: "col T3 = (col T)(p := black, g := red)" using T2(4) T3(4) by simp
      have L3: "links_ok X T3" using same_links_links_ok[OF S3, of X] L by simp
      have B3: "bst_ok X key lo hi T3" using same_links_bst_ok[OF S3, where X=X and key=key and lo=lo and hi=hi] B by simp
      have v3: "live T3 = live T" "lf T3 g = Some p" "pa T3 = pa T" "lf T3 = lf T" "rt T3 = rt T" "root T3 = root T"
        using S3 lg by (simp_all add: same_links_def)
      have gl3: "live T3 g" using gl v3 by simp
      from RotateRight_inv[OF L3 B3 gl3 gl(2) v3(2)] obtain T4 where
        T4: "RtlpRbTreeRotateRight T3 g = Some T4" "rotr_rel T3 g p T4" "links_ok X T4"
          "\<exists>lo' hi'. bst_ok X key lo' hi' T4" by blast
      have v4: "live T4 = live T" "pa T4 n = Some p" "col T4 p = black"
        using T4(2) v3 c3 pn gp gn False p
        by (auto simp: rotr_rel_def rest_eq_def)
      have exit: "FixupInsert_loop T4 n = Some T4"
        using v4 pl(1) n(1)
        by (subst FixupInsert_loop.simps) (simp add: getters)
      have run: "FixupInsert_loop T n = Some T4"
        using n pl(1) gl p cp g lg nrg ir False T2(1) T3(1) T4(1) exit
        by (subst FixupInsert_loop.simps) (simp add: getters)
      have RE: "rest_eq T T4"
        using T2(3) T3(3) rotr_rel_rest[OF T4(2)] by (blast intro: rest_eq_trans)
      have colpart: "rr_ok X {} T4 \<and> (\<exists>bh'. bh_ok X bh' T4)" if "full"
        using rotr_recolour[OF L B gl lg ln S3 c3 T4(2) cp F(1)[OF that] cu F(2)[OF that] F(3)[OF that]]
        by auto
      show ?thesis using run RE T4(3,4) colpart by (auto simp: fi_post_def)
    qed
  qed
qed

lemma rotr_red_red:
  assumes L: "links_ok X T" and B: "bst_ok X key lo hi T"
    and x: "live T x" "x \<notin> X" and y: "lf T x = Some y"
    and R: "rotr_rel T x y T'"
    and cx: "col T x = red" and cy: "col T y = red"
    and RR: "rr_ok X {y} T" and H: "bh_ok X bh T"
  shows "rr_ok X {x} T' \<and> bh_ok X bh T'"
proof -
  have T': "\<And>a. pa T' a = (if a = x then Some y else if a = y then pa T x
                     else if rt T y = Some a then Some x else pa T a)"
    "\<And>a. rt T' a = (if a = y then Some x
                     else if pa T x = Some a \<and> rt T a = Some x then Some y else rt T a)"
    "\<And>a. lf T' a = (if a = x then rt T y
                     else if pa T x = Some a \<and> rt T a \<noteq> Some x then Some y else lf T a)"
    using R by (simp_all add: rotr_rel_def)
  have lv: "live T' = live T" and cl: "col T' = col T" using R by (simp_all add: rotr_rel_def rest_eq_def)
  note LD = links_okD[OF L] links_ok_root[OF L]
  have yl: "live T y" "y \<notin> X" "pa T y = Some x" using LD(3)[OF x y] by auto
  have xy: "x \<noteq> y" using acyclic1[OF L B x childI1[OF x(1) y]] .
  note Hx = bh_okD[OF H x] and Hy = bh_okD[OF H yl(1,2)]
  have e: "bh x = bh y" "bhO bh (rt T x) = bh y" "bhO bh (rt T y) = bh y" "bhO bh (lf T y) = bh y"
    using Hx Hy y cx cy by simp_all
  have pax: "\<And>q. pa T x = Some q \<Longrightarrow> live T q \<and> q \<notin> X \<and> (lf T q = Some x \<or> rt T q = Some x) \<and> q \<noteq> x \<and> q \<noteq> y"
  proof -
    fix q assume q: "pa T x = Some q"
    have pl: "live T q" "q \<notin> X" "lf T q = Some x \<or> rt T q = Some x" using LD(2)[OF x q] by auto
    then have c: "child T q x" by (simp add: child_def)
    have "q \<noteq> x" using acyclic1[OF L B pl(1,2) c] .
    moreover have "q \<noteq> y" using acyclic2[OF L B pl(1,2) c childI1[OF x(1) y]] .
    ultimately show "live T q \<and> q \<notin> X \<and> (lf T q = Some x \<or> rt T q = Some x) \<and> q \<noteq> x \<and> q \<noteq> y"
      using pl by simp
  qed
  have nxx: "rt T x \<noteq> Some x" "rt T x \<noteq> Some y"
    using acyclic1[OF L B x, of x] rt_neq_lf[OF L B x, of y] y x(1) by (auto simp: child_def)
  have lx: "rt T' x = rt T x" using T'(2)[of x] xy pax[of x] by auto
  have ry: "lf T' y = lf T y" using T'(3)[of y] xy pax[of y] by auto
  have bh: "bh_ok X bh T'"
    unfolding bh_ok_def lv cl
  proof (intro allI impI, goal_cases)
    case (1 a)
    note a = 1
    note Ha = bh_okD[OF H, of a]
    consider (ax) "a = x" | (ay) "a = y" | (aq) "a \<noteq> x" "a \<noteq> y" "pa T x = Some a"
      | (ao) "a \<noteq> x" "a \<noteq> y" "pa T x \<noteq> Some a" by blast
    then show ?case
    proof cases
      case ax
      then show ?thesis using lx T'(3)[of x] e cx by simp
    next
      case ay
      then show ?thesis using ry T'(2)[of y] e cy by simp
    next
      case aq
      show ?thesis
      proof (cases "rt T a = Some x")
        case True
        have "rt T' a = Some y" "lf T' a = lf T a" using T'(2)[of a] T'(3)[of a] aq True by simp_all
        then show ?thesis using Ha a True e(1) by simp
      next
        case False
        then have r: "lf T a = Some x" using pax[of a] aq by simp
        have "rt T' a = rt T a" "lf T' a = Some y" using T'(2)[of a] T'(3)[of a] aq False by simp_all
        then show ?thesis using Ha a r e(1) by simp
      qed
    next
      case ao
      have "rt T' a = rt T a" "lf T' a = lf T a" using T'(2)[of a] T'(3)[of a] ao by simp_all
      then show ?thesis using Ha a by simp
    qed
  qed
  have rr: "rr_ok X {x} T'"
    unfolding rr_ok_def lv cl
  proof (intro allI impI)
    fix a c assume h: "live T a \<and> a \<notin> X \<and> col T a = red \<and> (lf T' a = Some c \<or> rt T' a = Some c) \<and> col T c = red"
    note Ra = rr_okD[OF RR, of a c]
    consider (ax) "a = x" | (ay) "a = y" | (aq) "a \<noteq> x" "a \<noteq> y" "pa T x = Some a"
      | (ao) "a \<noteq> x" "a \<noteq> y" "pa T x \<noteq> Some a" by blast
    then show "c \<in> {x}"
    proof cases
      case ax
      have "rt T x = Some c \<or> rt T y = Some c" using h ax lx T'(3)[of x] by auto
      then show ?thesis
        using rr_okD[OF RR x cx, of c] rr_okD[OF RR yl(1,2) cy, of c] h nxx
          acyclic1[OF L B yl(1,2), of y] yl(1) by (auto simp: child_def)
    next
      case ay
      have "c = x \<or> lf T y = Some c" using h ay ry T'(2)[of y] by auto
      then show ?thesis
        using rr_okD[OF RR yl(1,2) cy, of c] h acyclic1[OF L B yl(1,2), of y] yl(1)
        by (auto simp: child_def)
    next
      case aq
      have "lf T a = Some x \<or> rt T a = Some x" using pax[of a] aq by simp
      then have False using rr_okD[OF RR, of a x] h cx xy by auto
      then show ?thesis ..
    next
      case ao
      then have "lf T a = Some c \<or> rt T a = Some c" using h T'(2)[of a] T'(3)[of a] by auto
      then have "c = y" using Ra h by auto
      then have "a = x" using \<open>lf T a = Some c \<or> rt T a = Some c\<close> LD(4,3)[of a y] h yl(3) by auto
      then show ?thesis using ao by simp
    qed
  qed
  show ?thesis using rr bh by simp
qed
lemma rotl_recolour:
  assumes L: "links_ok X T" and B: "bst_ok X key lo hi T"
    and g: "live T g" "g \<notin> X" and p: "rt T g = Some p" and n: "rt T p = Some n"
    and S: "same_links T T3" and c3: "col T3 = (col T)(p := black, g := red)"
    and R: "rotl_rel T3 g p T4"
    and cp: "col T p = red" and cn: "col T n = red"
    and cu: "\<forall>u. lf T g = Some u \<longrightarrow> col T u = black"
    and RR: "rr_ok X {n} T" and H: "bh_ok X bh T"
  shows "rr_ok X {} T4 \<and> bh_ok X (bh(g := bh p, p := Suc (bh p))) T4"
proof -
  have sl: "pa T3 = pa T" "rt T3 = rt T" "lf T3 = lf T" "live T3 = live T"
    using S by (simp_all add: same_links_def)
  have T': "\<And>a. pa T4 a = (if a = g then Some p else if a = p then pa T g
                     else if lf T p = Some a then Some g else pa T a)"
    "\<And>a. lf T4 a = (if a = p then Some g
                     else if pa T g = Some a \<and> lf T a = Some g then Some p else lf T a)"
    "\<And>a. rt T4 a = (if a = g then lf T p
                     else if pa T g = Some a \<and> lf T a \<noteq> Some g then Some p else rt T a)"
    using R by (simp_all add: rotl_rel_def sl)
  have lv: "live T4 = live T" and cl: "col T4 = (col T)(p := black, g := red)"
    using R c3 by (simp_all add: rotl_rel_def rest_eq_def sl)
  note LD = links_okD[OF L] links_ok_root[OF L]
  have pl: "live T p" "p \<notin> X" "pa T p = Some g" using LD(4)[OF g p] by auto
  have nl: "live T n" "n \<notin> X" "pa T n = Some p" using LD(4)[OF pl(1,2) n] by auto
  have gp: "g \<noteq> p" using acyclic1[OF L B g childI2[OF g(1) p]] .
  have pn: "p \<noteq> n" using acyclic1[OF L B pl(1,2) childI2[OF pl(1) n]] .
  have gn: "g \<noteq> n" using acyclic2[OF L B g childI2[OF g(1) p] childI2[OF pl(1) n]] .
  have cg: "col T g = black"
  proof (rule ccontr)
    assume "col T g \<noteq> black"
    then have "col T g = red" by simp
    from rr_okD(2)[OF RR g this p cp] show False using pn by simp
  qed
  note Hg = bh_okD[OF H g] and Hp = bh_okD[OF H pl(1,2)]
  have e: "bh n = bh p" "bhO bh (lf T p) = bh p" "bh g = Suc (bh p)" "bhO bh (lf T g) = bh p"
    using Hg Hp p n cp cg by simp_all
  have rtp: "\<And>b. lf T p = Some b \<Longrightarrow> live T b \<and> b \<notin> X \<and> pa T b = Some p \<and> b \<noteq> g \<and> b \<noteq> p \<and> b \<noteq> n
      \<and> col T b = black"
  proof -
    fix b assume b: "lf T p = Some b"
    have bl: "live T b \<and> b \<notin> X \<and> pa T b = Some p" using LD(3)[OF pl(1,2) b] by simp
    have "b \<noteq> p" using acyclic1[OF L B pl(1,2) childI1[OF pl(1) b]] by simp
    moreover have "b \<noteq> g" using acyclic2[OF L B g childI2[OF g(1) p] childI1[OF pl(1) b]] by simp
    moreover have bn: "b \<noteq> n" using lf_neq_rt[OF L B pl(1,2) b] n by auto
    moreover have "col T b = black" using rr_okD(1)[OF RR pl(1,2) cp b] bn by (cases "col T b") auto
    ultimately show "live T b \<and> b \<notin> X \<and> pa T b = Some p \<and> b \<noteq> g \<and> b \<noteq> p \<and> b \<noteq> n \<and> col T b = black"
      using bl by simp
  qed
  have rtg: "\<And>u. lf T g = Some u \<Longrightarrow> live T u \<and> u \<notin> X \<and> pa T u = Some g \<and> u \<noteq> g \<and> u \<noteq> p \<and> col T u = black"
  proof -
    fix u assume u: "lf T g = Some u"
    have ul: "live T u \<and> u \<notin> X \<and> pa T u = Some g" using LD(3)[OF g u] by simp
    have "u \<noteq> g" using acyclic1[OF L B g childI1[OF g(1) u]] by simp
    moreover have "u \<noteq> p" using lf_neq_rt[OF L B g u] p by auto
    ultimately show "live T u \<and> u \<notin> X \<and> pa T u = Some g \<and> u \<noteq> g \<and> u \<noteq> p \<and> col T u = black"
      using ul cu u by simp
  qed
  have pag: "\<And>q. pa T g = Some q \<Longrightarrow> live T q \<and> q \<notin> X \<and> (lf T q = Some g \<or> rt T q = Some g) \<and> q \<noteq> g \<and> q \<noteq> p \<and> q \<noteq> n"
  proof -
    fix q assume q: "pa T g = Some q"
    have ql: "live T q" "q \<notin> X" "lf T q = Some g \<or> rt T q = Some g" using LD(2)[OF g q] by auto
    then have c: "child T q g" by (simp add: child_def)
    have "q \<noteq> g" using acyclic1[OF L B ql(1,2) c] .
    moreover have "q \<noteq> p" using acyclic2[OF L B ql(1,2) c childI2[OF g(1) p]] .
    moreover have "q \<noteq> n" using acyclic3[OF L B ql(1,2) c childI2[OF g(1) p] childI2[OF pl(1) n]] .
    ultimately show "live T q \<and> q \<notin> X \<and> (lf T q = Some g \<or> rt T q = Some g) \<and> q \<noteq> g \<and> q \<noteq> p \<and> q \<noteq> n"
      using ql by simp
  qed
  have vg: "rt T4 g = lf T p" "lf T4 g = lf T g"
    using T'(2)[of g] T'(3)[of g] gp pag[of g] by auto
  have vp: "rt T4 p = Some n" "lf T4 p = Some g"
    using T'(2)[of p] T'(3)[of p] gp pag[of p] n by auto
  let ?bh = "bh(g := bh p, p := Suc (bh p))"
  have bhB: "bhO ?bh (lf T p) = bh p" using e(2) rtp by (cases "lf T p") auto
  have bhU: "bhO ?bh (lf T g) = bh p" using e(4) rtg by (cases "lf T g") auto
  have bh: "bh_ok X ?bh T4"
    unfolding bh_ok_def lv cl
  proof (intro allI impI, goal_cases)
    case (1 a)
    note a = 1
    note Ha = bh_okD[OF H, of a]
    consider (ag) "a = g" | (ap) "a = p" | (aq) "a \<noteq> g" "a \<noteq> p" "pa T g = Some a"
      | (ao) "a \<noteq> g" "a \<noteq> p" "pa T g \<noteq> Some a" by blast
    then show ?case
    proof cases
      case ag
      then show ?thesis using vg bhB bhU gp by simp
    next
      case ap
      then show ?thesis using vp e(1) gp pn gn by simp
    next
      case aq
      have ch: "\<And>c. lf T a = Some c \<or> rt T a = Some c \<Longrightarrow> c \<noteq> p"
        using LD(4,3)[of a p] a pl(3) aq(1) by auto
      show ?thesis
      proof (cases "lf T a = Some g")
        case True
        have v: "rt T4 a = rt T a" "lf T4 a = Some p" using T'(2)[of a] T'(3)[of a] aq True by simp_all
        have "rt T a \<noteq> Some g" using lf_neq_rt[OF L B _ _ True] a by simp
        then have "bhO ?bh (rt T a) = bhO bh (rt T a)" using ch[of "the (rt T a)"] by (cases "rt T a") auto
        then show ?thesis using v Ha a True e(3) aq by simp
      next
        case False
        then have l: "rt T a = Some g" using pag[of a] aq by simp
        have v: "rt T4 a = Some p" "lf T4 a = lf T a" using T'(2)[of a] T'(3)[of a] aq False by simp_all
        have "lf T a \<noteq> Some g" using False by simp
        then have "bhO ?bh (lf T a) = bhO bh (lf T a)" using ch[of "the (lf T a)"] by (cases "lf T a") auto
        then show ?thesis using v Ha a l e(3) aq by simp
      qed
    next
      case ao
      have v: "rt T4 a = rt T a" "lf T4 a = lf T a" using T'(2)[of a] T'(3)[of a] ao by simp_all
      have ch: "\<And>c. lf T a = Some c \<or> rt T a = Some c \<Longrightarrow> c \<noteq> p \<and> c \<noteq> g"
        using LD(4,3)[of a p] LD(4,3)[of a g] a pl(3) ao by auto
      have "bhO ?bh (rt T a) = bhO bh (rt T a)" using ch[of "the (rt T a)"] by (cases "rt T a") auto
      moreover have "bhO ?bh (lf T a) = bhO bh (lf T a)" using ch[of "the (lf T a)"] by (cases "lf T a") auto
      ultimately show ?thesis using v Ha a ao by simp
    qed
  qed
  have rr: "rr_ok X {} T4"
    unfolding rr_ok_def lv cl
  proof (intro allI impI)
    fix a c assume h: "live T a \<and> a \<notin> X \<and> ((col T)(p := black, g := red)) a = red \<and>
        (lf T4 a = Some c \<or> rt T4 a = Some c) \<and> ((col T)(p := black, g := red)) c = red"
    then have ap: "a \<noteq> p" and cp': "c \<noteq> p" using gp by auto
    consider (ag) "a = g" | (aq) "a \<noteq> g" "pa T g = Some a"
      | (ao) "a \<noteq> g" "pa T g \<noteq> Some a" by blast
    then have False
    proof cases
      case ag
      then have "lf T p = Some c \<or> lf T g = Some c" using h vg by auto
      then show False using rtp[of c] rtg[of c] h by auto
    next
      case aq
      have ca: "col T a = red" using h aq ap by simp
      have v: "(lf T a = Some c \<or> rt T a = Some c) \<and> c \<noteq> g"
      proof (cases "lf T a = Some g")
        case True
        have "rt T4 a = rt T a" "lf T4 a = Some p" using T'(2)[of a] T'(3)[of a] aq ap True by simp_all
        moreover have "rt T a \<noteq> Some g" using lf_neq_rt[OF L B _ _ True] h by simp
        ultimately show ?thesis using h cp' by auto
      next
        case False
        then have l: "rt T a = Some g" using pag[of a] aq by simp
        have "rt T4 a = Some p" "lf T4 a = lf T a" using T'(2)[of a] T'(3)[of a] aq ap False by simp_all
        then show ?thesis using h cp' False by auto
      qed
      moreover have "col T c = red" using h cp' v by simp
      ultimately have "c = n" using rr_okD[OF RR _ _ ca, of c] h by auto
      then show False using v LD(4,3)[of a n] h nl(3) ap by auto
    next
      case ao
      have ca: "col T a = red" using h ao ap by simp
      have v: "lf T a = Some c \<or> rt T a = Some c" using h T'(2)[of a] T'(3)[of a] ao ap by (auto split: if_splits)
      have "c \<noteq> g" using v LD(4,3)[of a g] h ao by auto
      then have "col T c = red" using h cp' by simp
      then have "c = n" using rr_okD[OF RR _ _ ca, of c] h v by auto
      then show False using v LD(4,3)[of a n] h nl(3) ap by auto
    qed
    then show "c \<in> {}" ..
  qed
  show ?thesis using rr bh by simp
qed
lemma fi_right:
  assumes P: "fi_pre full X key lo hi bh T n"
    and p: "pa T n = Some p" and cp: "col T p = red" and g: "pa T p = Some g"
    and lg: "rt T g = Some p"
    and IH: "\<And>T3 bh3. same_links T T3 \<Longrightarrow> rest_eq T T3 \<Longrightarrow> fi_pre full X key lo hi bh3 T3 g \<Longrightarrow>
       \<exists>T'. FixupInsert_loop T3 g = Some T' \<and> fi_post full X key T3 T'"
  shows "\<exists>T'. FixupInsert_loop T n = Some T' \<and> fi_post full X key T T'"
proof -
  have L: "links_ok X T" and B: "bst_ok X key lo hi T" and n: "live T n" "n \<notin> X"
    and rb: "root_black T \<or> root T = Some n"
    and F: "full \<Longrightarrow> col T n = red" "full \<Longrightarrow> rr_ok X {n} T" "full \<Longrightarrow> bh_ok X bh T"
    using P by (simp_all add: fi_pre_def)
  note LD = links_okD[OF L] links_ok_root[OF L]
  have pl: "live T p" "p \<notin> X" "lf T p = Some n \<or> rt T p = Some n" using LD(2)[OF n p] by auto
  have gl: "live T g" "g \<notin> X" using LD(2)[OF pl(1,2) g] by auto
  have gp: "g \<noteq> p" using acyclic1[OF L B gl childI2[OF gl(1) lg]] .
  have chpn: "child T p n" using pl by (simp add: child_def)
  have pn: "p \<noteq> n" using acyclic1[OF L B pl(1,2) chpn] .
  have gn: "g \<noteq> n" using acyclic2[OF L B gl childI2[OF gl(1) lg] chpn] .
  have rbt: "root_black T" using rb LD(5)[of n] p by auto
  have nrg: "lf T g \<noteq> Some p" "Some p \<noteq> lf T g"
    using rt_neq_lf[OF L B gl lg] by auto
  have ng: "rt T n \<noteq> Some g"
  proof
    assume a: "rt T n = Some g"
    from acyclic3[OF L B gl childI2[OF gl(1) lg] chpn childI2[OF n(1) a]] show False by simp
  qed
  have ul: "\<And>u. lf T g = Some u \<Longrightarrow> live T u \<and> u \<notin> X \<and> pa T u = Some g \<and> u \<noteq> g \<and> u \<noteq> p"
  proof -
    fix u assume u: "lf T g = Some u"
    have "u \<noteq> g" using acyclic1[OF L B gl childI1[OF gl(1) u]] by simp
    moreover have "u \<noteq> p" using lf_neq_rt[OF L B gl u] lg by auto
    ultimately show "live T u \<and> u \<notin> X \<and> pa T u = Some g \<and> u \<noteq> g \<and> u \<noteq> p"
      using LD(3)[OF gl u] by simp
  qed
  show ?thesis
  proof (cases "\<exists>u. lf T g = Some u \<and> col T u = red")
    case True
    then obtain u where u: "lf T g = Some u" "col T u = red" by blast
    note ul' = ul[OF u(1)]
    from set_colour_spec[of T p black] pl(1) obtain T1 where
      T1: "set_colour p black T = Some T1" "same_links T T1" "rest_eq T T1" "col T1 = (col T)(p := black)"
      by blast
    have lv1: "live T1 = live T" using T1(2) by (simp add: same_links_def)
    from set_colour_spec[of T1 u black] ul' lv1 obtain T2 where
      T2: "set_colour u black T1 = Some T2" "same_links T1 T2" "rest_eq T1 T2" "col T2 = (col T1)(u := black)"
      by auto
    have lv2: "live T2 = live T" using T2(2) lv1 by (simp add: same_links_def)
    from set_colour_spec[of T2 g red] gl lv2 obtain T3 where
      T3: "set_colour g red T2 = Some T3" "same_links T2 T3" "rest_eq T2 T3" "col T3 = (col T2)(g := red)"
      by auto
    have S: "same_links T T3" using T1(2) T2(2) T3(2) by (blast intro: same_links_trans)
    have RE: "rest_eq T T3" using T1(3) T2(3) T3(3) by (blast intro: rest_eq_trans)
    have c3: "col T3 = (col T)(p := black, u := black, g := red)" using T1(4) T2(4) T3(4) by simp
    have step: "FixupInsert_loop T n = FixupInsert_loop T3 g"
      using n pl(1) gl p cp g lg nrg u ul' T1(1) T2(1) T3(1)
      by (subst FixupInsert_loop.simps) (simp add: getters is_red_simp)
    have sl: "root T3 = root T" "live T3 = live T" using S by (simp_all add: same_links_def)
    have rb3: "root_black T3 \<or> root T3 = Some g"
    proof (cases "root T = Some g")
      case True then show ?thesis using sl by simp
    next
      case False
      have "root_black T3" unfolding root_black_def
      proof (intro allI impI)
        fix r assume r: "root T3 = Some r"
        then have "col T r = black" using rbt sl by (simp add: root_black_def)
        then have "r \<noteq> p" "r \<noteq> u" using cp u(2) by auto
        then show "col T3 r = black" using c3 \<open>col T r = black\<close> r sl False by simp
      qed
      then show ?thesis ..
    qed
    have pre3: "fi_pre full X key lo hi (bh(p := Suc (bh p), u := Suc (bh u))) T3 g"
      unfolding fi_pre_def
    proof (intro conjI impI)
      show "links_ok X T3" using same_links_links_ok[OF S, of X] L by simp
      show "bst_ok X key lo hi T3" using same_links_bst_ok[OF S, where X=X and key=key and hi=hi and lo=lo] B by simp
      show "live T3 g" "g \<notin> X" using gl sl by simp_all
      show "root_black T3 \<or> root T3 = Some g" using rb3 .
    next
      assume full
      show "col T3 g = red" using c3 by simp
      from recolour_up[OF L B n p g _ _ cp u(2) F(1)[OF \<open>full\<close>] S c3 F(2)[OF \<open>full\<close>] F(3)[OF \<open>full\<close>]]
      show "rr_ok X {g} T3" "bh_ok X (bh(p := Suc (bh p), u := Suc (bh u))) T3"
        using u(1) ul' by auto
    qed
    from IH[OF S RE pre3] obtain T' where T': "FixupInsert_loop T3 g = Some T'" "fi_post full X key T3 T'"
      by blast
    show ?thesis using step T' fi_post_trans[OF RE T'(2)] by simp
  next
    case False
    then have cu: "\<forall>u. lf T g = Some u \<longrightarrow> col T u = black" by auto
    have ir: "is_red T (lf T g) = Some False"
      using cu ul by (cases "lf T g") (auto simp: is_red_simp)
    show ?thesis
    proof (cases "lf T p = Some n")
      case True
      from RotateRight_inv[OF L B pl(1,2) True] obtain Ta where
        Ta: "RtlpRbTreeRotateRight T p = Some Ta" "rotr_rel T p n Ta" "links_ok X Ta"
          "bst_ok X key (lo(n := lo p, p := Some (key n))) (hi(n := hi p)) Ta" by blast
      have va: "live Ta = live T" "col Ta = col T" "pa Ta p = Some n" "pa Ta n = Some g"
        "rt Ta g = Some n" "rt Ta n = Some p" "lf Ta g = lf T g" "pa Ta g = pa T g" "root Ta = root T"
        using Ta(2) g lg pn gp gn True LD(3)[OF pl(1,2) True] ul[of p] ul[of n] p ng
          acyclic1[OF L B n, of p] n(1)
        by (auto simp: rotr_rel_def rest_eq_def child_def)
      from set_colour_spec[of Ta n black] n(1) va(1) obtain T2 where
        T2: "set_colour n black Ta = Some T2" "same_links Ta T2" "rest_eq Ta T2" "col T2 = (col Ta)(n := black)"
        by auto
      have lv2: "live T2 = live T" using T2(2) va(1) by (simp add: same_links_def)
      from set_colour_spec[of T2 g red] gl lv2 obtain T3 where
        T3: "set_colour g red T2 = Some T3" "same_links T2 T3" "rest_eq T2 T3" "col T3 = (col T2)(g := red)"
        by auto
      have S3: "same_links Ta T3" using T2(2) T3(2) by (blast intro: same_links_trans)
      have c3: "col T3 = (col Ta)(n := black, g := red)" using T2(4) T3(4) by simp
      have L3: "links_ok X T3" using same_links_links_ok[OF S3, of X] Ta(3) by simp
      have B3: "bst_ok X key (lo(n := lo p, p := Some (key n))) (hi(n := hi p)) T3"
        using same_links_bst_ok[OF S3, where X=X and key=key and hi="hi(n := hi p)" and lo="lo(n := lo p, p := Some (key n))"] Ta(4) by simp
      have v3: "live T3 = live T" "rt T3 g = Some n" "pa T3 = pa Ta" "rt T3 = rt Ta" "lf T3 = lf Ta" "root T3 = root T"
        using S3 va by (simp_all add: same_links_def)
      have gl3: "live T3 g" using gl v3 by simp
      from RotateLeft_inv[OF L3 B3 gl3 gl(2) v3(2)] obtain T4 where
        T4: "RtlpRbTreeRotateLeft T3 g = Some T4" "rotl_rel T3 g n T4" "links_ok X T4"
          "\<exists>hi' lo'. bst_ok X key lo' hi' T4" by blast
      have rn: "lf Ta n \<noteq> Some p"
        using acyclic1[OF Ta(3,4), of p p] rt_neq_lf[OF Ta(3,4), of n p] va n pl(1)
        by (auto simp: child_def)
      have v4: "live T4 = live T" "pa T4 p = Some n" "col T4 n = black"
        using T4(2) v3 va c3 pn gp gn rn
        by (auto simp: rotl_rel_def rest_eq_def)
      have exit: "FixupInsert_loop T4 p = Some T4"
        using v4 pl(1) n(1)
        by (subst FixupInsert_loop.simps) (simp add: getters)
      have run: "FixupInsert_loop T n = Some T4"
        using n pl(1) gl p cp g lg nrg ir True Ta(1) va T2(1) T3(1) T4(1) exit
        by (subst FixupInsert_loop.simps) (simp add: getters)
      have RE: "rest_eq T T4"
        using rotr_rel_rest[OF Ta(2)] T2(3) T3(3) rotl_rel_rest[OF T4(2)] by (blast intro: rest_eq_trans)
      have colpart: "rr_ok X {} T4 \<and> (\<exists>bh'. bh_ok X bh' T4)" if "full"
      proof -
        from rotr_red_red[OF L B pl(1,2) True Ta(2) cp F(1)[OF that] F(2)[OF that] F(3)[OF that]]
        have a: "rr_ok X {p} Ta" "bh_ok X bh Ta" by simp_all
        have gla: "live Ta g" using gl va by simp
        have cua: "\<forall>u. lf Ta g = Some u \<longrightarrow> col Ta u = black" using cu va by simp
        from rotl_recolour[OF Ta(3,4) gla gl(2) va(5) va(6) S3 c3 T4(2) _ _ cua a]
        show ?thesis using va cp F(1)[OF that] by auto
      qed
      show ?thesis using run RE T4(3,4) colpart by (auto simp: fi_post_def)
    next
      case False
      then have ln: "rt T p = Some n" using pl(3) by simp
      from set_colour_spec[of T p black] pl(1) obtain T2 where
        T2: "set_colour p black T = Some T2" "same_links T T2" "rest_eq T T2" "col T2 = (col T)(p := black)"
        by auto
      have lv2: "live T2 = live T" using T2(2) by (simp add: same_links_def)
      from set_colour_spec[of T2 g red] gl lv2 obtain T3 where
        T3: "set_colour g red T2 = Some T3" "same_links T2 T3" "rest_eq T2 T3" "col T3 = (col T2)(g := red)"
        by auto
      have S3: "same_links T T3" using T2(2) T3(2) by (blast intro: same_links_trans)
      have c3: "col T3 = (col T)(p := black, g := red)" using T2(4) T3(4) by simp
      have L3: "links_ok X T3" using same_links_links_ok[OF S3, of X] L by simp
      have B3: "bst_ok X key lo hi T3" using same_links_bst_ok[OF S3, where X=X and key=key and hi=hi and lo=lo] B by simp
      have v3: "live T3 = live T" "rt T3 g = Some p" "pa T3 = pa T" "rt T3 = rt T" "lf T3 = lf T" "root T3 = root T"
        using S3 lg by (simp_all add: same_links_def)
      have gl3: "live T3 g" using gl v3 by simp
      from RotateLeft_inv[OF L3 B3 gl3 gl(2) v3(2)] obtain T4 where
        T4: "RtlpRbTreeRotateLeft T3 g = Some T4" "rotl_rel T3 g p T4" "links_ok X T4"
          "\<exists>hi' lo'. bst_ok X key lo' hi' T4" by blast
      have v4: "live T4 = live T" "pa T4 n = Some p" "col T4 p = black"
        using T4(2) v3 c3 pn gp gn False p
        by (auto simp: rotl_rel_def rest_eq_def)
      have exit: "FixupInsert_loop T4 n = Some T4"
        using v4 pl(1) n(1)
        by (subst FixupInsert_loop.simps) (simp add: getters)
      have run: "FixupInsert_loop T n = Some T4"
        using n pl(1) gl p cp g lg nrg ir False T2(1) T3(1) T4(1) exit
        by (subst FixupInsert_loop.simps) (simp add: getters)
      have RE: "rest_eq T T4"
        using T2(3) T3(3) rotl_rel_rest[OF T4(2)] by (blast intro: rest_eq_trans)
      have colpart: "rr_ok X {} T4 \<and> (\<exists>bh'. bh_ok X bh' T4)" if "full"
        using rotl_recolour[OF L B gl lg ln S3 c3 T4(2) cp F(1)[OF that] cu F(2)[OF that] F(3)[OF that]]
        by auto
      show ?thesis using run RE T4(3,4) colpart by (auto simp: fi_post_def)
    qed
  qed
qed

lemma below_le_live: "card (below key lo hi X T a) \<le> card {c. live T c}" if "links_ok X T"
  by (rule card_mono[OF links_ok_finite[OF that]]) (auto simp: below_def)

lemma FixupInsert_loop_spec:
  "fi_pre full X key lo hi bh T n \<Longrightarrow> \<exists>T'. FixupInsert_loop T n = Some T' \<and> fi_post full X key T T'"
proof (induction "card {c. live T c} - card (below key lo hi X T n)" arbitrary: T n bh rule: less_induct)
  case less
  note P = less.prems
  have L: "links_ok X T" and B: "bst_ok X key lo hi T" and n: "live T n" "n \<notin> X"
    and rb: "root_black T \<or> root T = Some n"
    and F: "full \<Longrightarrow> rr_ok X {n} T" "full \<Longrightarrow> bh_ok X bh T"
    using P by (simp_all add: fi_pre_def)
  note LD = links_okD[OF L] links_ok_root[OF L]
  have post0: "fi_post full X key T T" if "\<forall>p. pa T n = Some p \<longrightarrow> col T p = black"
    unfolding fi_post_def using L B F rr_ok_no_parent[OF L _ that] by auto
  show ?case
  proof (cases "pa T n")
    case None
    have "FixupInsert_loop T n = Some T" using n None
      by (subst FixupInsert_loop.simps) (simp add: getters)
    then show ?thesis using post0 None by simp
  next
    case (Some p)
    have pl: "live T p" "p \<notin> X" "lf T p = Some n \<or> rt T p = Some n" using LD(2)[OF n Some] by auto
    show ?thesis
    proof (cases "col T p = red")
      case False
      have "FixupInsert_loop T n = Some T" using n Some pl(1) False
        by (subst FixupInsert_loop.simps) (simp add: getters)
      then show ?thesis using post0 Some False by simp
    next
      case True
      have rbt: "root_black T" using rb LD(5)[of n] Some by auto
      obtain g where g: "pa T p = Some g"
      proof (cases "pa T p")
        case None
        then have "root T = Some p" using LD(1)[OF pl(1,2)] by simp
        then have "col T p = black" using rbt by (simp add: root_black_def)
        then show ?thesis using True by simp
      next
        case (Some g) then show ?thesis using that by simp
      qed
      have gl: "live T g" "g \<notin> X" "lf T g = Some p \<or> rt T g = Some p" using LD(2)[OF pl(1,2) g] by auto
      have chpn: "child T p n" using pl by (simp add: child_def)
      have chgp: "child T g p" using gl by (simp add: child_def)
      have m: "card (below key lo hi X T n) < card (below key lo hi X T g)"
        using child_card_less[OF L B pl(1,2) chpn] child_card_less[OF L B gl(1,2) chgp] by simp
      have IH: "\<exists>T'. FixupInsert_loop T3 g = Some T' \<and> fi_post full X key T3 T'"
        if S: "same_links T T3" and "rest_eq T T3" and P3: "fi_pre full X key lo hi bh3 T3 g" for T3 bh3
      proof -
        have e: "{c. live T3 c} = {c. live T c}" "below key lo hi X T3 = below key lo hi X T"
          using S same_links_below[OF S, where X=X and key=key and lo=lo and hi=hi]
          by (simp_all add: same_links_def)
        have "card {c. live T3 c} - card (below key lo hi X T3 g) < card {c. live T c} - card (below key lo hi X T n)"
          using m below_le_live[OF L, of key lo hi g] by (simp add: e)
        from less.hyps[OF this P3] show ?thesis .
      qed
      show ?thesis
      proof (cases "lf T g = Some p")
        case True
        show ?thesis by (rule fi_left[OF P Some \<open>col T p = red\<close> g True]) (rule IH)
      next
        case False
        then have "rt T g = Some p" using gl(3) by simp
        show ?thesis by (rule fi_right[OF P Some \<open>col T p = red\<close> g \<open>rt T g = Some p\<close>]) (rule IH)
      qed
    qed
  qed
qed

lemma FixupInsert_spec:
  assumes P: "fi_pre full X key lo hi bh T n"
  shows "\<exists>T'. RtlpRbTreeFixupInsert T n = Some T' \<and> fi_post full X key T T' \<and> root_black T'"
proof -
  from FixupInsert_loop_spec[OF P] obtain T1 where
    T1: "FixupInsert_loop T n = Some T1" "fi_post full X key T T1" by blast
  have L1: "links_ok X T1" and RE: "rest_eq T T1" using T1(2) by (simp_all add: fi_post_def)
  obtain lo1 hi1 where B1: "bst_ok X key lo1 hi1 T1" using T1(2) unfolding fi_post_def by blast
  have n: "live T1 n" "n \<notin> X" using P RE by (simp_all add: fi_pre_def rest_eq_def)
  from desc_root[OF L1 B1 n] obtain r where r: "root T1 = Some r" by blast
  have rl: "live T1 r" "r \<notin> X" "pa T1 r = None" using links_ok_root[OF L1 r] by auto
  from set_colour_spec[OF rl(1), of black] obtain T2 where
    T2: "set_colour r black T1 = Some T2" "same_links T1 T2" "rest_eq T1 T2" "col T2 = (col T1)(r := black)"
    by blast
  have sl: "root T2 = root T1" "live T2 = live T1" "pa T2 = pa T1" "lf T2 = lf T1" "rt T2 = rt T1"
    using T2(2) by (simp_all add: same_links_def)
  have run: "RtlpRbTreeFixupInsert T n = Some T2"
    using T1(1) r T2(1) by (simp add: RtlpRbTreeFixupInsert_def)
  have rbk: "root_black T2" using sl r T2(4) by (simp add: root_black_def)
  have nr: "\<And>a. live T1 a \<and> a \<notin> X \<Longrightarrow> lf T1 a \<noteq> Some r \<and> rt T1 a \<noteq> Some r"
    using links_okD(3,4)[OF L1, of _ r] rl(3) by fastforce
  have colpart: "rr_ok X {} T2 \<and> (\<exists>bh'. bh_ok X bh' T2)" if "full"
  proof -
    from T1(2) that obtain bh1 where c: "rr_ok X {} T1" "bh_ok X bh1 T1" unfolding fi_post_def by blast
    have "rr_ok X {} T2" using c(1) unfolding rr_ok_def sl T2(4) by (auto split: if_splits)
    moreover have "bh_ok X (bh1(r := Suc (bhO bh1 (lf T1 r)))) T2"
      unfolding bh_ok_def sl T2(4)
    proof (intro allI impI, goal_cases)
      case (1 a)
      have k: "bhO (bh1(r := Suc (bhO bh1 (lf T1 r)))) (lf T1 a) = bhO bh1 (lf T1 a)"
        "bhO (bh1(r := Suc (bhO bh1 (lf T1 r)))) (rt T1 a) = bhO bh1 (rt T1 a)"
        using nr[OF 1] by (cases "lf T1 a"; cases "rt T1 a"; auto)+
      show ?case using bh_okD[OF c(2), of a] 1 by (auto simp: k)
    qed
    ultimately show ?thesis by blast
  qed
  have "fi_post full X key T T2"
    unfolding fi_post_def
    using rest_eq_trans[OF RE T2(3)] same_links_links_ok[OF T2(2), of X] L1
      same_links_bst_ok[OF T2(2), where X=X and key=key and lo=lo1 and hi=hi1] B1 colpart
    by auto
  then show ?thesis using run rbk by blast
qed

subsection \<open>Insertion\<close>

lemma views_mem_update:
  "live (T\<lparr>pool := q, mem := (mem T)(a \<mapsto> blk)\<rparr>) = (live T)(a := True)"
  "pa (T\<lparr>pool := q, mem := (mem T)(a \<mapsto> blk)\<rparr>) = (pa T)(a := parent blk)"
  "lf (T\<lparr>pool := q, mem := (mem T)(a \<mapsto> blk)\<rparr>) = (lf T)(a := left blk)"
  "rt (T\<lparr>pool := q, mem := (mem T)(a \<mapsto> blk)\<rparr>) = (rt T)(a := right blk)"
  "col (T\<lparr>pool := q, mem := (mem T)(a \<mapsto> blk)\<rparr>) = (col T)(a := colour blk)"
  "obj (T\<lparr>pool := q, mem := (mem T)(a \<mapsto> blk)\<rparr>) = (obj T)(a := Some (object blk))"
  by (auto simp: live_def pa_def lf_def rt_def col_def obj_def fun_eq_iff)

lemma dead_views: "\<not> live T a \<Longrightarrow> pa T a = None \<and> lf T a = None \<and> rt T a = None \<and> obj T a = None"
  by (simp add: live_def pa_def lf_def rt_def obj_def)

lemma alloc_init:
  assumes pl: "pool T = (a, blk) # rest" and na: "\<not> live T a"
  shows "\<exists>T4. ExAllocateFromLookasideListEx T = (Some a, T\<lparr>pool := rest, mem := (mem T)(a \<mapsto> blk)\<rparr>) \<and>
     (set_parent a None (T\<lparr>pool := rest, mem := (mem T)(a \<mapsto> blk)\<rparr>) \<bind> set_left a None
        \<bind> set_right a None \<bind> set_colour a red) = Some T4 \<and> fresh_rel T a T4 \<and>
     mem T4 a = Some (blk\<lparr>parent := None, left := None, right := None, colour := red\<rparr>)"
  using assms dead_views[OF na]
  by (auto simp: ExAllocateFromLookasideListEx_def setters views_mem_update view_upd fresh_rel_def
      fun_eq_iff upd_def)

lemma fresh_links:
  assumes F: "fresh_rel T a T4" and na: "\<not> live T a" and L: "links_ok {} T"
  shows "links_ok {a} T4"
proof -
  have v: "root T4 = root T" "live T4 = (live T)(a := True)" "pa T4 = pa T" "lf T4 = lf T" "rt T4 = rt T"
    using F by (simp_all add: fresh_rel_def)
  have fin: "finite {c. ((live T)(a := True)) c}"
  proof -
    have "{c. ((live T)(a := True)) c} \<subseteq> insert a {c. live T c}" by auto
    then show ?thesis using links_ok_finite[OF L] by (meson finite.insertI finite_subset)
  qed
  have r: "\<And>r. root T = Some r \<Longrightarrow> live T r \<and> pa T r = None" using links_ok_root[OF L] by auto
  note LD = links_okD[OF L]
  show ?thesis unfolding links_ok_def v
  proof (intro conjI allI impI, goal_cases)
    case 1 show ?case using fin .
  next
    case (2 r) then show ?case using r by simp
  next
    case (3 r) then show ?case using r na by auto
  next
    case (4 r) then show ?case using r by simp
  next
    case (5 b) then show ?case using LD(1)[of b] by simp
  next
    case (6 b p) then show ?case using LD(2)[of b p] by simp
  next
    case (7 b p) then show ?case using LD(2)[of b p] na by auto
  next
    case (8 b p) then show ?case using LD(2)[of b p] by auto
  next
    case (9 b c) then show ?case using LD(3)[of b c] by simp
  next
    case (10 b c) then show ?case using LD(3)[of b c] na by auto
  next
    case (11 b c) then show ?case using LD(3)[of b c] by simp
  next
    case (12 b c) then show ?case using LD(4)[of b c] by simp
  next
    case (13 b c) then show ?case using LD(4)[of b c] na by auto
  next
    case (14 b c) then show ?case using LD(4)[of b c] by simp
  qed
qed

lemma fresh_inv:
  assumes F: "fresh_rel T a T4" and na: "\<not> live T a"
  shows "bst_ok {} key lo hi T \<Longrightarrow> bst_ok {a} key lo hi T4"
    and "keys_ok {} keyof key T \<Longrightarrow> keys_ok {a} keyof key T4"
    and "rr_ok {} {} T \<Longrightarrow> links_ok {} T \<Longrightarrow> rr_ok {a} {} T4"
    and "bh_ok {} bh T \<Longrightarrow> bh_ok {a} bh T4"
    and "cmp_ok keyof T \<Longrightarrow> cmp_ok keyof T4"
    and "root_black T \<Longrightarrow> links_ok {} T \<Longrightarrow> root_black T4"
proof -
  have v: "root T4 = root T" "live T4 = (live T)(a := True)" "pa T4 = pa T" "lf T4 = lf T" "rt T4 = rt T"
    "col T4 = (col T)(a := red)" "\<And>b. b \<noteq> a \<Longrightarrow> obj T4 b = obj T b" "compare T4 = compare T"
    using F by (simp_all add: fresh_rel_def)
  show "bst_ok {} key lo hi T \<Longrightarrow> bst_ok {a} key lo hi T4"
    unfolding bst_ok_def v by simp
  show "keys_ok {} keyof key T \<Longrightarrow> keys_ok {a} keyof key T4"
    unfolding keys_ok_def using v(7) by auto
  show "cmp_ok keyof T \<Longrightarrow> cmp_ok keyof T4"
    unfolding cmp_ok_def v by simp
  show "root_black T \<Longrightarrow> links_ok {} T \<Longrightarrow> root_black T4"
    unfolding root_black_def v using na links_ok_root[of "{}" T] by auto
  show "rr_ok {} {} T \<Longrightarrow> links_ok {} T \<Longrightarrow> rr_ok {a} {} T4"
  proof -
    assume R: "rr_ok {} {} T" and L: "links_ok {} T"
    show ?thesis unfolding rr_ok_def v
    proof (intro allI impI, goal_cases)
      case (1 b c)
      then have b: "b \<noteq> a" "live T b" "col T b = red" "lf T b = Some c \<or> rt T b = Some c"
        by (auto split: if_splits)
      have "live T c" using links_okD(3,4)[OF L b(2), of c] b(4) by auto
      then have "c \<noteq> a" using na by auto
      then have "col T c = red" using 1 by simp
      then show ?case using R b unfolding rr_ok_def by blast
    qed
  qed
  show "bh_ok {} bh T \<Longrightarrow> bh_ok {a} bh T4"
    unfolding bh_ok_def v by simp
qed

lemma link_left:
  assumes L: "links_ok {a} T" and B: "bst_ok {a} key lo hi T"
    and a: "live T a" "pa T a = None" "lf T a = None" "rt T a = None"
    and p: "live T p" "p \<noteq> a" and lp: "lf T p = None"
    and ik: "inb (lo p) (hi p) k" and kp: "k < key p"
    and V: "live T6 = live T" "root T6 = root T" "pa T6 = (pa T)(a := Some p)"
       "lf T6 = (lf T)(p := Some a)" "rt T6 = rt T" "col T6 = col T"
  shows "links_ok {} T6"
    and "bst_ok {} (key(a := k)) (lo(a := lo p)) (hi(a := Some (key p))) T6"
    and "col T a = red \<Longrightarrow> rr_ok {a} {} T \<Longrightarrow> rr_ok {} {a} T6"
    and "col T a = red \<Longrightarrow> bh_ok {a} bh T \<Longrightarrow> bh_ok {} (bh(a := 0)) T6"
proof -
  note LD = links_okD[OF L] links_ok_root[OF L]
  note BD = bst_okD[OF B]
  have px: "p \<notin> {a}" using p by simp
  have ne: "c \<noteq> a \<and> live T c \<and> pa T c = Some b"
    if "live T b" "b \<noteq> a" "lf T b = Some c \<or> rt T b = Some c" for b c
  proof -
    have "b \<notin> {a}" using that(2) by simp
    from LD(3)[OF that(1) this, of c] LD(4)[OF that(1) this, of c] that(3) show ?thesis by auto
  qed
  have nep: "q \<noteq> a \<and> live T q \<and> (lf T q = Some b \<or> rt T q = Some b)"
    if "live T b" "b \<noteq> a" "pa T b = Some q" for b q
  proof -
    have "b \<notin> {a}" using that(2) by simp
    from LD(2)[OF that(1) this that(3)] show ?thesis by auto
  qed
  show "links_ok {} T6" unfolding links_ok_def V
  proof (intro conjI allI impI, goal_cases)
    case 1 show ?case using links_ok_finite[OF L] .
  next
    case (2 r) then show ?case using LD(5) by simp
  next
    case (3 r) then show ?case by simp
  next
    case (4 r) then show ?case using LD(5)[of r] by auto
  next
    case (5 b) then show ?case using LD(1)[of b] by (cases "b = a") (auto split: if_splits)
  next
    case (6 b q) then show ?case using nep[of b q] p by (cases "b = a") (auto split: if_splits)
  next
    case (7 b q) then show ?case by simp
  next
    case (8 b q)
    show ?case
    proof (cases "b = a")
      case True then show ?thesis using 8 by simp
    next
      case False
      then have "lf T q = Some b \<or> rt T q = Some b" using nep[of b q] 8 by simp
      then show ?thesis using lp by auto
    qed
  next
    case (9 b c) then show ?case using ne[of b c] a p lp by (cases "b = a") (auto split: if_splits)
  next
    case (10 b c) then show ?case by simp
  next
    case (11 b c) then show ?case using ne[of b c] a p lp by (cases "b = a") (auto split: if_splits)
  next
    case (12 b c) then show ?case using ne[of b c] a p lp by (cases "b = a") (auto split: if_splits)
  next
    case (13 b c) then show ?case by simp
  next
    case (14 b c) then show ?case using ne[of b c] a p lp by (cases "b = a") (auto split: if_splits)
  qed
  show "bst_ok {} (key(a := k)) (lo(a := lo p)) (hi(a := Some (key p))) T6"
    unfolding bst_ok_def V
  proof (intro allI impI, goal_cases)
    case (1 b)
    show ?case
    proof (cases "b = a")
      case True
      then show ?thesis using a ik kp p by (simp add: inb_def)
    next
      case False
      then have b: "live T b" "b \<notin> {a}" using 1 by simp_all
      have k1: "\<And>c. lf T b = Some c \<or> rt T b = Some c \<Longrightarrow> c \<noteq> a" using ne[of b] b by auto
      show ?thesis
      proof (cases "b = p")
        case True
        then show ?thesis using BD(1,2,4)[OF b] False k1 by auto
      next
        case np: False
        then show ?thesis using BD[OF b] False k1 by auto
      qed
    qed
  qed
  show "rr_ok {} {a} T6" if "col T a = red" "rr_ok {a} {} T"
    unfolding rr_ok_def V
  proof (intro allI impI, goal_cases)
    case (1 b c)
    show ?case
    proof (rule ccontr)
      assume "c \<notin> {a}"
      then have ca: "c \<noteq> a" by simp
      have "b \<noteq> a" using 1 a ca by (auto split: if_splits)
      moreover have "lf T b = Some c \<or> rt T b = Some c" using 1 ca by (auto split: if_splits)
      ultimately show False using that(2) 1 unfolding rr_ok_def by blast
    qed
  qed
  show "bh_ok {} (bh(a := 0)) T6" if "col T a = red" "bh_ok {a} bh T"
    unfolding bh_ok_def V
  proof (intro allI impI, goal_cases)
    case (1 b)
    show ?case
    proof (cases "b = a")
      case True
      then show ?thesis using a that(1) p by simp
    next
      case False
      then have b: "live T b" "b \<notin> {a}" using 1 by simp_all
      have k1: "\<And>c. lf T b = Some c \<or> rt T b = Some c \<Longrightarrow> c \<noteq> a" using ne[of b] b by auto
      have k2: "bhO (bh(a := 0)) (lf T b) = bhO bh (lf T b)" "bhO (bh(a := 0)) (rt T b) = bhO bh (rt T b)"
        using k1 by (cases "lf T b"; cases "rt T b"; auto)+
      show ?thesis
      proof (cases "b = p")
        case True
        then show ?thesis using bh_okD[OF that(2) b] lp False k2 by simp
      next
        case np: False
        then show ?thesis using bh_okD[OF that(2) b] False k2 by simp
      qed
    qed
  qed
qed

lemma link_right:
  assumes L: "links_ok {a} T" and B: "bst_ok {a} key lo hi T"
    and a: "live T a" "pa T a = None" "rt T a = None" "lf T a = None"
    and p: "live T p" "p \<noteq> a" and lp: "rt T p = None"
    and ik: "inb (lo p) (hi p) k" and kp: "key p < k"
    and V: "live T6 = live T" "root T6 = root T" "pa T6 = (pa T)(a := Some p)"
       "rt T6 = (rt T)(p := Some a)" "lf T6 = lf T" "col T6 = col T"
  shows "links_ok {} T6"
    and "bst_ok {} (key(a := k)) (lo(a := Some (key p))) (hi(a := hi p)) T6"
    and "col T a = red \<Longrightarrow> rr_ok {a} {} T \<Longrightarrow> rr_ok {} {a} T6"
    and "col T a = red \<Longrightarrow> bh_ok {a} bh T \<Longrightarrow> bh_ok {} (bh(a := 0)) T6"
proof -
  note LD = links_okD[OF L] links_ok_root[OF L]
  note BD = bst_okD[OF B]
  have px: "p \<notin> {a}" using p by simp
  have ne: "c \<noteq> a \<and> live T c \<and> pa T c = Some b"
    if "live T b" "b \<noteq> a" "lf T b = Some c \<or> rt T b = Some c" for b c
  proof -
    have "b \<notin> {a}" using that(2) by simp
    from LD(4)[OF that(1) this, of c] LD(3)[OF that(1) this, of c] that(3) show ?thesis by auto
  qed
  have nep: "q \<noteq> a \<and> live T q \<and> (lf T q = Some b \<or> rt T q = Some b)"
    if "live T b" "b \<noteq> a" "pa T b = Some q" for b q
  proof -
    have "b \<notin> {a}" using that(2) by simp
    from LD(2)[OF that(1) this that(3)] show ?thesis by auto
  qed
  show "links_ok {} T6" unfolding links_ok_def V
  proof (intro conjI allI impI, goal_cases)
    case 1 show ?case using links_ok_finite[OF L] .
  next
    case (2 r) then show ?case using LD(5) by simp
  next
    case (3 r) then show ?case by simp
  next
    case (4 r) then show ?case using LD(5)[of r] by auto
  next
    case (5 b) then show ?case using LD(1)[of b] by (cases "b = a") (auto split: if_splits)
  next
    case (6 b q) then show ?case using nep[of b q] p by (cases "b = a") (auto split: if_splits)
  next
    case (7 b q) then show ?case by simp
  next
    case (8 b q)
    show ?case
    proof (cases "b = a")
      case True then show ?thesis using 8 by simp
    next
      case False
      then have "lf T q = Some b \<or> rt T q = Some b" using nep[of b q] 8 by simp
      then show ?thesis using lp by auto
    qed
  next
    case (9 b c) then show ?case using ne[of b c] a p lp by (cases "b = a") (auto split: if_splits)
  next
    case (10 b c) then show ?case by simp
  next
    case (11 b c) then show ?case using ne[of b c] a p lp by (cases "b = a") (auto split: if_splits)
  next
    case (12 b c) then show ?case using ne[of b c] a p lp by (cases "b = a") (auto split: if_splits)
  next
    case (13 b c) then show ?case by simp
  next
    case (14 b c) then show ?case using ne[of b c] a p lp by (cases "b = a") (auto split: if_splits)
  qed
  show "bst_ok {} (key(a := k)) (lo(a := Some (key p))) (hi(a := hi p)) T6"
    unfolding bst_ok_def V
  proof (intro allI impI, goal_cases)
    case (1 b)
    show ?case
    proof (cases "b = a")
      case True
      then show ?thesis using a ik kp p by (simp add: inb_def)
    next
      case False
      then have b: "live T b" "b \<notin> {a}" using 1 by simp_all
      have k1: "\<And>c. lf T b = Some c \<or> rt T b = Some c \<Longrightarrow> c \<noteq> a" using ne[of b] b by auto
      show ?thesis
      proof (cases "b = p")
        case True
        then show ?thesis using BD(1,2,3)[OF b] False k1 by auto
      next
        case np: False
        then show ?thesis using BD[OF b] False k1 by auto
      qed
    qed
  qed
  show "rr_ok {} {a} T6" if "col T a = red" "rr_ok {a} {} T"
    unfolding rr_ok_def V
  proof (intro allI impI, goal_cases)
    case (1 b c)
    show ?case
    proof (rule ccontr)
      assume "c \<notin> {a}"
      then have ca: "c \<noteq> a" by simp
      have "b \<noteq> a" using 1 a ca by (auto split: if_splits)
      moreover have "lf T b = Some c \<or> rt T b = Some c" using 1 ca by (auto split: if_splits)
      ultimately show False using that(2) 1 unfolding rr_ok_def by blast
    qed
  qed
  show "bh_ok {} (bh(a := 0)) T6" if "col T a = red" "bh_ok {a} bh T"
    unfolding bh_ok_def V
  proof (intro allI impI, goal_cases)
    case (1 b)
    show ?case
    proof (cases "b = a")
      case True
      then show ?thesis using a that(1) p by simp
    next
      case False
      then have b: "live T b" "b \<notin> {a}" using 1 by simp_all
      have k1: "\<And>c. lf T b = Some c \<or> rt T b = Some c \<Longrightarrow> c \<noteq> a" using ne[of b] b by auto
      have k2: "bhO (bh(a := 0)) (rt T b) = bhO bh (rt T b)" "bhO (bh(a := 0)) (lf T b) = bhO bh (lf T b)"
        using k1 by (cases "rt T b"; cases "lf T b"; auto)+
      show ?thesis
      proof (cases "b = p")
        case True
        then show ?thesis using bh_okD[OF that(2) b] lp False k2 by simp
      next
        case np: False
        then show ?thesis using bh_okD[OF that(2) b] False k2 by simp
      qed
    qed
  qed
qed
lemma InsertNode_unfold:
  assumes "ExAllocateFromLookasideListEx T = (Some a, T0)"
    and "set_parent a None T0 = Some T1" and "set_left a None T1 = Some T2"
    and "set_right a None T2 = Some T3" and "set_colour a red T3 = Some T4"
  shows "RtlRbTreeInsertNode T k =
       (InsertNode_loop T4 k (root T4) None 0 \<bind>
         (\<lambda>r. case r of
            Inl current \<Rightarrow> ExFreeToLookasideListEx T4 a \<bind> (\<lambda>T5. Some (Some current, T5))
          | Inr (par, result) \<Rightarrow>
              set_parent a par T4 \<bind>
              (\<lambda>T5. (case par of None \<Rightarrow> Some (T5\<lparr>root := Some a\<rparr>)
                      | Some p \<Rightarrow> if result = RB_TREE_LESS_THAN then set_left p (Some a) T5
                                 else set_right p (Some a) T5) \<bind>
              (\<lambda>T6. RtlpRbTreeFixupInsert T6 a \<bind>
              (\<lambda>T7. Some (Some a, RtlpRbTreeIncrementNodeCount (RtlpRbTreeIncrementInsertionCount T7)))))))"
  by (simp add: RtlRbTreeInsertNode_def assms)

lemma alloc_init_eq:
  assumes pl: "pool T = (a, blk) # rest" and na: "\<not> live T a"
  shows "\<exists>T4. RtlRbTreeInsertNode T k =
       (InsertNode_loop T4 k (root T4) None 0 \<bind>
         (\<lambda>r. case r of
            Inl current \<Rightarrow> ExFreeToLookasideListEx T4 a \<bind> (\<lambda>T5. Some (Some current, T5))
          | Inr (par, result) \<Rightarrow>
              set_parent a par T4 \<bind>
              (\<lambda>T5. (case par of None \<Rightarrow> Some (T5\<lparr>root := Some a\<rparr>)
                      | Some p \<Rightarrow> if result = RB_TREE_LESS_THAN then set_left p (Some a) T5
                                 else set_right p (Some a) T5) \<bind>
              (\<lambda>T6. RtlpRbTreeFixupInsert T6 a \<bind>
              (\<lambda>T7. Some (Some a, RtlpRbTreeIncrementNodeCount (RtlpRbTreeIncrementInsertionCount T7))))))) \<and>
     fresh_rel T a T4 \<and>
     mem T4 a = Some (blk\<lparr>parent := None, left := None, right := None, colour := red\<rparr>) \<and>
     T4 = T\<lparr>pool := rest, mem := mem T4\<rparr>"
proof -
  let ?T0 = "T\<lparr>pool := rest, mem := (mem T)(a \<mapsto> blk)\<rparr>"
  let ?T1 = "upd a (\<lambda>n. n\<lparr>parent := None\<rparr>) ?T0"
  let ?T2 = "upd a (\<lambda>n. n\<lparr>left := None\<rparr>) ?T1"
  let ?T3 = "upd a (\<lambda>n. n\<lparr>right := None\<rparr>) ?T2"
  let ?T4 = "upd a (\<lambda>n. n\<lparr>colour := red\<rparr>) ?T3"
  have l0: "live ?T0 a" by (simp add: views_mem_update)
  have al: "ExAllocateFromLookasideListEx T = (Some a, ?T0)"
    using pl by (simp add: ExAllocateFromLookasideListEx_def)
  have ch: "(set_parent a None ?T0 \<bind> set_left a None \<bind> set_right a None \<bind> set_colour a red) = Some ?T4"
    using l0 by (simp add: setters)
  from alloc_init[OF pl na] ch have fr: "fresh_rel T a ?T4"
    "mem ?T4 a = Some (blk\<lparr>parent := None, left := None, right := None, colour := red\<rparr>)"
    by auto
  have e: "?T4 = T\<lparr>pool := rest, mem := mem ?T4\<rparr>"
    by (simp add: upd_def)
  have run: "RtlRbTreeInsertNode T k =
       (InsertNode_loop ?T4 k (root ?T4) None 0 \<bind>
         (\<lambda>r. case r of
            Inl current \<Rightarrow> ExFreeToLookasideListEx ?T4 a \<bind> (\<lambda>T5. Some (Some current, T5))
          | Inr (par, result) \<Rightarrow>
              set_parent a par ?T4 \<bind>
              (\<lambda>T5. (case par of None \<Rightarrow> Some (T5\<lparr>root := Some a\<rparr>)
                      | Some p \<Rightarrow> if result = RB_TREE_LESS_THAN then set_left p (Some a) T5
                                 else set_right p (Some a) T5) \<bind>
              (\<lambda>T6. RtlpRbTreeFixupInsert T6 a \<bind>
              (\<lambda>T7. Some (Some a, RtlpRbTreeIncrementNodeCount (RtlpRbTreeIncrementInsertionCount T7)))))))"
  proof (rule InsertNode_unfold[OF al])
    show "set_parent a None ?T0 = Some ?T1" using l0 by (simp add: setters)
    show "set_left a None ?T1 = Some ?T2" using l0 by (simp add: setters)
    show "set_right a None ?T2 = Some ?T3" using l0 by (simp add: setters)
    show "set_colour a red ?T3 = Some ?T4" using l0 by (simp add: setters)
  qed
  show ?thesis
    by (rule exI[of _ ?T4]) (intro conjI run fr e)
qed

lemma insert_loop_finds:
  fixes key :: "addr \<Rightarrow> 'k::linorder" and T :: "('k, 'o) RB_TREE"
  assumes L: "links_ok X T" and B: "bst_ok X key lo hi T" and K: "keys_ok X keyof key T"
    and C: "cmp_ok keyof T" and c: "live T c" "c \<notin> X" "key c = k"
  shows "InsertNode_loop T k (root T) None 0 = Some (Inl c)"
proof -
  from desc_root[OF L B c(1,2)] obtain r where r: "root T = Some r" by blast
  have rl: "live T r" "r \<notin> X" "pa T r = None" using links_ok_root[OF L r] by auto
  have ir: "inb (lo r) (hi r) k" using bst_okD(2)[OF B rl(1,2) rl(3)] by (simp add: inb_def)
  from InsertNode_loop_spec[OF L B K C rl(1,2) ir, of None 0] obtain res where
    res: "InsertNode_loop T k (Some r) None 0 = Some res"
      "case res of Inl c \<Rightarrow> live T c \<and> c \<notin> X \<and> key c = k
        | Inr (p', res') \<Rightarrow> \<exists>p. p' = Some p \<and> live T p \<and> p \<notin> X \<and> inb (lo p) (hi p) k \<and>
            ((res' = RB_TREE_LESS_THAN \<and> k < key p \<and> lf T p = None) \<or>
             (res' \<noteq> RB_TREE_LESS_THAN \<and> key p < k \<and> rt T p = None))" by blast
  show ?thesis
  proof (cases res)
    case (Inl c')
    then have "live T c'" "c' \<notin> X" "key c' = k" using res(2) by auto
    then have "c' = c" using key_inj[OF L B _ _ c(1,2), of c'] c(3) by simp
    then show ?thesis using res(1) Inl r by simp
  next
    case (Inr pr)
    obtain p' res' where pr: "pr = (p', res')" by (cases pr)
    from res(2) Inr pr obtain p where p: "live T p" "p \<notin> X" "inb (lo p) (hi p) k"
      "(k < key p \<and> lf T p = None) \<or> (key p < k \<and> rt T p = None)" by auto
    have d: "(child T)\<^sup>*\<^sup>* p c" using inb_imp_desc[OF L B p(1,2) c(1,2)] p(3) c(3) by simp
    have False using desc_cases[OF d]
    proof (elim disjE exE conjE)
      assume "c = p" then show False using p(4) c(3) by auto
    next
      fix b assume b: "lf T p = Some b" "(child T)\<^sup>*\<^sup>* b c"
      have bl: "live T b" "b \<notin> X" using links_okD(3)[OF L p(1,2) b(1)] by auto
      have "inb (lo b) (hi b) (key c)" using desc_props[OF L B b(2) bl] by simp
      then have "key c < key p" using bst_okD(3)[OF B p(1,2) b(1)] by (auto dest: inb_Some_left)
      then show False using p(4) b(1) c(3) by auto
    next
      fix b assume b: "rt T p = Some b" "(child T)\<^sup>*\<^sup>* b c"
      have bl: "live T b" "b \<notin> X" using links_okD(4)[OF L p(1,2) b(1)] by auto
      have "inb (lo b) (hi b) (key c)" using desc_props[OF L B b(2) bl] by simp
      then have "key p < key c" using bst_okD(4)[OF B p(1,2) b(1)] by (auto dest: inb_Some_right)
      then show False using p(4) b(1) c(3) by auto
    qed
    then show ?thesis ..
  qed
qed

lemma insert_loop_absent:
  fixes key :: "addr \<Rightarrow> 'k::linorder" and T :: "('k, 'o) RB_TREE"
  assumes L: "links_ok X T" and B: "bst_ok X key lo hi T" and K: "keys_ok X keyof key T"
    and C: "cmp_ok keyof T" and nk: "\<forall>c. live T c \<and> c \<notin> X \<longrightarrow> key c \<noteq> k"
  shows "(root T = None \<and> InsertNode_loop T k (root T) None 0 = Some (Inr (None, 0))) \<or>
     (\<exists>p res. root T \<noteq> None \<and> InsertNode_loop T k (root T) None 0 = Some (Inr (Some p, res)) \<and>
        live T p \<and> p \<notin> X \<and> inb (lo p) (hi p) k \<and>
        ((res = RB_TREE_LESS_THAN \<and> k < key p \<and> lf T p = None) \<or>
         (res \<noteq> RB_TREE_LESS_THAN \<and> key p < k \<and> rt T p = None)))"
proof (cases "root T")
  case None
  then show ?thesis by (subst InsertNode_loop.simps) simp
next
  case (Some r)
  have rl: "live T r" "r \<notin> X" "pa T r = None" using links_ok_root[OF L Some] by auto
  have ir: "inb (lo r) (hi r) k" using bst_okD(2)[OF B rl(1,2) rl(3)] by (simp add: inb_def)
  from InsertNode_loop_spec[OF L B K C rl(1,2) ir, of None 0] obtain res where
    res: "InsertNode_loop T k (Some r) None 0 = Some res"
      "case res of Inl c \<Rightarrow> live T c \<and> c \<notin> X \<and> key c = k
        | Inr (p', res') \<Rightarrow> \<exists>p. p' = Some p \<and> live T p \<and> p \<notin> X \<and> inb (lo p) (hi p) k \<and>
            ((res' = RB_TREE_LESS_THAN \<and> k < key p \<and> lf T p = None) \<or>
             (res' \<noteq> RB_TREE_LESS_THAN \<and> key p < k \<and> rt T p = None))" by blast
  show ?thesis
  proof (cases res)
    case (Inl c')
    then show ?thesis using res(2) nk by auto
  next
    case (Inr pr)
    obtain p' res' where pr: "pr = (p', res')" by (cases pr)
    then show ?thesis using res Inr Some by auto
  qed
qed

lemma InsertNode_dup:
  fixes key :: "addr \<Rightarrow> 'k::linorder" and T :: "('k, 'o) RB_TREE"
  assumes L: "links_ok {} T" and B: "bst_ok {} key lo hi T" and K: "keys_ok {} keyof key T"
    and C: "cmp_ok keyof T" and pl: "pool T = (a, blk) # rest" and na: "\<not> live T a"
    and c: "live T c" "key c = k"
  shows "RtlRbTreeInsertNode T k =
     Some (Some c, T\<lparr>pool := (a, blk\<lparr>parent := None, left := None, right := None, colour := red\<rparr>) # rest\<rparr>)"
proof -
  from alloc_init_eq[OF pl na, of k] obtain T4 where
    T4: "RtlRbTreeInsertNode T k =
       (InsertNode_loop T4 k (root T4) None 0 \<bind>
         (\<lambda>r. case r of
            Inl current \<Rightarrow> ExFreeToLookasideListEx T4 a \<bind> (\<lambda>T5. Some (Some current, T5))
          | Inr (par, result) \<Rightarrow>
              set_parent a par T4 \<bind>
              (\<lambda>T5. (case par of None \<Rightarrow> Some (T5\<lparr>root := Some a\<rparr>)
                      | Some p \<Rightarrow> if result = RB_TREE_LESS_THAN then set_left p (Some a) T5
                                 else set_right p (Some a) T5) \<bind>
              (\<lambda>T6. RtlpRbTreeFixupInsert T6 a \<bind>
              (\<lambda>T7. Some (Some a, RtlpRbTreeIncrementNodeCount (RtlpRbTreeIncrementInsertionCount T7)))))))"
     and F: "fresh_rel T a T4"
     and m4: "mem T4 a = Some (blk\<lparr>parent := None, left := None, right := None, colour := red\<rparr>)"
     and e4: "T4 = T\<lparr>pool := rest, mem := mem T4\<rparr>" by blast
  have L4: "links_ok {a} T4" using fresh_links[OF F na L] .
  have B4: "bst_ok {a} key lo hi T4" using fresh_inv(1)[OF F na B] .
  have K4: "keys_ok {a} keyof key T4" using fresh_inv(2)[OF F na K] .
  have C4: "cmp_ok keyof T4" using fresh_inv(5)[OF F na C] .
  have c4: "live T4 c" "c \<notin> {a}" using c(1) na F by (auto simp: fresh_rel_def)
  have fnd: "InsertNode_loop T4 k (root T4) None 0 = Some (Inl c)"
    using insert_loop_finds[OF L4 B4 K4 C4 c4 c(2)] .
  have "(mem T4)(a := None) = mem T"
  proof
    fix b show "((mem T4)(a := None)) b = mem T b"
      using F na by (cases "b = a") (auto simp: fresh_rel_def live_def)
  qed
  then have fr0: "ExFreeToLookasideListEx T4 a =
      Some (T4\<lparr>pool := (a, blk\<lparr>parent := None, left := None, right := None, colour := red\<rparr>) # pool T4,
                mem := mem T\<rparr>)"
    using m4 by (simp add: ExFreeToLookasideListEx_def)
  have p4: "pool T4 = rest" using F pl by (simp add: fresh_rel_def)
  have "T4\<lparr>pool := (a, blk\<lparr>parent := None, left := None, right := None, colour := red\<rparr>) # rest,
                mem := mem T\<rparr> =
      T\<lparr>pool := (a, blk\<lparr>parent := None, left := None, right := None, colour := red\<rparr>) # rest\<rparr>"
    by (subst e4) simp
  then have fr: "ExFreeToLookasideListEx T4 a =
      Some (T\<lparr>pool := (a, blk\<lparr>parent := None, left := None, right := None, colour := red\<rparr>) # rest\<rparr>)"
    using fr0 p4 by simp
  show ?thesis unfolding T4 fnd using fr by simp
qed

lemma count_views [simp]:
  "live (T\<lparr>node_count := n\<rparr>) = live T" "pa (T\<lparr>node_count := n\<rparr>) = pa T"
  "lf (T\<lparr>node_count := n\<rparr>) = lf T" "rt (T\<lparr>node_count := n\<rparr>) = rt T"
  "col (T\<lparr>node_count := n\<rparr>) = col T" "obj (T\<lparr>node_count := n\<rparr>) = obj T"
  "live (T\<lparr>insertion_count := n\<rparr>) = live T" "pa (T\<lparr>insertion_count := n\<rparr>) = pa T"
  "lf (T\<lparr>insertion_count := n\<rparr>) = lf T" "rt (T\<lparr>insertion_count := n\<rparr>) = rt T"
  "col (T\<lparr>insertion_count := n\<rparr>) = col T" "obj (T\<lparr>insertion_count := n\<rparr>) = obj T"
  "live (T\<lparr>deletion_count := n\<rparr>) = live T" "pa (T\<lparr>deletion_count := n\<rparr>) = pa T"
  "lf (T\<lparr>deletion_count := n\<rparr>) = lf T" "rt (T\<lparr>deletion_count := n\<rparr>) = rt T"
  "col (T\<lparr>deletion_count := n\<rparr>) = col T" "obj (T\<lparr>deletion_count := n\<rparr>) = obj T"
  by (simp_all add: live_def pa_def lf_def rt_def col_def obj_def fun_eq_iff)

lemma inserted_counts:
  "links_ok X (RtlpRbTreeIncrementNodeCount (RtlpRbTreeIncrementInsertionCount T)) = links_ok X T"
  "bst_ok X key lo hi (RtlpRbTreeIncrementNodeCount (RtlpRbTreeIncrementInsertionCount T)) = bst_ok X key lo hi T"
  "rr_ok X E (RtlpRbTreeIncrementNodeCount (RtlpRbTreeIncrementInsertionCount T)) = rr_ok X E T"
  "bh_ok X bh (RtlpRbTreeIncrementNodeCount (RtlpRbTreeIncrementInsertionCount T)) = bh_ok X bh T"
  "root_black (RtlpRbTreeIncrementNodeCount (RtlpRbTreeIncrementInsertionCount T)) = root_black T"
  by (simp_all add: links_ok_def bst_ok_def rr_ok_def bh_ok_def root_black_def
      RtlpRbTreeIncrementNodeCount_def RtlpRbTreeIncrementInsertionCount_def)

lemma InsertNode_finish:
  fixes key' :: "addr \<Rightarrow> 'k::linorder" and T :: "('k, 'o) RB_TREE"
  assumes run: "RtlRbTreeInsertNode T k =
      RtlpRbTreeFixupInsert T6 a \<bind>
        (\<lambda>T7. Some (Some a, RtlpRbTreeIncrementNodeCount (RtlpRbTreeIncrementInsertionCount T7)))"
    and P: "fi_pre full {} key' lo' hi' bh' T6 a" and F: "fresh_rel T a T4" and R: "rest_eq T4 T6"
  shows "\<exists>T'. RtlRbTreeInsertNode T k = Some (Some a, T') \<and> ins_rel T a T' \<and> links_ok {} T' \<and>
     (\<exists>lo2 hi2. bst_ok {} key' lo2 hi2 T') \<and> root_black T' \<and>
     (full \<longrightarrow> rr_ok {} {} T' \<and> (\<exists>bh2. bh_ok {} bh2 T'))"
proof -
  from FixupInsert_spec[OF P] obtain T7 where
    T7: "RtlpRbTreeFixupInsert T6 a = Some T7" "fi_post full {} key' T6 T7" "root_black T7" by blast
  let ?T' = "RtlpRbTreeIncrementNodeCount (RtlpRbTreeIncrementInsertionCount T7)"
  have R7: "rest_eq T6 T7" using T7(2) by (simp add: fi_post_def)
  have "ins_rel T a ?T'"
    using F R R7 unfolding ins_rel_def fresh_rel_def rest_eq_def
    by (simp add: RtlpRbTreeIncrementNodeCount_def RtlpRbTreeIncrementInsertionCount_def)
  moreover have "RtlRbTreeInsertNode T k = Some (Some a, ?T')" unfolding run T7(1) by simp
  moreover have "links_ok {} ?T'" using T7(2) by (simp add: fi_post_def inserted_counts)
  moreover have "\<exists>lo2 hi2. bst_ok {} key' lo2 hi2 ?T'"
    using T7(2) by (simp add: fi_post_def inserted_counts)
  moreover have "root_black ?T'" using T7(3) by (simp add: inserted_counts)
  moreover have "full \<longrightarrow> rr_ok {} {} ?T' \<and> (\<exists>bh2. bh_ok {} bh2 ?T')"
    using T7(2) by (simp add: fi_post_def inserted_counts)
  ultimately show ?thesis by blast
qed

lemma InsertNode_new:
  fixes key :: "addr \<Rightarrow> 'k::linorder" and T :: "('k, 'o) RB_TREE"
  assumes L: "links_ok {} T" and B: "bst_ok {} key lo hi T" and K: "keys_ok {} keyof key T"
    and C: "cmp_ok keyof T" and pl: "pool T = (a, blk) # rest" and na: "\<not> live T a"
    and RB: "root_black T" and nk: "\<forall>c. live T c \<longrightarrow> key c \<noteq> k"
    and FU: "full \<longrightarrow> rr_ok {} {} T \<and> bh_ok {} bh T"
  shows "\<exists>T'. RtlRbTreeInsertNode T k = Some (Some a, T') \<and> ins_rel T a T' \<and> links_ok {} T' \<and>
     (\<exists>lo2 hi2. bst_ok {} (key(a := k)) lo2 hi2 T') \<and> root_black T' \<and>
     (full \<longrightarrow> rr_ok {} {} T' \<and> (\<exists>bh2. bh_ok {} bh2 T'))"
proof -
  from alloc_init_eq[OF pl na, of k] obtain T4 where
    T4: "RtlRbTreeInsertNode T k =
       (InsertNode_loop T4 k (root T4) None 0 \<bind>
         (\<lambda>r. case r of
            Inl current \<Rightarrow> ExFreeToLookasideListEx T4 a \<bind> (\<lambda>T5. Some (Some current, T5))
          | Inr (par, result) \<Rightarrow>
              set_parent a par T4 \<bind>
              (\<lambda>T5. (case par of None \<Rightarrow> Some (T5\<lparr>root := Some a\<rparr>)
                      | Some p \<Rightarrow> if result = RB_TREE_LESS_THAN then set_left p (Some a) T5
                                 else set_right p (Some a) T5) \<bind>
              (\<lambda>T6. RtlpRbTreeFixupInsert T6 a \<bind>
              (\<lambda>T7. Some (Some a, RtlpRbTreeIncrementNodeCount (RtlpRbTreeIncrementInsertionCount T7)))))))"
     and F: "fresh_rel T a T4" by blast
  have L4: "links_ok {a} T4" using fresh_links[OF F na L] .
  have B4: "bst_ok {a} key lo hi T4" using fresh_inv(1)[OF F na B] .
  have K4: "keys_ok {a} keyof key T4" using fresh_inv(2)[OF F na K] .
  have C4: "cmp_ok keyof T4" using fresh_inv(5)[OF F na C] .
  have RB4: "root_black T4" using fresh_inv(6)[OF F na RB L] .
  have RR4: "full \<Longrightarrow> rr_ok {a} {} T4" using fresh_inv(3)[OF F na _ L] FU by blast
  have H4: "full \<Longrightarrow> bh_ok {a} bh T4" using fresh_inv(4)[OF F na] FU by blast
  have v4: "root T4 = root T" "live T4 = (live T)(a := True)" "col T4 = (col T)(a := red)"
    using F by (simp_all add: fresh_rel_def)
  have a4: "live T4 a" "pa T4 a = None" "lf T4 a = None" "rt T4 a = None" "col T4 a = red"
    using F dead_views[OF na] by (simp_all add: fresh_rel_def)
  have nk4: "\<forall>c. live T4 c \<and> c \<notin> {a} \<longrightarrow> key c \<noteq> k" using nk v4(2) by simp
  from insert_loop_absent[OF L4 B4 K4 C4 nk4]
  consider (empty) "root T4 = None" "InsertNode_loop T4 k (root T4) None 0 = Some (Inr (None, 0))"
    | (lft) p where "root T4 \<noteq> None" "InsertNode_loop T4 k (root T4) None 0 = Some (Inr (Some p, RB_TREE_LESS_THAN))"
        "live T4 p" "p \<notin> {a}" "inb (lo p) (hi p) k" "k < key p" "lf T4 p = None"
    | (rgt) p res where "root T4 \<noteq> None" "InsertNode_loop T4 k (root T4) None 0 = Some (Inr (Some p, res))"
        "live T4 p" "p \<notin> {a}" "inb (lo p) (hi p) k" "res \<noteq> RB_TREE_LESS_THAN" "key p < k" "rt T4 p = None"
    by (elim disjE exE conjE) blast+
  then show ?thesis
  proof cases
    case empty
    let ?T6 = "(upd a (\<lambda>n. n\<lparr>parent := None\<rparr>) T4)\<lparr>root := Some a\<rparr>"
    have run: "RtlRbTreeInsertNode T k = RtlpRbTreeFixupInsert ?T6 a \<bind>
        (\<lambda>T7. Some (Some a, RtlpRbTreeIncrementNodeCount (RtlpRbTreeIncrementInsertionCount T7)))"
      unfolding T4 empty(2) using a4(1) by (simp add: setters)
    have nl: "\<not> live T c" for c using desc_root[OF L B, of c] empty(1) v4(1) by auto
    have lv: "live ?T6 c \<longleftrightarrow> c = a" for c using nl[of c] v4(2) by simp
    have vs: "pa ?T6 a = None" "lf ?T6 a = None" "rt ?T6 a = None" "col ?T6 a = red" "root ?T6 = Some a"
      using a4 by (simp_all add: view_upd)
    have lvf: "live T4 = (\<lambda>c. c = a)" using lv by (simp add: fun_eq_iff)
    have L6: "links_ok {} ?T6" unfolding links_ok_def using lvf vs by simp
    have B6: "bst_ok {} (key(a := k)) (lo(a := None)) (hi(a := None)) ?T6"
      unfolding bst_ok_def using lv vs by (simp add: inb_def)
    have R6: "rr_ok {} {a} ?T6" unfolding rr_ok_def using lv vs by simp
    have H6: "bh_ok {} (bh(a := 0)) ?T6" unfolding bh_ok_def using lv vs by simp
    have P: "fi_pre full {} (key(a := k)) (lo(a := None)) (hi(a := None)) (bh(a := 0)) ?T6 a"
      unfolding fi_pre_def using L6 B6 R6 H6 lv vs by simp
    have R: "rest_eq T4 ?T6" by (simp add: rest_eq_def view_upd)
    show ?thesis using InsertNode_finish[OF run P F R] .
  next
    case lft
    let ?T6 = "upd p (\<lambda>n. n\<lparr>left := Some a\<rparr>) (upd a (\<lambda>n. n\<lparr>parent := Some p\<rparr>) T4)"
    have pa': "p \<noteq> a" using lft(4) by simp
    have run: "RtlRbTreeInsertNode T k = RtlpRbTreeFixupInsert ?T6 a \<bind>
        (\<lambda>T7. Some (Some a, RtlpRbTreeIncrementNodeCount (RtlpRbTreeIncrementInsertionCount T7)))"
      unfolding T4 lft(2) using a4(1) lft(3) by (simp add: setters)
    have V: "live ?T6 = live T4" "root ?T6 = root T4" "pa ?T6 = (pa T4)(a := Some p)"
       "lf ?T6 = (lf T4)(p := Some a)" "rt ?T6 = rt T4" "col ?T6 = col T4"
      using a4(1) lft(3) by (simp_all add: view_upd)
    note lk = link_left[OF L4 B4 a4(1,2,3,4) lft(3) pa' lft(7) lft(5) lft(6) V]
    have rb: "root_black ?T6" using RB4 unfolding root_black_def V by simp
    have P: "fi_pre full {} (key(a := k)) (lo(a := lo p)) (hi(a := Some (key p))) (bh(a := 0)) ?T6 a"
      unfolding fi_pre_def using lk(1,2) lk(3)[OF a4(5) RR4] lk(4)[OF a4(5) H4] rb a4(1,5) V(1,6) by simp
    have R: "rest_eq T4 ?T6" by (simp add: rest_eq_def view_upd)
    show ?thesis using InsertNode_finish[OF run P F R] .
  next
    case rgt
    let ?T6 = "upd p (\<lambda>n. n\<lparr>right := Some a\<rparr>) (upd a (\<lambda>n. n\<lparr>parent := Some p\<rparr>) T4)"
    have pa': "p \<noteq> a" using rgt(4) by simp
    have run: "RtlRbTreeInsertNode T k = RtlpRbTreeFixupInsert ?T6 a \<bind>
        (\<lambda>T7. Some (Some a, RtlpRbTreeIncrementNodeCount (RtlpRbTreeIncrementInsertionCount T7)))"
      unfolding T4 rgt(2) using a4(1) rgt(3,6) by (simp add: setters)
    have V: "live ?T6 = live T4" "root ?T6 = root T4" "pa ?T6 = (pa T4)(a := Some p)"
       "rt ?T6 = (rt T4)(p := Some a)" "lf ?T6 = lf T4" "col ?T6 = col T4"
      using a4(1) rgt(3) by (simp_all add: view_upd)
    note lk = link_right[OF L4 B4 a4(1,2,4,3) rgt(3) pa' rgt(8) rgt(5) rgt(7) V]
    have rb: "root_black ?T6" using RB4 unfolding root_black_def V by simp
    have P: "fi_pre full {} (key(a := k)) (lo(a := Some (key p))) (hi(a := hi p)) (bh(a := 0)) ?T6 a"
      unfolding fi_pre_def using lk(1,2) lk(3)[OF a4(5) RR4] lk(4)[OF a4(5) H4] rb a4(1,5) V(1,6) by simp
    have R: "rest_eq T4 ?T6" by (simp add: rest_eq_def view_upd)
    show ?thesis using InsertNode_finish[OF run P F R] .
  qed
qed

lemma keys_ok_nkey: "keys_ok X keyof (nkey keyof T) T"
  by (simp add: keys_ok_def nkey_def)

lemma bst_ok_cong:
  assumes "\<And>a. live T a \<Longrightarrow> a \<notin> X \<Longrightarrow> key' a = key a" and B: "bst_ok X key lo hi T"
  shows "\<exists>lo' hi'. bst_ok X key' lo' hi' T"
proof -
  have "bst_ok X key' lo hi T" using B unfolding bst_ok_def by (simp add: assms(1))
  then show ?thesis by blast
qed

lemma pool_ok_head:
  assumes "pool_ok T" "pool T = (a, blk) # rest"
  shows "\<not> live T a" and "a \<notin> fst ` set rest" and "distinct (map fst rest)"
    and "\<forall>e \<in> set rest. \<not> live T (fst e)"
  using assms by (auto simp: pool_ok_def)

lemma InsertNode_present:
  fixes T :: "('k::linorder, 'o) RB_TREE"
  assumes I: "bst_inv keyof T" and P: "pool_ok T" and pl: "pool T = (a, blk) # rest"
    and c: "live T c" "nkey keyof T c = k"
  shows "RtlRbTreeInsertNode T k =
     Some (Some c, T\<lparr>pool := (a, blk\<lparr>parent := None, left := None, right := None, colour := red\<rparr>) # rest\<rparr>)"
proof -
  from I obtain lo hi where B: "bst_ok {} (nkey keyof T) lo hi T" and L: "links_ok {} T"
    and C: "cmp_ok keyof T" unfolding bst_inv_def by blast
  show ?thesis
    using InsertNode_dup[OF L B keys_ok_nkey C pl pool_ok_head(1)[OF P pl] c] .
qed

lemma InsertNode_absent:
  fixes T :: "('k::linorder, 'o) RB_TREE"
  assumes I: "bst_inv keyof T" and P: "pool_ok T" and pl: "pool T = (a, blk) # rest"
    and RB: "root_black T" and nk: "\<forall>c. live T c \<longrightarrow> nkey keyof T c \<noteq> k"
    and FU: "full \<longrightarrow> rr_ok {} {} T \<and> (\<exists>bh. bh_ok {} bh T)"
  shows "\<exists>T'. RtlRbTreeInsertNode T k = Some (Some a, T') \<and> ins_rel T a T' \<and> links_ok {} T' \<and>
     (\<exists>lo2 hi2. bst_ok {} ((nkey keyof T)(a := k)) lo2 hi2 T') \<and> root_black T' \<and>
     (full \<longrightarrow> rr_ok {} {} T' \<and> (\<exists>bh2. bh_ok {} bh2 T'))"
proof -
  from I obtain lo hi where B: "bst_ok {} (nkey keyof T) lo hi T" and L: "links_ok {} T"
    and C: "cmp_ok keyof T" unfolding bst_inv_def by blast
  obtain bh where FU': "full \<longrightarrow> rr_ok {} {} T \<and> bh_ok {} bh T" using FU by blast
  show ?thesis
    using InsertNode_new[OF L B keys_ok_nkey C pl pool_ok_head(1)[OF P pl] RB nk FU'] .
qed

lemma pool_views [simp]:
  "live (T\<lparr>pool := q\<rparr>) = live T" "pa (T\<lparr>pool := q\<rparr>) = pa T"
  "lf (T\<lparr>pool := q\<rparr>) = lf T" "rt (T\<lparr>pool := q\<rparr>) = rt T"
  "col (T\<lparr>pool := q\<rparr>) = col T" "obj (T\<lparr>pool := q\<rparr>) = obj T"
  by (simp_all add: live_def pa_def lf_def rt_def col_def obj_def fun_eq_iff)

lemma payload_inv:
  "links_ok X (upd a (\<lambda>n. n\<lparr>object := v\<rparr>) T) = links_ok X T"
  "bst_ok X key lo hi (upd a (\<lambda>n. n\<lparr>object := v\<rparr>) T) = bst_ok X key lo hi T"
  "rr_ok X E (upd a (\<lambda>n. n\<lparr>object := v\<rparr>) T) = rr_ok X E T"
  "bh_ok X bh (upd a (\<lambda>n. n\<lparr>object := v\<rparr>) T) = bh_ok X bh T"
  "root_black (upd a (\<lambda>n. n\<lparr>object := v\<rparr>) T) = root_black T"
  "cmp_ok keyof (upd a (\<lambda>n. n\<lparr>object := v\<rparr>) T) = cmp_ok keyof T"
  "cnt_ok (upd a (\<lambda>n. n\<lparr>object := v\<rparr>) T) = cnt_ok T"
  by (simp_all add: links_ok_def bst_ok_def rr_ok_def bh_ok_def root_black_def cmp_ok_def cnt_ok_def
      view_upd)

lemma pool_inv:
  "links_ok X (T\<lparr>pool := q\<rparr>) = links_ok X T"
  "bst_ok X key lo hi (T\<lparr>pool := q\<rparr>) = bst_ok X key lo hi T"
  "rr_ok X E (T\<lparr>pool := q\<rparr>) = rr_ok X E T"
  "bh_ok X bh (T\<lparr>pool := q\<rparr>) = bh_ok X bh T"
  "root_black (T\<lparr>pool := q\<rparr>) = root_black T"
  "cmp_ok keyof (T\<lparr>pool := q\<rparr>) = cmp_ok keyof T"
  "cnt_ok (T\<lparr>pool := q\<rparr>) = cnt_ok T"
  by (simp_all add: links_ok_def bst_ok_def rr_ok_def bh_ok_def root_black_def cmp_ok_def cnt_ok_def)

lemma InsertNode_exhausted: "pool T = [] \<Longrightarrow> RtlRbTreeInsertNode T k = Some (None, T)"
  by (simp add: RtlRbTreeInsertNode_def ExAllocateFromLookasideListEx_def)

lemma caller_insert_spec:
  fixes T :: "('k::linorder, 'o) RB_TREE"
  assumes I: "bst_inv keyof T" and P: "pool_ok T" and RB: "root_black T"
  shows "\<exists>T'. caller_insert keyof T v = Some T' \<and> bst_inv keyof T' \<and> pool_ok T' \<and> root_black T' \<and>
     (rr_ok {} {} T \<and> (\<exists>bh. bh_ok {} bh T) \<longrightarrow> rr_ok {} {} T' \<and> (\<exists>bh. bh_ok {} bh T')) \<and>
     (cnt_ok T \<longrightarrow> cnt_ok T') \<and> blocks_of T' = blocks_of T"
proof -
  from I obtain lo hi where B: "bst_ok {} (nkey keyof T) lo hi T" and L: "links_ok {} T"
    and C: "cmp_ok keyof T" unfolding bst_inv_def by blast
  let ?k = "keyof v"
  show ?thesis
  proof (cases "pool T")
    case Nil
    then have "caller_insert keyof T v = Some T"
      by (simp add: caller_insert_def InsertNode_exhausted)
    then show ?thesis using I P RB by simp
  next
    case (Cons e rest)
    obtain a blk where e: "e = (a, blk)" by (cases e)
    note pl = Cons[unfolded e]
    note ph = pool_ok_head[OF P pl]
    show ?thesis
    proof (cases "\<exists>c. live T c \<and> nkey keyof T c = ?k")
      case True
      then obtain c where c: "live T c" "nkey keyof T c = ?k" by blast
      let ?q = "(a, blk\<lparr>parent := None, left := None, right := None, colour := red\<rparr>) # rest"
      let ?T' = "upd c (\<lambda>n. n\<lparr>object := v\<rparr>) (T\<lparr>pool := ?q\<rparr>)"
      have run: "caller_insert keyof T v = Some ?T'"
        using InsertNode_present[OF I P pl c] c(1) by (simp add: caller_insert_def setters)
      have ob: "obj ?T' = (obj T)(c := Some v)" using c(1) by (simp add: view_upd)
      have "nkey keyof ?T' b = nkey keyof T b" for b
        using c(2) unfolding nkey_def ob by simp
      then have "nkey keyof ?T' = nkey keyof T" by (simp add: fun_eq_iff)
      then have "bst_inv keyof ?T'" using B L C unfolding bst_inv_def payload_inv pool_inv by auto
      moreover have "pool_ok ?T'" using P pl by (auto simp: pool_ok_def)
      moreover have "blocks_of ?T' = blocks_of T" using pl by (simp add: blocks_of_def)
      ultimately show ?thesis using run RB by (simp add: payload_inv pool_inv)
    next
      case False
      then have nk: "\<forall>c. live T c \<longrightarrow> nkey keyof T c \<noteq> ?k" by blast
      define full where "full = (rr_ok {} {} T \<and> (\<exists>bh. bh_ok {} bh T))"
      have FU: "full \<longrightarrow> rr_ok {} {} T \<and> (\<exists>bh. bh_ok {} bh T)" by (simp add: full_def)
      from InsertNode_absent[OF I P pl RB nk FU] obtain T1 where
        T1: "RtlRbTreeInsertNode T ?k = Some (Some a, T1)" "ins_rel T a T1" "links_ok {} T1"
          "\<exists>lo2 hi2. bst_ok {} ((nkey keyof T)(a := ?k)) lo2 hi2 T1" "root_black T1"
          "full \<longrightarrow> rr_ok {} {} T1 \<and> (\<exists>bh2. bh_ok {} bh2 T1)" by blast
      have v1: "live T1 = (live T)(a := True)" "\<And>b. b \<noteq> a \<Longrightarrow> obj T1 b = obj T b"
        "pool T1 = rest" "compare T1 = compare T" "node_count T1 = node_count T + 1"
        using T1(2) pl by (simp_all add: ins_rel_def)
      let ?T' = "upd a (\<lambda>n. n\<lparr>object := v\<rparr>) T1"
      have la: "live T1 a" using v1(1) by simp
      have run: "caller_insert keyof T v = Some ?T'"
        using T1(1) la by (simp add: caller_insert_def setters)
      have ob: "obj ?T' = (obj T1)(a := Some v)" using la by (simp add: view_upd)
      have "nkey keyof ?T' b = ((nkey keyof T)(a := ?k)) b" for b
        unfolding nkey_def ob using v1(2)[of b] by simp
      then have nk': "nkey keyof ?T' = (nkey keyof T)(a := ?k)" by (simp add: fun_eq_iff)
      have "cmp_ok keyof T1" using C v1(4) by (simp add: cmp_ok_def)
      then have I': "bst_inv keyof ?T'"
        using T1(3,4) unfolding bst_inv_def payload_inv nk' by simp
      have P': "pool_ok ?T'" using ph v1(1,3) unfolding pool_ok_def by auto
      have fin: "finite {b. live T b}" using links_ok_finite[OF L] .
      have st: "{b. live T1 b} = insert a {b. live T b}" unfolding v1(1) by auto
      have cd: "card {b. live T1 b} = Suc (card {b. live T b})"
        unfolding st using fin ph(1) by simp
      have cn: "cnt_ok T \<longrightarrow> cnt_ok ?T'"
        unfolding payload_inv using v1(5) cd by (simp add: cnt_ok_def)
      have bl: "blocks_of ?T' = blocks_of T" using cd v1(3) pl by (simp add: blocks_of_def)
      show ?thesis using run I' P' T1(5,6) cn bl by (simp add: payload_inv full_def)
    qed
  qed
qed

subsection \<open>Black height along paths; concrete trees\<close>

lemma bpath_bh:
  assumes H: "bh_ok {} bh T"
  shows "bpath T x n \<Longrightarrow> n = bhO bh x"
proof (induction rule: bpath.induct)
  case bpath_null
  show ?case by simp
next
  case (bpath_left a n)
  then show ?case using bh_okD[OF H bpath_left.hyps(1)] by simp
next
  case (bpath_right a n)
  then show ?case using bh_okD[OF H bpath_right.hyps(1)] by simp
qed

lemma bh_ok_uniform: "bh_ok {} bh T \<Longrightarrow> bh_uniform T"
  unfolding bh_uniform_def using bpath_bh by blast

lemma rr_ok_no_red_red:
  assumes L: "links_ok {} T" and R: "rr_ok {} {} T"
  shows "no_red_red T"
  unfolding no_red_red_def
proof (intro allI impI)
  fix a p assume h: "live T a \<and> col T a = red \<and> pa T a = Some p"
  then have p: "live T p" "lf T p = Some a \<or> rt T p = Some a"
    using links_okD(2)[OF L, of a p] by auto
  show "col T p = black"
  proof (rule ccontr)
    assume "col T p \<noteq> black"
    then have "col T p = red" by (cases "col T p") simp_all
    then have "a \<in> {}" using R p h unfolding rr_ok_def by blast
    then show False by simp
  qed
qed

lemmas eval_defs =
  RtlRbTreeInsertNode_def ExAllocateFromLookasideListEx_def ExFreeToLookasideListEx_def
  set_parent_def set_left_def set_right_def set_colour_def set_object_def store_def
  get_parent_def get_left_def get_right_def get_colour_def get_object_def
  InsertNode_loop.simps FixupInsert_loop.simps RtlpRbTreeFixupInsert_def
  RtlpRbTreeRotateLeft_def RtlpRbTreeRotateRight_def is_red_def
  RtlpRbTreeIncrementNodeCount_def RtlpRbTreeIncrementInsertionCount_def
  RB_TREE_LESS_THAN_def RB_TREE_GREATER_THAN_def RB_TREE_EQUAL_def
  caller_insert_def compare_int_def blank_def

lemma new_tree_eq:
  "new_tree n = \<lparr>root = None, compare = Some compare_int, pool = blocks n, object_size = 0,
     active = 0, node_count = 0, insertion_count = 0, deletion_count = 0, mem = Map.empty\<rparr>"
  by (simp add: new_tree_def zeroed_tree_def RtlRbTreeCreate_def STATUS_SUCCESS_def NT_SUCCESS_def)

lemma blocks_3: "blocks 3 = [(1, blank), (2, blank), (3, blank)]"
  by (simp add: blocks_def upt_rec)

lemma new_tree_3_run:
  "run_operations id (new_tree 3) [Insert 10, Insert 20, Insert 30] =
     Some \<lparr>root = Some 2, compare = Some compare_int, pool = [], object_size = 0, active = 0,
       node_count = 3, insertion_count = 3, deletion_count = 0,
       mem = [1 \<mapsto> \<lparr>parent = Some 2, left = None, right = None, colour = red, object = 10\<rparr>,
              2 \<mapsto> \<lparr>parent = None, left = Some 1, right = Some 3, colour = black, object = 20\<rparr>,
              3 \<mapsto> \<lparr>parent = Some 2, left = None, right = None, colour = red, object = 30\<rparr>]\<rparr>"
  by (simp add: new_tree_eq blocks_3 eval_defs fun_upd_twist)

lemma blocks_4: "blocks 4 = [(1, blank), (2, blank), (3, blank), (4, blank)]"
  by (simp add: blocks_def upt_rec)

lemma tree_10_20_30_eq:
  "tree_10_20_30 =
     \<lparr>root = Some 2, compare = Some compare_int, pool = [(4, blank)], object_size = 0, active = 0,
       node_count = 3, insertion_count = 3, deletion_count = 0,
       mem = [1 \<mapsto> \<lparr>parent = Some 2, left = None, right = None, colour = red, object = 10\<rparr>,
              2 \<mapsto> \<lparr>parent = None, left = Some 1, right = Some 3, colour = black, object = 20\<rparr>,
              3 \<mapsto> \<lparr>parent = Some 2, left = None, right = None, colour = red, object = 30\<rparr>]\<rparr>"
  by (simp add: tree_10_20_30_def new_tree_eq blocks_4 eval_defs fun_upd_twist)

lemma new_tree_inv:
  "bst_inv id (new_tree n) \<and> pool_ok (new_tree n) \<and> rb_inv (new_tree n) \<and> cnt_ok (new_tree n)"
proof -
  have lv: "live (new_tree n) = (\<lambda>a. False)" by (simp add: new_tree_eq live_def fun_eq_iff)
  have "cmp_ok id (new_tree n)"
    by (simp add: cmp_ok_def new_tree_eq compare_int_def)
  moreover have "links_ok {} (new_tree n)" unfolding links_ok_def lv by (simp add: new_tree_eq)
  moreover have "bst_ok {} (nkey id (new_tree n)) (\<lambda>a. None) (\<lambda>a. None) (new_tree n)"
    unfolding bst_ok_def lv by simp
  moreover have "pool_ok (new_tree n)"
    unfolding pool_ok_def lv by (simp add: new_tree_eq blocks_def comp_def)
  moreover have "rb_inv (new_tree n)"
    unfolding rb_inv_def root_black_def rr_ok_def bh_ok_def lv by (simp add: new_tree_eq)
  moreover have "cnt_ok (new_tree n)" unfolding cnt_ok_def lv by (simp add: new_tree_eq)
  ultimately show ?thesis unfolding bst_inv_def by blast
qed

lemma run_inserts_inv:
  fixes T :: "('k::linorder, 'o) RB_TREE"
  shows "bst_inv keyof T \<Longrightarrow> pool_ok T \<Longrightarrow> rb_inv T \<Longrightarrow> cnt_ok T \<Longrightarrow>
     \<exists>T'. run_operations keyof T (map Insert vs) = Some T' \<and>
       bst_inv keyof T' \<and> pool_ok T' \<and> rb_inv T' \<and> cnt_ok T'"
proof (induction vs arbitrary: T)
  case Nil
  then show ?case by simp
next
  case (Cons v vs)
  from caller_insert_spec[OF Cons.prems(1,2), of v] Cons.prems(3,4) obtain T1 where
    T1: "caller_insert keyof T v = Some T1" "bst_inv keyof T1" "pool_ok T1" "rb_inv T1" "cnt_ok T1"
    unfolding rb_inv_def by blast
  from Cons.IH[OF T1(2,3,4,5)] show ?case using T1(1) by simp
qed

lemma tree_10_20_30_inv:
  "bst_inv id tree_10_20_30 \<and> pool_ok tree_10_20_30 \<and> rb_inv tree_10_20_30 \<and> cnt_ok tree_10_20_30"
  using run_inserts_inv[of id "new_tree 4" "[10, 20, 30]"] new_tree_inv[of 4]
  by (auto simp: tree_10_20_30_def)

lemma scenario_A_tree_eq:
  "scenario_A_tree =
     \<lparr>root = Some 2, compare = Some compare_int, pool = [], object_size = 0, active = 0,
       node_count = 3, insertion_count = 3, deletion_count = 0,
       mem = [1 \<mapsto> \<lparr>parent = Some 2, left = None, right = None, colour = red, object = 10\<rparr>,
              2 \<mapsto> \<lparr>parent = None, left = Some 1, right = Some 3, colour = black, object = 20\<rparr>,
              3 \<mapsto> \<lparr>parent = Some 2, left = None, right = None, colour = red, object = 30\<rparr>]\<rparr>"
  unfolding scenario_A_tree_def new_tree_3_run by simp

lemma tree_10_exhausted_run:
  "run_operations id (new_tree 1) [Insert 10] =
     Some \<lparr>root = Some 1, compare = Some compare_int, pool = [], object_size = 0, active = 0,
       node_count = 1, insertion_count = 1, deletion_count = 0,
       mem = [1 \<mapsto> \<lparr>parent = None, left = None, right = None, colour = black, object = 10\<rparr>]\<rparr>"
  by (simp add: new_tree_eq blocks_def eval_defs)

lemma tree_10_exhausted_eq:
  "tree_10_exhausted =
     \<lparr>root = Some 1, compare = Some compare_int, pool = [], object_size = 0, active = 0,
       node_count = 1, insertion_count = 1, deletion_count = 0,
       mem = [1 \<mapsto> \<lparr>parent = None, left = None, right = None, colour = black, object = 10\<rparr>]\<rparr>"
  unfolding tree_10_exhausted_def tree_10_exhausted_run by simp

subsection \<open>Unlinking the target of a deletion\<close>

lemma Transplant_raw:
  assumes z: "live T z" and p: "\<forall>p. pa T z = Some p \<longrightarrow> live T p"
    and x: "\<forall>c. x = Some c \<longrightarrow> live T c"
  shows "\<exists>T'. RtlpRbTreeTransplant T z x = Some T' \<and> transplant_rel T z x T'"
proof (cases "pa T z")
  case None
  show ?thesis
  proof (cases x)
    case N: None
    show ?thesis using z None N
      by (simp add: RtlpRbTreeTransplant_def getters transplant_rel_def rest_eq_def)
  next
    case (Some c)
    then have c: "live T c" using x by simp
    show ?thesis using z None Some c
      by (simp add: RtlpRbTreeTransplant_def getters setters view_upd transplant_rel_def rest_eq_def)
  qed
next
  case (Some q)
  then have q: "live T q" using p by simp
  show ?thesis
  proof (cases x)
    case None
    show ?thesis using z Some None q
      by (auto simp: RtlpRbTreeTransplant_def getters setters view_upd transplant_rel_def rest_eq_def)
  next
    case S: (Some c)
    then have c: "live T c" using x by simp
    show ?thesis using z Some S c q
      by (auto simp: RtlpRbTreeTransplant_def getters setters view_upd transplant_rel_def rest_eq_def
          fun_eq_iff)
  qed
qed

lemma view_live: "lf T a = Some b \<Longrightarrow> live T a" "rt T a = Some b \<Longrightarrow> live T a"
  "pa T a = Some b \<Longrightarrow> live T a"
  using dead_views[of T a] by auto

text \<open>On a well-formed tree the transplant writes the one slot that points to the target.\<close>

lemma transplant_slots:
  assumes L: "links_ok {} T" and B: "bst_ok {} key lo hi T" and z: "live T z"
    and R: "transplant_rel T z x T1"
  shows "lf T1 a = (if lf T a = Some z then x else lf T a)"
    and "rt T1 a = (if rt T a = Some z then x else rt T a)"
proof -
  have l: "lf T a = Some z \<Longrightarrow> pa T z = Some a"
    using links_okD(3)[OF L view_live(1), of a z z] by simp
  have r: "rt T a = Some z \<Longrightarrow> pa T z = Some a \<and> lf T a \<noteq> Some z"
    using links_okD(4)[OF L view_live(2), of a z z] rt_neq_lf[OF L B view_live(2), of a z z] by simp
  have p: "pa T z = Some a \<Longrightarrow> lf T a = Some z \<or> rt T a = Some z"
    using links_okD(2)[OF L z, of a] by simp
  show "lf T1 a = (if lf T a = Some z then x else lf T a)"
    using R l unfolding transplant_rel_def by auto
  show "rt T1 a = (if rt T a = Some z then x else rt T a)"
    using R r p unfolding transplant_rel_def by auto
qed

text \<open>
  Taking out a node \<open>z\<close> that has at most one child \<open>x\<close>: the tree without \<open>z\<close> is
  well formed, and it is a search tree for the bounds in which the key of \<open>z\<close> is
  replaced by the bound of \<open>z\<close> on the same side.
\<close>

lemma splice_inv:
  fixes key :: "addr \<Rightarrow> 'k::linorder"
  assumes L: "links_ok {} T" and B: "bst_ok {} key lo hi T" and z: "live T z"
    and ch: "(lf T z = None \<and> x = rt T z) \<or> (rt T z = None \<and> x = lf T z)"
    and R: "transplant_rel T z x T1"
  shows "links_ok {z} T1"
    and "bst_ok {z} key (\<lambda>b. if lo b = Some (key z) then lo z else lo b)
           (\<lambda>b. if hi b = Some (key z) then hi z else hi b) T1"
    and "rr_ok {} {} T \<Longrightarrow> rr_ok {z} (set_option x) T1"
proof -
  note LD = links_okD[OF L] links_ok_root[OF L]
  note BD = bst_okD[OF B]
  have zx: "a \<notin> {}" for a :: addr by simp
  have lv: "live T1 = live T" and cl: "col T1 = col T" using R by (simp_all add: transplant_rel_def rest_eq_def)
  have rt1: "root T1 = (if pa T z = None then x else root T)"
    and pa1: "\<And>a. pa T1 a = (if x = Some a then pa T z else pa T a)"
    using R by (simp_all add: transplant_rel_def)
  note lf1 = transplant_slots(1)[OF L B z R] and rg1 = transplant_slots(2)[OF L B z R]
  have iz: "inb (lo z) (hi z) (key z)" using BD(1)[OF z] by simp
  have nz: "lo z \<noteq> Some (key z)" "hi z \<noteq> Some (key z)" using iz by (auto simp: inb_def)
  have xc: "live T c \<and> c \<noteq> z \<and> pa T c = Some z \<and>
      ((lo c = Some (key z) \<and> hi c = hi z) \<or> (lo c = lo z \<and> hi c = Some (key z)))"
    if "x = Some c" for c
  proof -
    have c: "lf T z = Some c \<or> rt T z = Some c" using that ch by auto
    then have "child T z c" using z by (simp add: child_def)
    then have "z \<noteq> c" using acyclic1[OF L B z] by simp
    then show ?thesis using c LD(3,4)[OF z zx, of c] BD(3,4)[OF z zx, of c] by auto
  qed
  have cz: "x = Some b" if "pa T b = Some z" "live T b" for b
    using LD(2)[OF that(2) zx that(1)] ch by auto
  have kz: "key a \<noteq> key z" if "live T a" "a \<noteq> z" for a
    using key_inj[OF L B that(1) zx z zx] that(2) by auto
  have pz: "live T p \<and> p \<noteq> z \<and> (lf T p = Some z \<or> rt T p = Some z)" if "pa T z = Some p" for p
  proof -
    have p: "live T p" "lf T p = Some z \<or> rt T p = Some z" using LD(2)[OF z zx that] by auto
    then have "child T p z" by (simp add: child_def)
    then have "p \<noteq> z" using acyclic1[OF L B p(1)] by simp
    then show ?thesis using p by simp
  qed
  have l2: "\<forall>r. root T1 = Some r \<longrightarrow> live T r \<and> r \<notin> {z} \<and> pa T1 r = None"
  proof (intro allI impI)
    fix r assume 2: "root T1 = Some r"
    show "live T r \<and> r \<notin> {z} \<and> pa T1 r = None"
    proof (cases "pa T z")
      case None
      then have xr: "x = Some r" using 2 rt1 by simp
      show ?thesis using xc[OF xr] pa1[of r] xr None by simp
    next
      case (Some p)
      then have r: "root T = Some r" using 2 rt1 by simp
      have "pa T r = None" "live T r" using LD(5)[OF r] by auto
      moreover have "x \<noteq> Some r" using xc[of r] \<open>pa T r = None\<close> by auto
      ultimately show ?thesis using Some pa1[of r] by auto
    qed
  qed
  have l3: "\<forall>a. live T a \<and> a \<notin> {z} \<longrightarrow>
      (pa T1 a = None \<longrightarrow> root T1 = Some a) \<and>
      (\<forall>p. pa T1 a = Some p \<longrightarrow> live T p \<and> p \<notin> {z} \<and> (lf T1 p = Some a \<or> rt T1 p = Some a)) \<and>
      (\<forall>b. lf T1 a = Some b \<longrightarrow> live T b \<and> b \<notin> {z} \<and> pa T1 b = Some a) \<and>
      (\<forall>b. rt T1 a = Some b \<longrightarrow> live T b \<and> b \<notin> {z} \<and> pa T1 b = Some a)"
  proof (intro allI impI)
    fix a assume "live T a \<and> a \<notin> {z}"
    then have a: "live T a" "a \<noteq> z" by auto
    have c1: "pa T1 a = None \<longrightarrow> root T1 = Some a"
    proof
      assume n: "pa T1 a = None"
      show "root T1 = Some a"
      proof (cases "x = Some a")
        case True
        then show ?thesis using n pa1[of a] rt1 by simp
      next
        case False
        then have "pa T a = None" using n pa1[of a] by simp
        then have r: "root T = Some a" using LD(1)[OF a(1)] by simp
        have "pa T z \<noteq> None" using LD(1)[OF z zx] r a(2) by auto
        then show ?thesis using rt1 r by auto
      qed
    qed
    have c2: "\<forall>p. pa T1 a = Some p \<longrightarrow> live T p \<and> p \<notin> {z} \<and> (lf T1 p = Some a \<or> rt T1 p = Some a)"
    proof (intro allI impI)
      fix p assume n: "pa T1 a = Some p"
      show "live T p \<and> p \<notin> {z} \<and> (lf T1 p = Some a \<or> rt T1 p = Some a)"
      proof (cases "x = Some a")
        case True
        then have "pa T z = Some p" using n pa1[of a] by simp
        then show ?thesis using pz[of p] lf1[of p] rg1[of p] True by auto
      next
        case False
        then have p: "pa T a = Some p" using n pa1[of a] by simp
        have "p \<noteq> z" using cz[of a] p a(1) False by auto
        then show ?thesis using LD(2)[OF a(1) zx p] lf1[of p] rg1[of p] a(2) by auto
      qed
    qed
    have c3: "\<forall>b. lf T1 a = Some b \<longrightarrow> live T b \<and> b \<notin> {z} \<and> pa T1 b = Some a"
    proof (intro allI impI)
      fix b assume n: "lf T1 a = Some b"
      show "live T b \<and> b \<notin> {z} \<and> pa T1 b = Some a"
      proof (cases "lf T a = Some z")
        case True
        then have "x = Some b" "pa T z = Some a" using n lf1[of a] LD(3)[OF a(1) zx True] by auto
        then show ?thesis using xc[of b] pa1[of b] by simp
      next
        case False
        then have b: "lf T a = Some b" using n lf1[of a] by simp
        have bb: "live T b" "pa T b = Some a" using LD(3)[OF a(1) zx b] by auto
        have "x \<noteq> Some b" using xc[of b] bb(2) a(2) by auto
        then show ?thesis using bb False b pa1[of b] by auto
      qed
    qed
    have c4: "\<forall>b. rt T1 a = Some b \<longrightarrow> live T b \<and> b \<notin> {z} \<and> pa T1 b = Some a"
    proof (intro allI impI)
      fix b assume n: "rt T1 a = Some b"
      show "live T b \<and> b \<notin> {z} \<and> pa T1 b = Some a"
      proof (cases "rt T a = Some z")
        case True
        then have "x = Some b" "pa T z = Some a" using n rg1[of a] LD(4)[OF a(1) zx True] by auto
        then show ?thesis using xc[of b] pa1[of b] by simp
      next
        case False
        then have b: "rt T a = Some b" using n rg1[of a] by simp
        have bb: "live T b" "pa T b = Some a" using LD(4)[OF a(1) zx b] by auto
        have "x \<noteq> Some b" using xc[of b] bb(2) a(2) by auto
        then show ?thesis using bb False b pa1[of b] by auto
      qed
    qed
    show "(pa T1 a = None \<longrightarrow> root T1 = Some a) \<and>
      (\<forall>p. pa T1 a = Some p \<longrightarrow> live T p \<and> p \<notin> {z} \<and> (lf T1 p = Some a \<or> rt T1 p = Some a)) \<and>
      (\<forall>b. lf T1 a = Some b \<longrightarrow> live T b \<and> b \<notin> {z} \<and> pa T1 b = Some a) \<and>
      (\<forall>b. rt T1 a = Some b \<longrightarrow> live T b \<and> b \<notin> {z} \<and> pa T1 b = Some a)"
      using c1 c2 c3 c4 by blast
  qed
  show "links_ok {z} T1"
    unfolding links_ok_def lv using links_ok_finite[OF L] l2 l3 by blast
  show "bst_ok {z} key (\<lambda>b. if lo b = Some (key z) then lo z else lo b)
           (\<lambda>b. if hi b = Some (key z) then hi z else hi b) T1"
    unfolding bst_ok_def lv
  proof (intro allI impI)
    fix a assume "live T a \<and> a \<notin> {z}"
    then have a: "live T a" "a \<noteq> z" by auto
    have ia: "inb (lo a) (hi a) (key a)" using BD(1)[OF a(1)] by simp
    have c1: "inb (if lo a = Some (key z) then lo z else lo a)
                 (if hi a = Some (key z) then hi z else hi a) (key a)"
      using ia iz by (auto simp: inb_def split: option.splits)
    have c2: "pa T1 a = None \<longrightarrow> (if lo a = Some (key z) then lo z else lo a) = None \<and>
                 (if hi a = Some (key z) then hi z else hi a) = None"
    proof
      assume n: "pa T1 a = None"
      show "(if lo a = Some (key z) then lo z else lo a) = None \<and>
                 (if hi a = Some (key z) then hi z else hi a) = None"
      proof (cases "x = Some a")
        case True
        then have "pa T z = None" using n pa1[of a] by simp
        then have "lo z = None" "hi z = None" using BD(2)[OF z zx] by auto
        then show ?thesis using xc[OF True] by auto
      next
        case False
        then have "pa T a = None" using n pa1[of a] by simp
        then show ?thesis using BD(2)[OF a(1) zx] by simp
      qed
    qed
    have c3: "\<forall>b. lf T1 a = Some b \<longrightarrow>
        (if lo b = Some (key z) then lo z else lo b) = (if lo a = Some (key z) then lo z else lo a) \<and>
        (if hi b = Some (key z) then hi z else hi b) = Some (key a)"
    proof (intro allI impI)
      fix b assume b: "lf T1 a = Some b"
      show "(if lo b = Some (key z) then lo z else lo b) = (if lo a = Some (key z) then lo z else lo a) \<and>
        (if hi b = Some (key z) then hi z else hi b) = Some (key a)"
      proof (cases "lf T a = Some z")
        case True
        then have "x = Some b" using b lf1[of a] by simp
        then show ?thesis using xc[of b] BD(3)[OF a(1) zx True] nz by auto
      next
        case False
        then have "lf T a = Some b" using b lf1[of a] by simp
        then show ?thesis using BD(3)[OF a(1) zx, of b] kz[OF a] by auto
      qed
    qed
    have c4: "\<forall>b. rt T1 a = Some b \<longrightarrow>
        (if lo b = Some (key z) then lo z else lo b) = Some (key a) \<and>
        (if hi b = Some (key z) then hi z else hi b) = (if hi a = Some (key z) then hi z else hi a)"
    proof (intro allI impI)
      fix b assume b: "rt T1 a = Some b"
      show "(if lo b = Some (key z) then lo z else lo b) = Some (key a) \<and>
        (if hi b = Some (key z) then hi z else hi b) = (if hi a = Some (key z) then hi z else hi a)"
      proof (cases "rt T a = Some z")
        case True
        then have "x = Some b" using b rg1[of a] by simp
        then show ?thesis using xc[of b] BD(4)[OF a(1) zx True] nz by auto
      next
        case False
        then have "rt T a = Some b" using b rg1[of a] by simp
        then show ?thesis using BD(4)[OF a(1) zx, of b] kz[OF a] by auto
      qed
    qed
    show "inb (if lo a = Some (key z) then lo z else lo a)
            (if hi a = Some (key z) then hi z else hi a) (key a) \<and>
          (pa T1 a = None \<longrightarrow> (if lo a = Some (key z) then lo z else lo a) = None \<and>
                 (if hi a = Some (key z) then hi z else hi a) = None) \<and>
          (\<forall>b. lf T1 a = Some b \<longrightarrow>
        (if lo b = Some (key z) then lo z else lo b) = (if lo a = Some (key z) then lo z else lo a) \<and>
        (if hi b = Some (key z) then hi z else hi b) = Some (key a)) \<and>
          (\<forall>b. rt T1 a = Some b \<longrightarrow>
        (if lo b = Some (key z) then lo z else lo b) = Some (key a) \<and>
        (if hi b = Some (key z) then hi z else hi b) = (if hi a = Some (key z) then hi z else hi a))"
      using c1 c2 c3 c4 by blast
  qed
  show "rr_ok {z} (set_option x) T1" if RR: "rr_ok {} {} T"
    unfolding rr_ok_def lv cl
  proof (intro allI impI)
    fix a c assume h: "live T a \<and> a \<notin> {z} \<and> col T a = red \<and> (lf T1 a = Some c \<or> rt T1 a = Some c) \<and> col T c = red"
    show "c \<in> set_option x"
    proof (rule ccontr)
      assume n: "c \<notin> set_option x"
      then have "lf T a = Some c \<or> rt T a = Some c" using h lf1[of a] rg1[of a] by (auto split: if_splits)
      then have "c \<in> {}" using RR h unfolding rr_ok_def by blast
      then show False by simp
    qed
  qed
qed

lemma relabel_inv:
  fixes key :: "addr \<Rightarrow> 'k::linorder"
  assumes L: "links_ok {y} T" and B: "bst_ok {y} key lo hi T"
    and z: "live T z" "z \<noteq> y" and y: "live T y"
    and R: "relabel_rel T z y T1"
    and iy: "inb (lo z) (hi z) (key y)"
    and SC: "\<forall>b. live T b \<and> b \<noteq> y \<and> b \<noteq> z \<longrightarrow>
             (lo b = Some (key z) \<longrightarrow> key y < key b) \<and> (hi b = Some (key z) \<longrightarrow> key b < key y)"
  shows "links_ok {z} T1"
    and "bst_ok {z} key (\<lambda>b. if b = y then lo z else if lo b = Some (key z) then Some (key y) else lo b)
           (\<lambda>b. if b = y then hi z else if hi b = Some (key z) then Some (key y) else hi b) T1"
    and "rr_ok {y} E T \<Longrightarrow> z \<notin> E \<Longrightarrow> rr_ok {z} E T1"
    and "root_black T \<Longrightarrow> root_black T1"
proof -
  have yx: "a \<notin> {y} \<longleftrightarrow> a \<noteq> y" for a by simp
  note LD = links_okD[OF L, unfolded yx] links_ok_root[OF L, unfolded yx]
  note BD = bst_okD[OF B, unfolded yx]
  have lv: "live T1 = live T" using R by (simp add: relabel_rel_def rest_eq_def)
  have rt1: "root T1 = (if root T = Some z then Some y else root T)"
    and pa1: "\<And>a. a \<noteq> z \<Longrightarrow> pa T1 a = (if a = y then pa T z else if pa T a = Some z then Some y else pa T a)"
    and lf1: "\<And>a. a \<noteq> z \<Longrightarrow> lf T1 a = (if a = y then lf T z else if lf T a = Some z then Some y else lf T a)"
    and rg1: "\<And>a. a \<noteq> z \<Longrightarrow> rt T1 a = (if a = y then rt T z else if rt T a = Some z then Some y else rt T a)"
    and cl1: "\<And>a. a \<noteq> z \<Longrightarrow> col T1 a = (if a = y then col T z else col T a)"
    using R by (simp_all add: relabel_rel_def)
  have zz: "pa T z \<noteq> Some z" "lf T z \<noteq> Some z" "rt T z \<noteq> Some z"
  proof -
    show "lf T z \<noteq> Some z" "rt T z \<noteq> Some z"
      using acyclic1[OF L B z(1), of z] z by (auto simp: child_def)
    show "pa T z \<noteq> Some z" using LD(2)[OF z, of z] \<open>lf T z \<noteq> Some z\<close> \<open>rt T z \<noteq> Some z\<close> by auto
  qed
  have l2: "\<forall>r. root T1 = Some r \<longrightarrow> live T r \<and> r \<notin> {z} \<and> pa T1 r = None"
  proof (intro allI impI)
    fix r assume 2: "root T1 = Some r"
    show "live T r \<and> r \<notin> {z} \<and> pa T1 r = None"
    proof (cases "root T = Some z")
      case True
      then show ?thesis using 2 rt1 LD(5)[OF True] y z pa1[of y] by auto
    next
      case False
      then have r: "root T = Some r" "r \<noteq> z" using 2 rt1 by auto
      then show ?thesis using LD(5)[OF r(1)] pa1[of r] by auto
    qed
  qed
  have l3: "\<forall>a. live T a \<and> a \<notin> {z} \<longrightarrow>
      (pa T1 a = None \<longrightarrow> root T1 = Some a) \<and>
      (\<forall>p. pa T1 a = Some p \<longrightarrow> live T p \<and> p \<notin> {z} \<and> (lf T1 p = Some a \<or> rt T1 p = Some a)) \<and>
      (\<forall>b. lf T1 a = Some b \<longrightarrow> live T b \<and> b \<notin> {z} \<and> pa T1 b = Some a) \<and>
      (\<forall>b. rt T1 a = Some b \<longrightarrow> live T b \<and> b \<notin> {z} \<and> pa T1 b = Some a)"
  proof (intro allI impI)
    fix a assume "live T a \<and> a \<notin> {z}"
    then have a: "live T a" "a \<noteq> z" by auto
    show "(pa T1 a = None \<longrightarrow> root T1 = Some a) \<and>
      (\<forall>p. pa T1 a = Some p \<longrightarrow> live T p \<and> p \<notin> {z} \<and> (lf T1 p = Some a \<or> rt T1 p = Some a)) \<and>
      (\<forall>b. lf T1 a = Some b \<longrightarrow> live T b \<and> b \<notin> {z} \<and> pa T1 b = Some a) \<and>
      (\<forall>b. rt T1 a = Some b \<longrightarrow> live T b \<and> b \<notin> {z} \<and> pa T1 b = Some a)"
    proof (cases "a = y")
      case True
      have c1: "pa T1 y = None \<longrightarrow> root T1 = Some y"
        using pa1[of y] z(2) LD(1)[OF z] rt1 by auto
      have c2: "\<forall>p. pa T1 y = Some p \<longrightarrow> live T p \<and> p \<notin> {z} \<and> (lf T1 p = Some y \<or> rt T1 p = Some y)"
      proof (intro allI impI)
        fix p assume "pa T1 y = Some p"
        then have p: "pa T z = Some p" using pa1[of y] z(2) by auto
        then have "live T p" "p \<noteq> y" "lf T p = Some z \<or> rt T p = Some z" "p \<noteq> z"
          using LD(2)[OF z p] zz by auto
        then show "live T p \<and> p \<notin> {z} \<and> (lf T1 p = Some y \<or> rt T1 p = Some y)"
          using lf1[of p] rg1[of p] by auto
      qed
      have c3: "\<forall>b. lf T1 y = Some b \<longrightarrow> live T b \<and> b \<notin> {z} \<and> pa T1 b = Some y"
      proof (intro allI impI)
        fix b assume "lf T1 y = Some b"
        then have b: "lf T z = Some b" using lf1[of y] z(2) by auto
        then have "live T b" "b \<noteq> y" "pa T b = Some z" "b \<noteq> z" using LD(3)[OF z b] zz by auto
        then show "live T b \<and> b \<notin> {z} \<and> pa T1 b = Some y" using pa1[of b] by auto
      qed
      have c4: "\<forall>b. rt T1 y = Some b \<longrightarrow> live T b \<and> b \<notin> {z} \<and> pa T1 b = Some y"
      proof (intro allI impI)
        fix b assume "rt T1 y = Some b"
        then have b: "rt T z = Some b" using rg1[of y] z(2) by auto
        then have "live T b" "b \<noteq> y" "pa T b = Some z" "b \<noteq> z" using LD(4)[OF z b] zz by auto
        then show "live T b \<and> b \<notin> {z} \<and> pa T1 b = Some y" using pa1[of b] by auto
      qed
      show ?thesis unfolding True using c1 c2 c3 c4 by blast
    next
      case False
      note ay = a(1) False
      have c1: "pa T1 a = None \<longrightarrow> root T1 = Some a"
      proof
        assume "pa T1 a = None"
        then have "pa T a = None" using pa1[OF a(2)] False by (auto split: if_splits)
        then have "root T = Some a" using LD(1)[OF ay] by simp
        then show "root T1 = Some a" using rt1 a(2) by simp
      qed
      have c2: "\<forall>p. pa T1 a = Some p \<longrightarrow> live T p \<and> p \<notin> {z} \<and> (lf T1 p = Some a \<or> rt T1 p = Some a)"
      proof (intro allI impI)
        fix p assume p1: "pa T1 a = Some p"
        show "live T p \<and> p \<notin> {z} \<and> (lf T1 p = Some a \<or> rt T1 p = Some a)"
        proof (cases "pa T a = Some z")
          case True
          then have "p = y" using p1 pa1[OF a(2)] False by simp
          moreover have "lf T z = Some a \<or> rt T z = Some a" using LD(2)[OF ay True] by simp
          ultimately show ?thesis using y z(2) lf1[of y] rg1[of y] by auto
        next
          case F: False
          then have p: "pa T a = Some p" "p \<noteq> z" using p1 pa1[OF a(2)] False by auto
          then have "live T p" "p \<noteq> y" "lf T p = Some a \<or> rt T p = Some a" using LD(2)[OF ay p(1)] by auto
          then show ?thesis using p(2) lf1[of p] rg1[of p] a(2) by auto
        qed
      qed
      have c3: "\<forall>b. lf T1 a = Some b \<longrightarrow> live T b \<and> b \<notin> {z} \<and> pa T1 b = Some a"
      proof (intro allI impI)
        fix b assume b1: "lf T1 a = Some b"
        show "live T b \<and> b \<notin> {z} \<and> pa T1 b = Some a"
        proof (cases "lf T a = Some z")
          case True
          then have "b = y" using b1 lf1[OF a(2)] False by simp
          moreover have "pa T z = Some a" using LD(3)[OF ay True] by simp
          ultimately show ?thesis using y z(2) pa1[of y] by auto
        next
          case F: False
          then have b: "lf T a = Some b" "b \<noteq> z" using b1 lf1[OF a(2)] False by auto
          then have "live T b" "b \<noteq> y" "pa T b = Some a" using LD(3)[OF ay b(1)] by auto
          then show ?thesis using b(2) pa1[of b] a(2) by auto
        qed
      qed
      have c4: "\<forall>b. rt T1 a = Some b \<longrightarrow> live T b \<and> b \<notin> {z} \<and> pa T1 b = Some a"
      proof (intro allI impI)
        fix b assume b1: "rt T1 a = Some b"
        show "live T b \<and> b \<notin> {z} \<and> pa T1 b = Some a"
        proof (cases "rt T a = Some z")
          case True
          then have "b = y" using b1 rg1[OF a(2)] False by simp
          moreover have "pa T z = Some a" using LD(4)[OF ay True] by simp
          ultimately show ?thesis using y z(2) pa1[of y] by auto
        next
          case F: False
          then have b: "rt T a = Some b" "b \<noteq> z" using b1 rg1[OF a(2)] False by auto
          then have "live T b" "b \<noteq> y" "pa T b = Some a" using LD(4)[OF ay b(1)] by auto
          then show ?thesis using b(2) pa1[of b] a(2) by auto
        qed
      qed
      show ?thesis using c1 c2 c3 c4 by blast
    qed
  qed
  show "links_ok {z} T1"
    unfolding links_ok_def lv using links_ok_finite[OF L] l2 l3 by blast
  show "root_black T1" if RB: "root_black T"
  proof -
    have "col T1 r = black" if r: "root T1 = Some r" for r
    proof (cases "root T = Some z")
      case True
      then show ?thesis using r rt1 cl1[of y] z(2) RB by (auto simp: root_black_def)
    next
      case False
      then have "root T = Some r" "r \<noteq> z" using r rt1 by auto
      moreover from this have "r \<noteq> y" using LD(5)[of r] by auto
      ultimately show ?thesis using cl1[of r] RB by (auto simp: root_black_def)
    qed
    then show ?thesis by (simp add: root_black_def)
  qed
  show "rr_ok {z} E T1" if RR: "rr_ok {y} E T" and zE: "z \<notin> E"
    unfolding rr_ok_def lv
  proof (intro allI impI)
    fix a c
    assume h: "live T a \<and> a \<notin> {z} \<and> col T1 a = red \<and> (lf T1 a = Some c \<or> rt T1 a = Some c) \<and> col T1 c = red"
    then have a: "live T a" "a \<noteq> z" by auto
    have cz: "c \<noteq> z" using l3 h by blast
    define a' where "a' = (if a = y then z else a)"
    define c' where "c' = (if c = y then z else c)"
    have a': "live T a'" "a' \<noteq> y" "col T a' = red" using h z cl1[OF a(2)] by (auto simp: a'_def)
    have cc: "col T c' = red" using h cl1[OF cz] by (auto simp: c'_def)
    have e: "lf T a' = Some c' \<or> rt T a' = Some c'"
    proof (cases "a = y")
      case True
      then have ch: "lf T z = Some c \<or> rt T z = Some c" using h lf1[of y] rg1[of y] z(2) by auto
      then have "c \<noteq> y" using LD(3,4)[OF z, of c] by auto
      then show ?thesis using ch True by (simp add: a'_def c'_def)
    next
      case False
      then have "a' = a" by (simp add: a'_def)
      have "c \<noteq> y \<longrightarrow> lf T a = Some c \<or> rt T a = Some c"
        using h lf1[OF a(2)] rg1[OF a(2)] False by (auto split: if_splits)
      moreover have "c = y \<longrightarrow> lf T a = Some z \<or> rt T a = Some z"
        using h lf1[OF a(2)] rg1[OF a(2)] False LD(3,4)[OF a(1) False, of y] by (auto split: if_splits)
      ultimately show ?thesis unfolding \<open>a' = a\<close> c'_def by auto
    qed
    have "c' \<in> E" using RR a' cc e unfolding rr_ok_def by blast
    then show "c \<in> E" using zE by (auto simp: c'_def split: if_splits)
  qed
  show "bst_ok {z} key (\<lambda>b. if b = y then lo z else if lo b = Some (key z) then Some (key y) else lo b)
           (\<lambda>b. if b = y then hi z else if hi b = Some (key z) then Some (key y) else hi b) T1"
    (is "bst_ok {z} key ?lo ?hi T1")
    unfolding bst_ok_def lv
  proof (intro allI impI)
    fix a assume "live T a \<and> a \<notin> {z}"
    then have a: "live T a" "a \<noteq> z" by auto
    have iz: "inb (lo z) (hi z) (key z)" using BD(1)[OF z] .
    have nz: "lo z \<noteq> Some (key z)" "hi z \<noteq> Some (key z)" using iz by (auto simp: inb_def)
    show "inb (?lo a) (?hi a) (key a) \<and>
          (pa T1 a = None \<longrightarrow> ?lo a = None \<and> ?hi a = None) \<and>
          (\<forall>b. lf T1 a = Some b \<longrightarrow> ?lo b = ?lo a \<and> ?hi b = Some (key a)) \<and>
          (\<forall>b. rt T1 a = Some b \<longrightarrow> ?lo b = Some (key a) \<and> ?hi b = ?hi a)"
    proof (cases "a = y")
      case True
      have c2: "pa T1 y = None \<longrightarrow> lo z = None \<and> hi z = None"
        using pa1[of y] z(2) BD(2)[OF z] by auto
      have c3: "\<forall>b. lf T1 y = Some b \<longrightarrow> ?lo b = lo z \<and> ?hi b = Some (key y)"
      proof (intro allI impI)
        fix b assume "lf T1 y = Some b"
        then have b: "lf T z = Some b" using lf1[of y] z(2) by auto
        then have "b \<noteq> y" using LD(3)[OF z b] by simp
        then show "?lo b = lo z \<and> ?hi b = Some (key y)" using BD(3)[OF z b] nz by auto
      qed
      have c4: "\<forall>b. rt T1 y = Some b \<longrightarrow> ?lo b = Some (key y) \<and> ?hi b = hi z"
      proof (intro allI impI)
        fix b assume "rt T1 y = Some b"
        then have b: "rt T z = Some b" using rg1[of y] z(2) by auto
        then have "b \<noteq> y" using LD(4)[OF z b] by simp
        then show "?lo b = Some (key y) \<and> ?hi b = hi z" using BD(4)[OF z b] nz by auto
      qed
      show ?thesis unfolding True using iy c2 c3 c4 by simp
    next
      case False
      note ay = a(1) False
      have kz: "key a \<noteq> key z" using key_inj[OF L B a(1) _ z(1)] False z(2) a(2) by auto
      have ia: "inb (lo a) (hi a) (key a)" using BD(1)[OF ay] .
      have c1: "inb (?lo a) (?hi a) (key a)"
        using ia SC a False by (auto simp: inb_def split: option.splits)
      have c2: "pa T1 a = None \<longrightarrow> ?lo a = None \<and> ?hi a = None"
        using pa1[OF a(2)] False BD(2)[OF ay] by (auto split: if_splits)
      have c3: "\<forall>b. lf T1 a = Some b \<longrightarrow> ?lo b = ?lo a \<and> ?hi b = Some (key a)"
      proof (intro allI impI)
        fix b assume b1: "lf T1 a = Some b"
        show "?lo b = ?lo a \<and> ?hi b = Some (key a)"
        proof (cases "lf T a = Some z")
          case True
          then have "b = y" using b1 lf1[OF a(2)] False by simp
          then show ?thesis using BD(3)[OF ay True] False nz by auto
        next
          case F: False
          then have b: "lf T a = Some b" using b1 lf1[OF a(2)] False by auto
          then have "b \<noteq> y" using LD(3)[OF ay b] by simp
          then show ?thesis using BD(3)[OF ay b] kz False by auto
        qed
      qed
      have c4: "\<forall>b. rt T1 a = Some b \<longrightarrow> ?lo b = Some (key a) \<and> ?hi b = ?hi a"
      proof (intro allI impI)
        fix b assume b1: "rt T1 a = Some b"
        show "?lo b = Some (key a) \<and> ?hi b = ?hi a"
        proof (cases "rt T a = Some z")
          case True
          then have "b = y" using b1 rg1[OF a(2)] False by simp
          then show ?thesis using BD(4)[OF ay True] False nz by auto
        next
          case F: False
          then have b: "rt T a = Some b" using b1 rg1[OF a(2)] False by auto
          then have "b \<noteq> y" using LD(4)[OF ay b] by simp
          then show ?thesis using BD(4)[OF ay b] kz False by auto
        qed
      qed
      show ?thesis using c1 c2 c3 c4 by blast
    qed
  qed
qed

text \<open>The leftmost node of the right subtree of \<open>z\<close> holds the least key above the key of \<open>z\<close>.\<close>

lemma successor_facts:
  fixes key :: "addr \<Rightarrow> 'k::linorder" and T :: "('k, 'o) RB_TREE"
  assumes L: "links_ok {} T" and B: "bst_ok {} key lo hi T" and z: "live T z"
    and r: "rt T z = Some r"
  shows "\<exists>y. RtlpRbTreeMinimum T r = Some y \<and> live T y \<and> y \<noteq> z \<and> lf T y = None \<and>
     lo y = Some (key z) \<and> key z < key y \<and> inb (lo z) (hi z) (key y) \<and>
     (\<forall>b. live T b \<and> key z < key b \<longrightarrow> key y \<le> key b) \<and>
     (pa T y = Some z \<longleftrightarrow> y = r) \<and>
     (y \<noteq> r \<longrightarrow> (\<exists>q. pa T y = Some q \<and> lf T q = Some y \<and> live T q \<and> q \<noteq> z \<and> q \<noteq> y))"
proof -
  have zx: "a \<notin> {}" for a :: addr by simp
  note LD = links_okD[OF L] and BD = bst_okD[OF B]
  have rl: "live T r" "pa T r = Some z" using LD(4)[OF z zx r] by auto
  have rb: "lo r = Some (key z)" "hi r = hi z" using BD(4)[OF z zx r] by auto
  from Minimum_spec[OF L B rl(1) zx] obtain y where
    y: "RtlpRbTreeMinimum T r = Some y" "live T y" "lf T y = None" "lo y = lo r"
       "y = r \<or> (\<exists>q. pa T y = Some q \<and> lf T q = Some y \<and> (child T)\<^sup>*\<^sup>* r q)" by blast
  have dy: "(child T)\<^sup>*\<^sup>* r y"
  proof (cases "y = r")
    case True then show ?thesis by simp
  next
    case False
    then obtain q where q: "pa T y = Some q" "lf T q = Some y" "(child T)\<^sup>*\<^sup>* r q" using y(5) by blast
    have "child T q y" using q(2) view_live(1)[OF q(2)] by (simp add: child_def)
    then show ?thesis using q(3) by (meson rtranclp.rtrancl_into_rtrancl)
  qed
  have iy: "inb (lo y) (hi y) (key y)" using BD(1)[OF y(2) zx] .
  have ir: "inb (lo r) (hi r) (key y)" using desc_props[OF L B dy rl(1) zx] by simp
  have kzy: "key z < key y" using ir rb by (auto dest: inb_Some_right)
  have izy: "inb (lo z) (hi z) (key y)" using ir rb BD(1)[OF z zx] by (auto intro: inb_right)
  have yz: "y \<noteq> z" using kzy by auto
  have suc: "key y \<le> key b" if b: "live T b" "key z < key b" for b
  proof (rule ccontr)
    assume "\<not> key y \<le> key b"
    then have lt: "key b < key y" by simp
    have "inb (lo y) (hi y) (key b)" using iy lt b(2) y(4) rb(1) by (auto simp: inb_def split: option.splits)
    then have d: "(child T)\<^sup>*\<^sup>* y b" using inb_imp_desc[OF L B y(2) zx b(1) zx] by simp
    from desc_cases[OF d] show False
    proof (elim disjE exE conjE)
      assume "b = y" then show False using lt by simp
    next
      fix c assume "lf T y = Some c" then show False using y(3) by simp
    next
      fix c assume c: "rt T y = Some c" "(child T)\<^sup>*\<^sup>* c b"
      have cl: "live T c" using LD(4)[OF y(2) zx c(1)] by simp
      have "inb (lo c) (hi c) (key b)" using desc_props[OF L B c(2) cl zx] by simp
      then have "key y < key b" using BD(4)[OF y(2) zx c(1)] by (auto dest: inb_Some_right)
      then show False using lt by simp
    qed
  qed
  have pz: "pa T y = Some z \<longleftrightarrow> y = r"
  proof
    assume "pa T y = Some z"
    then have "lf T z = Some y \<or> rt T z = Some y" using LD(2)[OF y(2) zx] by simp
    moreover have "lf T z \<noteq> Some y"
    proof
      assume "lf T z = Some y"
      then have "lo y = lo z" using BD(3)[OF z zx] by simp
      then have "lo z = Some (key z)" using y(4) rb(1) by simp
      then show False using BD(1)[OF z zx] by simp
    qed
    ultimately show "y = r" using r by simp
  next
    assume "y = r" then show "pa T y = Some z" using rl by simp
  qed
  have dp: "\<exists>q. pa T y = Some q \<and> lf T q = Some y \<and> live T q \<and> q \<noteq> z \<and> q \<noteq> y" if "y \<noteq> r"
  proof -
    from that obtain q where q: "pa T y = Some q" "lf T q = Some y" using y(5) by blast
    have ql: "live T q" using view_live(1)[OF q(2)] .
    have "q \<noteq> z" using pz that q(1) by auto
    moreover have "q \<noteq> y" using acyclic1[OF L B ql zx childI1[OF ql q(2)]] .
    ultimately show ?thesis using q ql by blast
  qed
  show ?thesis using y(1,2,3) yz y(4) rb(1) kzy izy suc pz dp by auto
qed

lemma unlink_le1:
  fixes key :: "addr \<Rightarrow> 'k::linorder" and T :: "('k, 'o) RB_TREE"
  assumes L: "links_ok {} T" and z: "live T z" and ch: "lf T z = None \<or> rt T z = None"
  shows "\<exists>T1 x. DeleteNode_unlink T z = Some (T1, col T z, x) \<and>
     ((lf T z = None \<and> x = rt T z) \<or> (rt T z = None \<and> x = lf T z)) \<and> transplant_rel T z x T1"
proof -
  have zx: "a \<notin> {}" for a :: addr by simp
  note LD = links_okD[OF L]
  have p: "\<forall>p. pa T z = Some p \<longrightarrow> live T p" using LD(2)[OF z zx] by blast
  show ?thesis
  proof (cases "lf T z")
    case None
    have x: "\<forall>c. rt T z = Some c \<longrightarrow> live T c" using LD(4)[OF z zx] by blast
    from Transplant_raw[OF z p x] obtain T1 where
      "RtlpRbTreeTransplant T z (rt T z) = Some T1" "transplant_rel T z (rt T z) T1" by blast
    then show ?thesis using None z by (simp add: DeleteNode_unlink_def getters)
  next
    case (Some l)
    then have r: "rt T z = None" using ch by simp
    have x: "\<forall>c. lf T z = Some c \<longrightarrow> live T c" using LD(3)[OF z zx] by blast
    from Transplant_raw[OF z p x] obtain T1 where
      "RtlpRbTreeTransplant T z (lf T z) = Some T1" "transplant_rel T z (lf T z) T1" by blast
    then show ?thesis using Some r z by (simp add: DeleteNode_unlink_def getters)
  qed
qed

lemma rest_eq_upd [simp]: "rest_eq T (upd a (\<lambda>n. n\<lparr>parent := v\<rparr>) T)"
  "rest_eq T (upd a (\<lambda>n. n\<lparr>left := v\<rparr>) T)" "rest_eq T (upd a (\<lambda>n. n\<lparr>right := v\<rparr>) T)"
  "rest_eq T (upd a (\<lambda>n. n\<lparr>colour := c\<rparr>) T)"
  by (simp_all add: rest_eq_def view_upd)

lemma unlink_two_deep:
  fixes key :: "addr \<Rightarrow> 'k::linorder" and T :: "('k, 'o) RB_TREE"
  assumes L: "links_ok {} T" and B: "bst_ok {} key lo hi T" and z: "live T z"
    and l: "lf T z = Some l" and r: "rt T z = Some r"
    and y: "RtlpRbTreeMinimum T r = Some y" "live T y" "y \<noteq> z" "lf T y = None" "y \<noteq> r"
    and q: "pa T y = Some q" "lf T q = Some y" "live T q" "q \<noteq> z" "q \<noteq> y"
    and kzy: "key z < key y"
  shows "\<exists>Ta T1. DeleteNode_unlink T z = Some (T1, col T y, rt T y) \<and>
     transplant_rel T y (rt T y) Ta \<and> relabel_rel Ta z y T1"
proof -
  have zx: "a \<notin> {}" for a :: addr by simp
  note LD = links_okD[OF L]
  have ll: "live T l" "pa T l = Some z" and rl: "live T r" "pa T r = Some z"
    using LD(3)[OF z zx l] LD(4)[OF z zx r] by auto
  have lr: "l \<noteq> r" using lf_neq_rt[OF L B z zx l] r by auto
  have ly: "l \<noteq> y" using ll q(1,4) by auto
  have lz: "l \<noteq> z" "r \<noteq> z" using acyclic1[OF L B z zx, of l] acyclic1[OF L B z zx, of r] z l r
    by (auto simp: child_def)
  have xl: "\<forall>c. rt T y = Some c \<longrightarrow> live T c" using LD(4)[OF y(2) zx] by blast
  have xz1: "rt T y \<noteq> Some z"
  proof
    assume "rt T y = Some z"
    then have "lo z = Some (key y)" using bst_okD(4)[OF B y(2) zx] by simp
    then have "key y < key z" using bst_okD(1)[OF B z zx] by (auto dest: inb_Some_right)
    then show False using kzy by simp
  qed
  have xz: "rt T y \<noteq> Some z" "rt T y \<noteq> Some l" "rt T y \<noteq> Some r" "rt T y \<noteq> Some y"
    using xz1 LD(4)[OF y(2) zx, of l] LD(4)[OF y(2) zx, of r] ll rl y(3)
      acyclic1[OF L B y(2) zx, of y] y(2)
    by (auto simp: child_def)
  have py: "\<forall>p. pa T y = Some p \<longrightarrow> live T p" using q by simp
  from Transplant_raw[OF y(2) py xl] obtain Ta where
    Ta: "RtlpRbTreeTransplant T y (rt T y) = Some Ta" "transplant_rel T y (rt T y) Ta" by blast
  have va: "live Ta = live T" "col Ta = col T" "root Ta = root T"
    "\<And>a. lf Ta a = (if a = q then rt T y else lf T a)"
    "\<And>a. rt Ta a = rt T a"
    "\<And>a. pa Ta a = (if rt T y = Some a then Some q else pa T a)"
    using Ta(2) q(1,2) unfolding transplant_rel_def rest_eq_def by auto
  let ?Tb = "upd y (\<lambda>n. n\<lparr>right := Some r\<rparr>) Ta"
  let ?Tc = "upd r (\<lambda>n. n\<lparr>parent := Some y\<rparr>) ?Tb"
  have vc: "live ?Tc = live T" "col ?Tc = col T" "root ?Tc = root T"
    "lf ?Tc = lf Ta" "rt ?Tc = (rt Ta)(y := Some r)" "pa ?Tc = (pa Ta)(r := Some y)"
    using va(1,2,3) y(2) rl(1) by (simp_all add: view_upd)
  have pc: "pa ?Tc z = pa T z" using vc(6) va(6)[of z] lz xz by simp
  have pz: "\<forall>p. pa ?Tc z = Some p \<longrightarrow> live ?Tc p" unfolding pc vc(1) using LD(2)[OF z zx] by blast
  have zc: "live ?Tc z" "\<forall>c. Some y = Some c \<longrightarrow> live ?Tc c" using z y(2) vc(1) by simp_all
  from Transplant_raw[OF zc(1) pz zc(2)] obtain T2 where
    T2: "RtlpRbTreeTransplant ?Tc z (Some y) = Some T2" "transplant_rel ?Tc z (Some y) T2" by blast
  have v2: "live T2 = live T" "col T2 = col T"
    "root T2 = (if pa T z = None then Some y else root T)"
    "\<And>a. lf T2 a = (if pa T z = Some a \<and> lf ?Tc a = Some z then Some y else lf ?Tc a)"
    "\<And>a. rt T2 a = (if pa T z = Some a \<and> lf ?Tc a \<noteq> Some z then Some y else rt ?Tc a)"
    "\<And>a. pa T2 a = (if a = y then pa T z else pa ?Tc a)"
    using T2(2) vc(1,2,3) pc unfolding transplant_rel_def rest_eq_def by auto
  have pzz: "pa T z \<noteq> Some z" "pa T z \<noteq> Some y"
    using LD(2)[OF z zx, of z] l r acyclic1[OF L B z zx, of z] z lz
      LD(2)[OF z zx, of y] y(4) LD(4)[OF y(2) zx, of z] xz(1)
    by (auto simp: child_def)
  have l2: "lf T2 z = Some l" using v2(4)[of z] pzz vc(4) va(4)[of z] q(4) l by simp
  let ?T3 = "upd y (\<lambda>n. n\<lparr>left := Some l\<rparr>) T2"
  let ?T4 = "upd l (\<lambda>n. n\<lparr>parent := Some y\<rparr>) ?T3"
  let ?T5 = "upd y (\<lambda>n. n\<lparr>colour := col T z\<rparr>) ?T4"
  have v5: "live ?T5 = live T" "col ?T5 = (col T)(y := col T z)" "root ?T5 = root T2"
    "lf ?T5 = (lf T2)(y := Some l)" "rt ?T5 = rt T2" "pa ?T5 = (pa T2)(l := Some y)"
    using v2(1,2) y(2) ll(1) by (simp_all add: view_upd)
  have c4: "col ?T4 z = col T z" using v2(1,2) y(2) ll(1) by (simp add: view_upd)
  have run: "DeleteNode_unlink T z = Some (?T5, col T y, rt T y)"
    using z l r y(1,2) q(1,4) Ta(1) T2(1) va(1) v2(1) vc(1) va(5)[of z] l2 c4 rl(1) ll(1)
    by (simp add: DeleteNode_unlink_def getters setters view_upd)
  have re: "rest_eq Ta ?T5"
    using T2(2) by (auto simp: transplant_rel_def rest_eq_def view_upd)
  have ra: "root Ta = Some z \<longleftrightarrow> pa T z = None"
    using va(3) links_ok_root[OF L, of z] LD(1)[OF z zx] by auto
  have rel: "relabel_rel Ta z y ?T5"
    unfolding relabel_rel_def
  proof (intro conjI allI impI)
    show "rest_eq Ta ?T5" using re .
    show "root ?T5 = (if root Ta = Some z then Some y else root Ta)"
      using v5(3) v2(3) ra va(3) by auto
  next
    fix a :: addr assume az: "a \<noteq> z"
    have pz1: "pa T a = Some z \<longleftrightarrow> a = l \<or> a = r"
      using LD(2)[OF _ zx, of a z] l r ll rl view_live(3)[of T a z] by auto
    show "pa ?T5 a = (if a = y then pa Ta z else if pa Ta a = Some z then Some y else pa Ta a)"
      using v5(6) v2(6)[of a] vc(6) va(6)[of a] va(6)[of z] xz ly y(5) pz1 q(4) by auto
    have lz1: "lf T a = Some z \<longleftrightarrow> pa T z = Some a \<and> lf T a = Some z"
      using LD(3)[OF view_live(1) zx, of a z z] by auto
    show "lf ?T5 a = (if a = y then lf Ta z else if lf Ta a = Some z then Some y else lf Ta a)"
      using v5(4) v2(4)[of a] vc(4) va(4)[of a] va(4)[of z] q(4) l lz1 xz(1) by auto
    have rz1: "rt T a = Some z \<longleftrightarrow> pa T z = Some a \<and> lf T a \<noteq> Some z"
      using LD(4)[OF view_live(2) zx, of a z z] rt_neq_lf[OF L B view_live(2) zx, of a z z]
        LD(2)[OF z zx, of a] by auto
    have qz: "pa T z = Some q \<Longrightarrow> lf T q \<noteq> Some z" using q(2) y(3) by simp
    show "rt ?T5 a = (if a = y then rt Ta z else if rt Ta a = Some z then Some y else rt Ta a)"
      using v5(5) v2(5)[of a] vc(5) vc(4) va(4)[of a] va(5)[of a] va(5)[of z] r rz1 pzz xz(1) qz by auto
    show "col ?T5 a = (if a = y then col Ta z else col Ta a)"
      using v5(2) va(2) by simp
  qed
  show ?thesis using run Ta(2) rel by blast
qed

lemma unlink_two_direct:
  fixes key :: "addr \<Rightarrow> 'k::linorder" and T :: "('k, 'o) RB_TREE"
  assumes L: "links_ok {} T" and B: "bst_ok {} key lo hi T" and z: "live T z"
    and l: "lf T z = Some l" and r: "rt T z = Some y"
    and y: "RtlpRbTreeMinimum T y = Some y" "live T y" "y \<noteq> z" "lf T y = None"
    and kzy: "key z < key y"
  shows "\<exists>Ta T1. DeleteNode_unlink T z = Some (T1, col T y, rt T y) \<and>
     transplant_rel T y (rt T y) Ta \<and> relabel_rel Ta z y T1"
proof -
  have zx: "a \<notin> {}" for a :: addr by simp
  note LD = links_okD[OF L]
  have ll: "live T l" "pa T l = Some z" and rl: "pa T y = Some z"
    using LD(3)[OF z zx l] LD(4)[OF z zx r] by auto
  have ly: "l \<noteq> y" using lf_neq_rt[OF L B z zx l] r by auto
  have lz: "l \<noteq> z" using acyclic1[OF L B z zx, of l] z l by (auto simp: child_def)
  have xl: "\<forall>c. rt T y = Some c \<longrightarrow> live T c" using LD(4)[OF y(2) zx] by blast
  have xz1: "rt T y \<noteq> Some z"
  proof
    assume "rt T y = Some z"
    then have "lo z = Some (key y)" using bst_okD(4)[OF B y(2) zx] by simp
    then have "key y < key z" using bst_okD(1)[OF B z zx] by (auto dest: inb_Some_right)
    then show False using kzy by simp
  qed
  have xz: "rt T y \<noteq> Some z" "rt T y \<noteq> Some l" "rt T y \<noteq> Some y"
    using xz1 LD(4)[OF y(2) zx, of l] ll y(3) acyclic1[OF L B y(2) zx, of y] y(2)
    by (auto simp: child_def)
  have py: "\<forall>p. pa T y = Some p \<longrightarrow> live T p" using rl z by simp
  from Transplant_raw[OF y(2) py xl] obtain Ta where
    Ta: "RtlpRbTreeTransplant T y (rt T y) = Some Ta" "transplant_rel T y (rt T y) Ta" by blast
  have va: "live Ta = live T" "col Ta = col T" "root Ta = root T"
    "\<And>a. lf Ta a = lf T a"
    "\<And>a. rt Ta a = (if a = z then rt T y else rt T a)"
    "\<And>a. pa Ta a = (if rt T y = Some a then Some z else pa T a)"
    using Ta(2) rl l ly unfolding transplant_rel_def rest_eq_def by auto
  define T1' where "T1' = (case rt T y of None \<Rightarrow> T | Some c \<Rightarrow> upd c (\<lambda>n. n\<lparr>parent := Some y\<rparr>) T)"
  have s1: "(case rt T y of None \<Rightarrow> Some T | Some c \<Rightarrow> set_parent c (Some y) T) = Some T1'"
    using xl by (auto simp: T1'_def setters split: option.splits)
  have pc': "pa T c = Some y" if "rt T y = Some c" for c using LD(4)[OF y(2) zx that] by simp
  have v1: "live T1' = live T" "col T1' = col T" "root T1' = root T" "lf T1' = lf T" "rt T1' = rt T"
    "pa T1' = pa T" "rest_eq T T1'"
    using xl pc' by (auto simp: T1'_def view_upd fun_eq_iff split: option.splits)
  have pz: "\<forall>p. pa T1' z = Some p \<longrightarrow> live T1' p" unfolding v1 using LD(2)[OF z zx] by blast
  have zc: "live T1' z" "\<forall>c. Some y = Some c \<longrightarrow> live T1' c" using z y(2) v1(1) by simp_all
  from Transplant_raw[OF zc(1) pz zc(2)] obtain T2 where
    T2: "RtlpRbTreeTransplant T1' z (Some y) = Some T2" "transplant_rel T1' z (Some y) T2" by blast
  have v2: "live T2 = live T" "col T2 = col T"
    "root T2 = (if pa T z = None then Some y else root T)"
    "\<And>a. lf T2 a = (if pa T z = Some a \<and> lf T a = Some z then Some y else lf T a)"
    "\<And>a. rt T2 a = (if pa T z = Some a \<and> lf T a \<noteq> Some z then Some y else rt T a)"
    "\<And>a. pa T2 a = (if a = y then pa T z else pa T a)"
    using T2(2) v1 unfolding transplant_rel_def rest_eq_def by auto
  have pzz: "pa T z \<noteq> Some z" "pa T z \<noteq> Some y"
    using LD(2)[OF z zx, of z] l r acyclic1[OF L B z zx, of z] z lz
      LD(2)[OF z zx, of y] y(4) LD(4)[OF y(2) zx, of z] xz(1)
    by (auto simp: child_def)
  have l2: "lf T2 z = Some l" using v2(4)[of z] pzz l by simp
  let ?T3 = "upd y (\<lambda>n. n\<lparr>left := Some l\<rparr>) T2"
  let ?T4 = "upd l (\<lambda>n. n\<lparr>parent := Some y\<rparr>) ?T3"
  let ?T5 = "upd y (\<lambda>n. n\<lparr>colour := col T z\<rparr>) ?T4"
  have v5: "live ?T5 = live T" "col ?T5 = (col T)(y := col T z)" "root ?T5 = root T2"
    "lf ?T5 = (lf T2)(y := Some l)" "rt ?T5 = rt T2" "pa ?T5 = (pa T2)(l := Some y)"
    using v2(1,2) y(2) ll(1) by (simp_all add: view_upd)
  have c4: "col ?T4 z = col T z" using v2(1,2) y(2) ll(1) by (simp add: view_upd)
  have run: "DeleteNode_unlink T z = Some (?T5, col T y, rt T y)"
    using z l r y(1,2) rl s1 T2(1) v2(1) l2 c4 ll(1)
    by (simp add: DeleteNode_unlink_def getters setters view_upd)
  have re: "rest_eq Ta ?T5"
    using T2(2) Ta(2) v1(7) by (auto simp: transplant_rel_def rest_eq_def view_upd)
  have ra: "root Ta = Some z \<longleftrightarrow> pa T z = None"
    using va(3) links_ok_root[OF L, of z] LD(1)[OF z zx] by auto
  have rel: "relabel_rel Ta z y ?T5"
    unfolding relabel_rel_def
  proof (intro conjI allI impI)
    show "rest_eq Ta ?T5" using re .
    show "root ?T5 = (if root Ta = Some z then Some y else root Ta)"
      using v5(3) v2(3) ra va(3) by auto
  next
    fix a :: addr assume az: "a \<noteq> z"
    have pz1: "pa T a = Some z \<longleftrightarrow> a = l \<or> a = y"
      using LD(2)[OF _ zx, of a z] l r ll rl view_live(3)[of T a z] by auto
    have pcy: "rt T y = Some a \<Longrightarrow> pa T a = Some y" using pc'[of a] by simp
    show "pa ?T5 a = (if a = y then pa Ta z else if pa Ta a = Some z then Some y else pa Ta a)"
      using v5(6) v2(6)[of a] va(6)[of a] va(6)[of z] xz ly pz1 pcy y(3) by auto
    have lz1: "lf T a = Some z \<longleftrightarrow> pa T z = Some a \<and> lf T a = Some z"
      using LD(3)[OF view_live(1) zx, of a z z] by auto
    show "lf ?T5 a = (if a = y then lf Ta z else if lf Ta a = Some z then Some y else lf Ta a)"
      using v5(4) v2(4)[of a] va(4)[of a] va(4)[of z] l lz1 by auto
    have rz1: "rt T a = Some z \<longleftrightarrow> pa T z = Some a \<and> lf T a \<noteq> Some z"
      using LD(4)[OF view_live(2) zx, of a z z] rt_neq_lf[OF L B view_live(2) zx, of a z z]
        LD(2)[OF z zx, of a] by auto
    show "rt ?T5 a = (if a = y then rt Ta z else if rt Ta a = Some z then Some y else rt Ta a)"
      using v5(5) v2(5)[of a] va(5)[of a] va(5)[of z] rz1 pzz az by auto
    show "col ?T5 a = (if a = y then col Ta z else col Ta a)"
      using v5(2) va(2) by simp
  qed
  show ?thesis using run Ta(2) rel by blast
qed

lemma only_child_red:
  assumes H: "bh_ok {} bh T" and s: "live T s"
    and ch: "(lf T s = None \<and> rt T s = Some c) \<or> (rt T s = None \<and> lf T s = Some c)"
    and L: "links_ok {} T"
  shows "col T c = red"
proof -
  have zx: "a \<notin> {}" for a :: addr by simp
  have "bh c = 0" using bh_okD(1)[OF H s zx] ch by auto
  moreover have "live T c" using links_okD(3,4)[OF L s zx, of c] ch by auto
  ultimately show ?thesis using bh_okD(2)[OF H _ zx, of c] by (cases "col T c") auto
qed

text \<open>
  The unlinking part of a deletion: the target is out of the tree, which is well formed
  and a search tree on the other nodes.
\<close>

lemma unlink_one:
  fixes key :: "addr \<Rightarrow> 'k::linorder" and T :: "('k, 'o) RB_TREE"
  assumes L: "links_ok {} T" and B: "bst_ok {} key lo hi T" and z: "live T z"
    and ch: "lf T z = None \<or> rt T z = None"
  shows "\<exists>T1 x. DeleteNode_unlink T z = Some (T1, col T z, x) \<and>
     ((lf T z = None \<and> x = rt T z) \<or> (rt T z = None \<and> x = lf T z)) \<and>
     transplant_rel T z x T1 \<and> rest_eq T T1 \<and> col T1 = col T \<and>
     links_ok {z} T1 \<and> (\<exists>lo' hi'. bst_ok {z} key lo' hi' T1) \<and>
     (\<forall>c. x = Some c \<longrightarrow> live T c \<and> c \<noteq> z) \<and>
     (root_black T \<longrightarrow> root_black T1 \<or> (col T z = black \<and> x \<noteq> None \<and> root T1 = x)) \<and>
     (rr_ok {} {} T \<longrightarrow> rr_ok {z} (set_option x) T1)"
proof -
  have zx: "a \<notin> {}" for a :: addr by simp
  from unlink_le1[OF L z ch] obtain T1 x where
    u: "DeleteNode_unlink T z = Some (T1, col T z, x)"
       "(lf T z = None \<and> x = rt T z) \<or> (rt T z = None \<and> x = lf T z)"
       "transplant_rel T z x T1" by blast
  note sp = splice_inv[OF L B z u(2,3)]
  have re: "rest_eq T T1" "col T1 = col T" "root T1 = (if pa T z = None then x else root T)"
    using u(3) by (simp_all add: transplant_rel_def)
  have xc: "\<forall>c. x = Some c \<longrightarrow> live T c \<and> c \<noteq> z"
  proof (intro allI impI)
    fix c assume "x = Some c"
    then have c: "lf T z = Some c \<or> rt T z = Some c" using u(2) by auto
    then have "child T z c" using z by (simp add: child_def)
    then show "live T c \<and> c \<noteq> z"
      using acyclic1[OF L B z zx, of c] links_okD(3,4)[OF L z zx, of c] c by auto
  qed
  have rb: "root_black T \<longrightarrow> root_black T1 \<or> (col T z = black \<and> x \<noteq> None \<and> root T1 = x)"
  proof
    assume RB: "root_black T"
    show "root_black T1 \<or> (col T z = black \<and> x \<noteq> None \<and> root T1 = x)"
    proof (cases "pa T z")
      case None
      then have "root T = Some z" using links_okD(1)[OF L z zx] by simp
      then have "col T z = black" using RB by (simp add: root_black_def)
      then show ?thesis using None re(3) by (cases x) (auto simp: root_black_def)
    next
      case (Some p)
      then show ?thesis using RB re by (simp add: root_black_def)
    qed
  qed
  show ?thesis using u re(1,2) sp(1,2) sp(3) xc rb by blast
qed

lemma unlink_two:
  fixes key :: "addr \<Rightarrow> 'k::linorder" and T :: "('k, 'o) RB_TREE"
  assumes L: "links_ok {} T" and B: "bst_ok {} key lo hi T" and z: "live T z"
    and l: "lf T z = Some l" and r: "rt T z = Some r"
  shows "\<exists>y T1. RtlpRbTreeMinimum T r = Some y \<and>
     DeleteNode_unlink T z = Some (T1, col T y, rt T y) \<and>
     live T y \<and> y \<noteq> z \<and> lf T y = None \<and> key z < key y \<and>
     (\<forall>b. live T b \<and> key z < key b \<longrightarrow> key y \<le> key b) \<and>
     rest_eq T T1 \<and> links_ok {z} T1 \<and> (\<exists>lo' hi'. bst_ok {z} key lo' hi' T1) \<and>
     (\<forall>c. rt T y = Some c \<longrightarrow> live T c \<and> c \<noteq> z \<and> c \<noteq> y) \<and>
     (root_black T \<longrightarrow> root_black T1) \<and>
     (rr_ok {} {} T \<longrightarrow> rr_ok {z} (set_option (rt T y)) T1) \<and>
     root T1 = (if root T = Some z then Some y else root T) \<and>
     pa T1 y = pa T z \<and> lf T1 y = lf T z \<and> rt T1 y = (if y = r then rt T y else rt T z) \<and>
     col T1 y = col T z \<and> (\<forall>a. a \<noteq> y \<and> a \<noteq> z \<longrightarrow> col T1 a = col T a) \<and>
     (\<forall>p. lf T p = Some z \<longrightarrow> lf T1 p = Some y) \<and> (\<forall>p. rt T p = Some z \<longrightarrow> rt T1 p = Some y)"
proof -
  have zx: "a \<notin> {}" for a :: addr by simp
  note LD = links_okD[OF L] and BD = bst_okD[OF B]
  from successor_facts[OF L B z r] obtain y where
    y: "RtlpRbTreeMinimum T r = Some y" "live T y" "y \<noteq> z" "lf T y = None"
       "lo y = Some (key z)" "key z < key y" "inb (lo z) (hi z) (key y)"
       "\<forall>b. live T b \<and> key z < key b \<longrightarrow> key y \<le> key b"
       "pa T y = Some z \<longleftrightarrow> y = r"
       "y \<noteq> r \<longrightarrow> (\<exists>q. pa T y = Some q \<and> lf T q = Some y \<and> live T q \<and> q \<noteq> z \<and> q \<noteq> y)"
    by blast
  have ex: "\<exists>Ta T1. DeleteNode_unlink T z = Some (T1, col T y, rt T y) \<and>
     transplant_rel T y (rt T y) Ta \<and> relabel_rel Ta z y T1"
  proof (cases "y = r")
    case True
    show ?thesis using unlink_two_direct[OF L B z l r[folded True] y(1)[folded True] y(2,3,4,6)] .
  next
    case False
    then obtain q where q: "pa T y = Some q" "lf T q = Some y" "live T q" "q \<noteq> z" "q \<noteq> y"
      using y(10) by blast
    show ?thesis using unlink_two_deep[OF L B z l r y(1,2,3,4) False q y(6)] .
  qed
  then obtain Ta T1 where
    u: "DeleteNode_unlink T z = Some (T1, col T y, rt T y)"
       "transplant_rel T y (rt T y) Ta" "relabel_rel Ta z y T1" by blast
  have chy: "(lf T y = None \<and> rt T y = rt T y) \<or> (rt T y = None \<and> rt T y = lf T y)" using y(4) by simp
  note sp = splice_inv[OF L B y(2) chy u(2)]
  have py: "pa T y \<noteq> None" using y(9,10) by (cases "y = r") auto
  have va: "rest_eq T Ta" "live Ta = live T" "col Ta = col T" "root Ta = root T"
    "\<And>a. pa Ta a = (if rt T y = Some a then pa T y else pa T a)"
    using u(2) py unfolding transplant_rel_def rest_eq_def by auto
  note la = transplant_slots(1)[OF L B y(2) u(2)] and ra = transplant_slots(2)[OF L B y(2) u(2)]
  have xz: "rt T y \<noteq> Some z"
  proof
    assume "rt T y = Some z"
    then have "lo z = Some (key y)" using BD(4)[OF y(2) zx] by simp
    then have "key y < key z" using BD(1)[OF z zx] by (auto dest: inb_Some_right)
    then show False using y(6) by simp
  qed
  have xc: "\<forall>c. rt T y = Some c \<longrightarrow> live T c \<and> c \<noteq> z \<and> c \<noteq> y"
    using LD(4)[OF y(2) zx] xz acyclic1[OF L B y(2) zx] y(2) by (auto simp: child_def)
  have RBa: "root_black T \<Longrightarrow> root_black Ta" using va(3,4) by (simp add: root_black_def)
  let ?lo = "\<lambda>b. if lo b = Some (key y) then lo y else lo b"
  let ?hi = "\<lambda>b. if hi b = Some (key y) then hi y else hi b"
  have iz: "inb (lo z) (hi z) (key z)" and iyy: "inb (lo y) (hi y) (key y)"
    using BD(1)[OF z zx] BD(1)[OF y(2) zx] by auto
  have iy: "inb (?lo z) (?hi z) (key y)" using y(7) by (auto simp: inb_def split: option.splits)
  have SC: "\<forall>b. live Ta b \<and> b \<noteq> y \<and> b \<noteq> z \<longrightarrow>
             (?lo b = Some (key z) \<longrightarrow> key y < key b) \<and> (?hi b = Some (key z) \<longrightarrow> key b < key y)"
  proof (intro allI impI)
    fix b assume "live Ta b \<and> b \<noteq> y \<and> b \<noteq> z"
    then have b: "live T b" "b \<noteq> y" "b \<noteq> z" using va(2) by auto
    have ib: "inb (lo b) (hi b) (key b)" using BD(1)[OF b(1) zx] .
    have ky: "key b \<noteq> key y" using key_inj[OF L B b(1) zx y(2) zx] b(2) by auto
    have c1: "?lo b = Some (key z) \<longrightarrow> key y < key b"
    proof
      assume h: "?lo b = Some (key z)"
      show "key y < key b"
      proof (cases "lo b = Some (key y)")
        case True then show ?thesis using ib by (auto dest: inb_Some_right)
      next
        case False
        then have "lo b = Some (key z)" using h by simp
        then have "key z < key b" using ib by (auto dest: inb_Some_right)
        then have "key y \<le> key b" using y(8) b(1) by blast
        then show ?thesis using ky by simp
      qed
    qed
    have c2: "?hi b = Some (key z) \<longrightarrow> key b < key y"
    proof
      assume h: "?hi b = Some (key z)"
      show "key b < key y"
      proof (cases "hi b = Some (key y)")
        case True
        then have "hi y = Some (key z)" using h by simp
        then have "key y < key z" using iyy by (auto dest: inb_Some_left)
        then show ?thesis using y(6) by simp
      next
        case False
        then have "hi b = Some (key z)" using h by simp
        then have "key b < key z" using ib by (auto dest: inb_Some_left)
        then show ?thesis using y(6) by simp
      qed
    qed
    show "(?lo b = Some (key z) \<longrightarrow> key y < key b) \<and> (?hi b = Some (key z) \<longrightarrow> key b < key y)"
      using c1 c2 by simp
  qed
  have za: "live Ta z" "live Ta y" using z y(2) va(2) by simp_all
  note rl = relabel_inv[OF sp(1) sp(2) za(1) y(3)[symmetric] za(2) u(3) iy SC]
  have re: "rest_eq T T1" using va(1) u(3) by (auto simp: relabel_rel_def intro: rest_eq_trans)
  have "z \<notin> set_option (rt T y)" using xz by (cases "rt T y") auto
  then have RR: "rr_ok {} {} T \<longrightarrow> rr_ok {z} (set_option (rt T y)) T1"
    using sp(3) rl(3)[of "set_option (rt T y)"] by blast
  have RB: "root_black T \<longrightarrow> root_black T1" using RBa rl(4) by blast
  have v1: "root T1 = (if root Ta = Some z then Some y else root Ta)"
    "\<And>a. a \<noteq> z \<Longrightarrow> pa T1 a = (if a = y then pa Ta z else if pa Ta a = Some z then Some y else pa Ta a)"
    "\<And>a. a \<noteq> z \<Longrightarrow> lf T1 a = (if a = y then lf Ta z else if lf Ta a = Some z then Some y else lf Ta a)"
    "\<And>a. a \<noteq> z \<Longrightarrow> rt T1 a = (if a = y then rt Ta z else if rt Ta a = Some z then Some y else rt Ta a)"
    "\<And>a. a \<noteq> z \<Longrightarrow> col T1 a = (if a = y then col Ta z else col Ta a)"
    using u(3) by (simp_all add: relabel_rel_def)
  have ly: "lf T z \<noteq> Some y"
  proof
    assume "lf T z = Some y"
    then have "lo y = lo z" using BD(3)[OF z zx] by simp
    then have "lo z = Some (key z)" using y(5) by simp
    then show False using iz by simp
  qed
  have p1: "root T1 = (if root T = Some z then Some y else root T)" using v1(1) va(4) by simp
  have p2: "pa T1 y = pa T z" using v1(2)[of y] y(3) va(5)[of z] xz by simp
  have p3: "lf T1 y = lf T z" using v1(3)[of y] y(3) la[of z] ly by simp
  have p4: "rt T1 y = (if y = r then rt T y else rt T z)" using v1(4)[of y] y(3) ra[of z] r by auto
  have p5: "col T1 y = col T z" "\<forall>a. a \<noteq> y \<and> a \<noteq> z \<longrightarrow> col T1 a = col T a"
    using v1(5) y(3) va(3) by auto
  have p6: "\<forall>p. lf T p = Some z \<longrightarrow> lf T1 p = Some y"
  proof (intro allI impI)
    fix p assume p: "lf T p = Some z"
    then have "p \<noteq> z" "p \<noteq> y" using acyclic1[OF L B view_live(1) zx, of p z p] y(4)
      by (auto simp: child_def view_live(1))
    then show "lf T1 p = Some y" using v1(3)[of p] la[of p] p y(3) by auto
  qed
  have p7: "\<forall>p. rt T p = Some z \<longrightarrow> rt T1 p = Some y"
  proof (intro allI impI)
    fix p assume p: "rt T p = Some z"
    then have "p \<noteq> z" "p \<noteq> y" using acyclic1[OF L B view_live(2) zx, of p z p] xz
      by (auto simp: child_def view_live(2))
    then show "rt T1 p = Some y" using v1(4)[of p] ra[of p] p y(3) by auto
  qed
  have bs: "\<exists>lo' hi'. bst_ok {z} key lo' hi' T1" using rl(2) by blast
  show ?thesis
    using y(1) u(1) y(2,3,4,6,8) re rl(1) bs xc RB RR p1 p2 p3 p4 p5 p6 p7 by blast
qed

subsection \<open>Deletion fixup\<close>

lemma FixupDelete_loop_unfold:
  "FixupDelete_loop Tree Node =
     (if Some Node = root Tree then Some (Tree, Node)
      else do {
        nc \<leftarrow> get_colour Tree Node;
        if nc \<noteq> black then Some (Tree, Node)
        else do {
          p \<leftarrow> parent_of Tree Node;
          pl \<leftarrow> get_left Tree p;
          if Some Node = pl then do {
            (T1, sibling) \<leftarrow> fd_red_sibling_left Tree Node p;
            both_black \<leftarrow> fd_both_black_left T1 sibling;
            if both_black then do {
              s \<leftarrow> sibling;
              T2 \<leftarrow> set_colour s red T1;
              p2 \<leftarrow> parent_of T2 Node;
              FixupDelete_loop T2 p2 }
            else do {
              (T2, sibling2) \<leftarrow> fd_near_red_left T1 Node sibling;
              T3 \<leftarrow> fd_far_red_left T2 Node sibling2;
              r \<leftarrow> root T3;
              FixupDelete_loop T3 r } }
          else do {
            (T1, sibling) \<leftarrow> fd_red_sibling_right Tree Node p;
            both_black \<leftarrow> fd_both_black_right T1 sibling;
            if both_black then do {
              s \<leftarrow> sibling;
              T2 \<leftarrow> set_colour s red T1;
              p2 \<leftarrow> parent_of T2 Node;
              FixupDelete_loop T2 p2 }
            else do {
              (T2, sibling2) \<leftarrow> fd_near_red_right T1 Node sibling;
              T3 \<leftarrow> fd_far_red_right T2 Node sibling2;
              r \<leftarrow> root T3;
              FixupDelete_loop T3 r } } } })"
  apply (subst FixupDelete_loop.simps)
  apply (simp only: fd_red_sibling_left_def fd_both_black_left_def fd_near_red_left_def
      fd_far_red_left_def fd_red_sibling_right_def fd_both_black_right_def fd_near_red_right_def
      fd_far_red_right_def Option.bind_assoc)
  done

lemma colour_inv:
  "links_ok X (upd a (\<lambda>n. n\<lparr>colour := c\<rparr>) T) = links_ok X T"
  "bst_ok X key lo hi (upd a (\<lambda>n. n\<lparr>colour := c\<rparr>) T) = bst_ok X key lo hi T"
  by (simp_all add: links_ok_def bst_ok_def view_upd)

lemma parent_of_simp: "live T n \<Longrightarrow> parent_of T n = pa T n"
  by (simp add: parent_of_def getters)

lemma is_null_or_black_simp:
  "x = None \<or> (\<exists>a. x = Some a \<and> live T a) \<Longrightarrow> is_null_or_black T x = Some (null_or_black T x)"
  by (auto simp: is_null_or_black_def null_or_black_def getters)

lemma fd_red_sibling_left_spec:
  fixes key :: "addr \<Rightarrow> 'k::linorder"
  assumes L: "links_ok X T" and B: "bst_ok X key lo hi T" and n: "live T n" "n \<notin> X"
    and p: "pa T n = Some p" and ln: "lf T p = Some n" and RB: "root_black T"
  shows "\<exists>T1 sib. fd_red_sibling_left T n p = Some (T1, sib) \<and> rest_eq T T1 \<and>
     fd_mid_left X key T1 n p sib \<and> (T1 = T \<or> col T1 p = red)"
proof -
  note LD = links_okD[OF L] links_ok_root[OF L]
  have pl: "live T p" "p \<notin> X" using LD(2)[OF n p] by auto
  have pn: "p \<noteq> n" using acyclic1[OF L B pl childI1[OF pl(1) ln]] .
  show ?thesis
  proof (cases "\<exists>s. rt T p = Some s \<and> col T s = red")
    case False
    then have "is_red T (rt T p) = Some False"
      using LD(4)[OF pl] by (cases "rt T p") (auto simp: is_red_simp)
    then have "fd_red_sibling_left T n p = Some (T, rt T p)"
      using pl(1) by (simp add: fd_red_sibling_left_def getters)
    moreover have "fd_mid_left X key T n p (rt T p)"
      unfolding fd_mid_left_def using L B n p ln RB by blast
    ultimately show ?thesis by simp
  next
    case True
    then obtain s where s: "rt T p = Some s" "col T s = red" by blast
    have sl: "live T s" "s \<notin> X" "pa T s = Some p" using LD(4)[OF pl s(1)] by auto
    have sp: "s \<noteq> p" using acyclic1[OF L B pl childI2[OF pl(1) s(1)]] by simp
    have sn: "s \<noteq> n" using lf_neq_rt[OF L B pl ln] s(1) by auto
    let ?Ta = "upd s (\<lambda>n. n\<lparr>colour := black\<rparr>) T"
    let ?Tb = "upd p (\<lambda>n. n\<lparr>colour := red\<rparr>) ?Ta"
    have vb: "live ?Tb = live T" "pa ?Tb = pa T" "lf ?Tb = lf T" "rt ?Tb = rt T" "root ?Tb = root T"
      "col ?Tb = (col T)(s := black, p := red)"
      using sl(1) pl(1) by (simp_all add: view_upd)
    have Lb: "links_ok X ?Tb" and Bb: "bst_ok X key lo hi ?Tb" using L B by (simp_all add: colour_inv)
    have plb: "live ?Tb p" and sb: "rt ?Tb p = Some s" using pl(1) s(1) vb by simp_all
    from RotateLeft_inv[OF Lb Bb plb pl(2) sb] obtain Tc where
      Tc: "RtlpRbTreeRotateLeft ?Tb p = Some Tc" "rotl_rel ?Tb p s Tc" "links_ok X Tc"
        "bst_ok X key (lo(s := lo p)) (hi(s := hi p, p := Some (key s))) Tc" by blast
    have ns: "lf T s \<noteq> Some n" using LD(3)[OF sl(1,2), of n] p sp by auto
    have pp: "pa T p \<noteq> Some p" using LD(2)[OF pl, of p] ln s(1) pn sp by auto
    have vc: "live Tc = live T" "pa Tc n = Some p" "lf Tc p = Some n" "rt Tc p = lf T s"
      "col Tc = (col T)(s := black, p := red)"
      "root Tc = (if pa T p = None then Some s else root T)"
      using Tc(2) vb p ln pn sn sp ns pp unfolding rotl_rel_def rest_eq_def by auto
    have run: "fd_red_sibling_left T n p = Some (Tc, lf T s)"
      using pl(1) s sl(1) n(1) p Tc(1) vc(1,2,4)
      by (simp add: fd_red_sibling_left_def getters setters is_red_simp parent_of_simp view_upd)
    have re: "rest_eq T Tc" using rotl_rel_rest[OF Tc(2)] rest_eq_trans[of T ?Tb Tc]
      by (simp add: rest_eq_def view_upd)
    have rb: "root_black Tc"
      unfolding root_black_def
    proof (intro allI impI)
      fix r assume r: "root Tc = Some r"
      show "col Tc r = black"
      proof (cases "pa T p")
        case None
        then show ?thesis using r vc(5,6) sp by auto
      next
        case (Some g)
        then have rr: "root T = Some r" using r vc(6) by simp
        then have "pa T r = None" "col T r = black" using LD(5)[OF rr] RB by (auto simp: root_black_def)
        then show ?thesis using vc(5) Some sl(3) s(2) by auto
      qed
    qed
    have "\<exists>lo hi. bst_ok X key lo hi Tc" using Tc(4) by blast
    then have "fd_mid_left X key Tc n p (lf T s)"
      unfolding fd_mid_left_def using Tc(3) n vc(1,2,3,4) rb by simp
    moreover have "col Tc p = red" using vc(5) by simp
    ultimately show ?thesis using run re by blast
  qed
qed

lemma fd_both_black_left_spec:
  assumes M: "fd_mid_left X key T n p sib"
  shows "fd_both_black_left T sib =
     Some (case sib of None \<Rightarrow> False
           | Some s \<Rightarrow> null_or_black T (lf T s) \<and> null_or_black T (rt T s))"
proof (cases sib)
  case None
  then show ?thesis by (simp add: fd_both_black_left_def)
next
  case (Some s)
  from M obtain lo hi where L: "links_ok X T" and B: "bst_ok X key lo hi T"
    and n: "live T n" "n \<notin> X" "pa T n = Some p" "rt T p = sib"
    unfolding fd_mid_left_def by blast
  note LD = links_okD[OF L]
  have pl: "live T p" "p \<notin> X" using LD(2)[OF n(1,2,3)] by auto
  have sl: "live T s" "s \<notin> X" using LD(4)[OF pl, of s] n(4) Some by auto
  have a: "lf T s = None \<or> (\<exists>a. lf T s = Some a \<and> live T a)"
    "rt T s = None \<or> (\<exists>a. rt T s = Some a \<and> live T a)"
    using LD(3)[OF sl] LD(4)[OF sl] by (cases "lf T s"; cases "rt T s"; auto)+
  show ?thesis using Some sl(1) a
    by (simp add: fd_both_black_left_def getters is_null_or_black_simp)
qed

lemma fd_near_red_left_spec:
  fixes key :: "addr \<Rightarrow> 'k::linorder"
  assumes M: "fd_mid_left X key T n p sib"
    and nb: "\<not> (case sib of None \<Rightarrow> False
           | Some s \<Rightarrow> null_or_black T (lf T s) \<and> null_or_black T (rt T s))"
  shows "\<exists>T2 sib2. fd_near_red_left T n sib = Some (T2, sib2) \<and> rest_eq T T2 \<and>
     fd_mid_left X key T2 n p sib2"
proof -
  from M obtain lo hi where L: "links_ok X T" and B: "bst_ok X key lo hi T"
    and n: "live T n" "n \<notin> X" and p: "pa T n = Some p" and ln: "lf T p = Some n"
    and sb: "rt T p = sib" and RB: "root_black T"
    unfolding fd_mid_left_def by blast
  note LD = links_okD[OF L] links_ok_root[OF L]
  have pl: "live T p" "p \<notin> X" using LD(2)[OF n p] by auto
  have pn: "p \<noteq> n" using acyclic1[OF L B pl childI1[OF pl(1) ln]] .
  show ?thesis
  proof (cases "\<exists>s. sib = Some s \<and> null_or_black T (rt T s)")
    case False
    have "(case sib of None \<Rightarrow> Some False
            | Some s \<Rightarrow> do { sr \<leftarrow> get_right T s; is_null_or_black T sr }) = Some False"
    proof (cases sib)
      case None then show ?thesis by simp
    next
      case (Some s)
      then have sl: "live T s" "s \<notin> X" using LD(4)[OF pl, of s] sb by auto
      have "rt T s = None \<or> (\<exists>a. rt T s = Some a \<and> live T a)"
        using LD(4)[OF sl] by (cases "rt T s") auto
      then show ?thesis using Some sl(1) False by (simp add: getters is_null_or_black_simp)
    qed
    then have "fd_near_red_left T n sib = Some (T, sib)" by (simp add: fd_near_red_left_def)
    then show ?thesis using M by simp
  next
    case True
    then obtain s where s: "sib = Some s" "null_or_black T (rt T s)" by blast
    have sl: "live T s" "s \<notin> X" "pa T s = Some p" using LD(4)[OF pl, of s] sb s(1) by auto
    have rs: "rt T p = Some s" using sb s(1) by simp
    have sp: "s \<noteq> p" using acyclic1[OF L B pl childI2[OF pl(1) rs]] by simp
    have sn: "s \<noteq> n" using lf_neq_rt[OF L B pl ln] rs by auto
    have "\<not> null_or_black T (lf T s)" using nb s by simp
    then obtain l where l: "lf T s = Some l" "col T l \<noteq> black"
      by (cases "lf T s") (auto simp: null_or_black_def)
    have ll: "live T l" "l \<notin> X" "pa T l = Some s" using LD(3)[OF sl(1,2) l(1)] by auto
    have lne: "l \<noteq> s" "l \<noteq> p" "l \<noteq> n"
      using acyclic1[OF L B sl(1,2) childI1[OF sl(1) l(1)]]
        acyclic2[OF L B pl childI2[OF pl(1) rs] childI1[OF sl(1) l(1)]] ll(3) p sp by auto
    have fb: "(case sib of None \<Rightarrow> Some False
            | Some s \<Rightarrow> do { sr \<leftarrow> get_right T s; is_null_or_black T sr }) = Some True"
    proof -
      have "rt T s = None \<or> (\<exists>a. rt T s = Some a \<and> live T a)"
        using LD(4)[OF sl(1,2)] by (cases "rt T s") auto
      then show ?thesis using s sl(1) by (simp add: getters is_null_or_black_simp)
    qed
    let ?Ta = "upd l (\<lambda>n. n\<lparr>colour := black\<rparr>) T"
    let ?Tb = "upd s (\<lambda>n. n\<lparr>colour := red\<rparr>) ?Ta"
    have vb: "live ?Tb = live T" "pa ?Tb = pa T" "lf ?Tb = lf T" "rt ?Tb = rt T" "root ?Tb = root T"
      "col ?Tb = (col T)(l := black, s := red)"
      using sl(1) ll(1) by (simp_all add: view_upd)
    have Lb: "links_ok X ?Tb" and Bb: "bst_ok X key lo hi ?Tb" using L B by (simp_all add: colour_inv)
    have slb: "live ?Tb s" and lb: "lf ?Tb s = Some l" using sl(1) l(1) vb by simp_all
    from RotateRight_inv[OF Lb Bb slb sl(2) lb] obtain Tc where
      Tc: "RtlpRbTreeRotateRight ?Tb s = Some Tc" "rotr_rel ?Tb s l Tc" "links_ok X Tc"
        "bst_ok X key (lo(l := lo s, s := Some (key l))) (hi(l := hi s)) Tc" by blast
    have nl: "rt T l \<noteq> Some n" using LD(4)[OF ll(1,2), of n] p lne by auto
    have vc: "live Tc = live T" "pa Tc n = Some p" "lf Tc p = Some n" "rt Tc p = Some l"
      "col Tc = (col T)(l := black, s := red)" "root Tc = root T"
      using Tc(2) vb p ln rs sl(3) pn sn sp lne nl unfolding rotr_rel_def rest_eq_def by auto
    have run: "fd_near_red_left T n sib = Some (Tc, Some l)"
      unfolding fd_near_red_left_def fb
      using s(1) sl(1) l(1) ll(1) n(1) pl(1) Tc(1) vc(1,2,4)
      by (simp add: getters setters parent_of_simp view_upd)
    have re: "rest_eq T Tc" using rotr_rel_rest[OF Tc(2)] rest_eq_trans[of T ?Tb Tc]
      by (simp add: rest_eq_def view_upd)
    have rb: "root_black Tc"
      unfolding root_black_def
    proof (intro allI impI)
      fix r assume r: "root Tc = Some r"
      then have rr: "root T = Some r" using vc(6) by simp
      then have "pa T r = None" "col T r = black" using LD(5)[OF rr] RB by (auto simp: root_black_def)
      then show "col Tc r = black" using vc(5) sl(3) ll(3) by auto
    qed
    have "\<exists>lo hi. bst_ok X key lo hi Tc" using Tc(4) by blast
    then have "fd_mid_left X key Tc n p (Some l)"
      unfolding fd_mid_left_def using Tc(3) n vc(1,2,3,4) rb by simp
    then show ?thesis using run re by blast
  qed
qed

lemma fd_far_red_left_spec:
  fixes key :: "addr \<Rightarrow> 'k::linorder"
  assumes M: "fd_mid_left X key T n p sib"
  shows "\<exists>T3. fd_far_red_left T n sib = Some T3 \<and> rest_eq T T3 \<and> links_ok X T3 \<and>
     (\<exists>lo' hi'. bst_ok X key lo' hi' T3) \<and> root_black T3"
proof -
  from M obtain lo hi where L: "links_ok X T" and B: "bst_ok X key lo hi T"
    and n: "live T n" "n \<notin> X" and p: "pa T n = Some p" and ln: "lf T p = Some n"
    and sb: "rt T p = sib" and RB: "root_black T"
    unfolding fd_mid_left_def by blast
  note LD = links_okD[OF L] links_ok_root[OF L]
  have pl: "live T p" "p \<notin> X" using LD(2)[OF n p] by auto
  show ?thesis
  proof (cases sib)
    case None
    then have "fd_far_red_left T n sib = Some T" by (simp add: fd_far_red_left_def)
    then show ?thesis using L B RB by auto
  next
    case (Some s)
    have rs: "rt T p = Some s" using sb Some by simp
    have sl: "live T s" "s \<notin> X" "pa T s = Some p" using LD(4)[OF pl rs] by auto
    have sp: "s \<noteq> p" using acyclic1[OF L B pl childI2[OF pl(1) rs]] by simp
    have rl: "\<forall>r. rt T s = Some r \<longrightarrow> live T r \<and> pa T r = Some s" using LD(4)[OF sl(1,2)] by auto
    let ?Ta = "upd s (\<lambda>n. n\<lparr>colour := col T p\<rparr>) T"
    let ?Tb = "upd p (\<lambda>n. n\<lparr>colour := black\<rparr>) ?Ta"
    define Tc where "Tc = (case rt T s of None \<Rightarrow> ?Tb | Some r \<Rightarrow> upd r (\<lambda>n. n\<lparr>colour := black\<rparr>) ?Tb)"
    have tc: "(case rt T s of None \<Rightarrow> Some ?Tb | Some r \<Rightarrow> set_colour r black ?Tb) = Some Tc"
      using rl by (auto simp: Tc_def setters split: option.splits)
    have vc: "live Tc = live T" "pa Tc = pa T" "lf Tc = lf T" "rt Tc = rt T" "root Tc = root T"
      "rest_eq T Tc"
      "\<And>a. col Tc a = (if rt T s = Some a then black else if a = p then black
                          else if a = s then col T p else col T a)"
      using sl(1) pl(1) rl by (auto simp: Tc_def view_upd rest_eq_def split: option.splits)
    have Lc: "links_ok X Tc" and Bc: "bst_ok X key lo hi Tc"
      using L B by (auto simp: Tc_def colour_inv split: option.splits)
    have plc: "live Tc p" and sc: "rt Tc p = Some s" using pl(1) rs vc by simp_all
    from RotateLeft_inv[OF Lc Bc plc pl(2) sc] obtain T3 where
      T3: "RtlpRbTreeRotateLeft Tc p = Some T3" "rotl_rel Tc p s T3" "links_ok X T3"
        "bst_ok X key (lo(s := lo p)) (hi(s := hi p, p := Some (key s))) T3" by blast
    have run: "fd_far_red_left T n sib = Some T3"
      using Some n(1) p pl(1) sl(1) tc T3(1) vc(1,2)
      by (simp add: fd_far_red_left_def getters setters view_upd parent_of_simp)
    have re: "rest_eq T T3" using rotl_rel_rest[OF T3(2)] vc(6) by (blast intro: rest_eq_trans)
    have v3: "col T3 = col Tc" "root T3 = (if pa T p = None then Some s else root T)"
      using T3(2) vc unfolding rotl_rel_def by auto
    have rb: "root_black T3"
      unfolding root_black_def
    proof (intro allI impI)
      fix r assume r: "root T3 = Some r"
      show "col T3 r = black"
      proof (cases "pa T p")
        case None
        then have "root T = Some p" using LD(1)[OF pl] by simp
        then have "col T p = black" using RB by (simp add: root_black_def)
        then show ?thesis using r v3 None vc(7)[of s] by auto
      next
        case (Some g)
        then have rr: "root T = Some r" using r v3 by simp
        then have "pa T r = None" "col T r = black" using LD(5)[OF rr] RB by (auto simp: root_black_def)
        then show ?thesis using v3(1) vc(7)[of r] sl(3) rl by auto
      qed
    qed
    show ?thesis using run re T3(3,4) rb by blast
  qed
qed

lemma fd_red_sibling_right_spec:
  fixes key :: "addr \<Rightarrow> 'k::linorder"
  assumes L: "links_ok X T" and B: "bst_ok X key lo hi T" and n: "live T n" "n \<notin> X"
    and p: "pa T n = Some p" and ln: "rt T p = Some n" and RB: "root_black T"
  shows "\<exists>T1 sib. fd_red_sibling_right T n p = Some (T1, sib) \<and> rest_eq T T1 \<and>
     fd_mid_right X key T1 n p sib \<and> (T1 = T \<or> col T1 p = red)"
proof -
  note LD = links_okD[OF L] links_ok_root[OF L]
  have pl: "live T p" "p \<notin> X" using LD(2)[OF n p] by auto
  have pn: "p \<noteq> n" using acyclic1[OF L B pl childI2[OF pl(1) ln]] .
  show ?thesis
  proof (cases "\<exists>s. lf T p = Some s \<and> col T s = red")
    case False
    then have "is_red T (lf T p) = Some False"
      using LD(3)[OF pl] by (cases "lf T p") (auto simp: is_red_simp)
    then have "fd_red_sibling_right T n p = Some (T, lf T p)"
      using pl(1) by (simp add: fd_red_sibling_right_def getters)
    moreover have "fd_mid_right X key T n p (lf T p)"
      unfolding fd_mid_right_def using L B n p ln RB by blast
    ultimately show ?thesis by simp
  next
    case True
    then obtain s where s: "lf T p = Some s" "col T s = red" by blast
    have sl: "live T s" "s \<notin> X" "pa T s = Some p" using LD(3)[OF pl s(1)] by auto
    have sp: "s \<noteq> p" using acyclic1[OF L B pl childI1[OF pl(1) s(1)]] by simp
    have sn: "s \<noteq> n" using rt_neq_lf[OF L B pl ln] s(1) by auto
    let ?Ta = "upd s (\<lambda>n. n\<lparr>colour := black\<rparr>) T"
    let ?Tb = "upd p (\<lambda>n. n\<lparr>colour := red\<rparr>) ?Ta"
    have vb: "live ?Tb = live T" "pa ?Tb = pa T" "rt ?Tb = rt T" "lf ?Tb = lf T" "root ?Tb = root T"
      "col ?Tb = (col T)(s := black, p := red)"
      using sl(1) pl(1) by (simp_all add: view_upd)
    have Lb: "links_ok X ?Tb" and Bb: "bst_ok X key lo hi ?Tb" using L B by (simp_all add: colour_inv)
    have plb: "live ?Tb p" and sb: "lf ?Tb p = Some s" using pl(1) s(1) vb by simp_all
    from RotateRight_inv[OF Lb Bb plb pl(2) sb] obtain Tc where
      Tc: "RtlpRbTreeRotateRight ?Tb p = Some Tc" "rotr_rel ?Tb p s Tc" "links_ok X Tc"
        "bst_ok X key (lo(s := lo p, p := Some (key s))) (hi(s := hi p)) Tc" by blast
    have ns: "rt T s \<noteq> Some n" using LD(4)[OF sl(1,2), of n] p sp by auto
    have pp: "pa T p \<noteq> Some p" using LD(2)[OF pl, of p] ln s(1) pn sp by auto
    have vc: "live Tc = live T" "pa Tc n = Some p" "rt Tc p = Some n" "lf Tc p = rt T s"
      "col Tc = (col T)(s := black, p := red)"
      "root Tc = (if pa T p = None then Some s else root T)"
      using Tc(2) vb p ln pn sn sp ns pp unfolding rotr_rel_def rest_eq_def by auto
    have run: "fd_red_sibling_right T n p = Some (Tc, rt T s)"
      using pl(1) s sl(1) n(1) p Tc(1) vc(1,2,4)
      by (simp add: fd_red_sibling_right_def getters setters is_red_simp parent_of_simp view_upd)
    have re: "rest_eq T Tc" using rotr_rel_rest[OF Tc(2)] rest_eq_trans[of T ?Tb Tc]
      by (simp add: rest_eq_def view_upd)
    have rb: "root_black Tc"
      unfolding root_black_def
    proof (intro allI impI)
      fix r assume r: "root Tc = Some r"
      show "col Tc r = black"
      proof (cases "pa T p")
        case None
        then show ?thesis using r vc(5,6) sp by auto
      next
        case (Some g)
        then have rr: "root T = Some r" using r vc(6) by simp
        then have "pa T r = None" "col T r = black" using LD(5)[OF rr] RB by (auto simp: root_black_def)
        then show ?thesis using vc(5) Some sl(3) s(2) by auto
      qed
    qed
    have "\<exists>lo hi. bst_ok X key lo hi Tc" using Tc(4) by blast
    then have "fd_mid_right X key Tc n p (rt T s)"
      unfolding fd_mid_right_def using Tc(3) n vc(1,2,3,4) rb by simp
    moreover have "col Tc p = red" using vc(5) by simp
    ultimately show ?thesis using run re by blast
  qed
qed

lemma fd_both_black_right_spec:
  assumes M: "fd_mid_right X key T n p sib"
  shows "fd_both_black_right T sib =
     Some (case sib of None \<Rightarrow> False
           | Some s \<Rightarrow> null_or_black T (rt T s) \<and> null_or_black T (lf T s))"
proof (cases sib)
  case None
  then show ?thesis by (simp add: fd_both_black_right_def)
next
  case (Some s)
  from M obtain hi lo where L: "links_ok X T" and B: "bst_ok X key lo hi T"
    and n: "live T n" "n \<notin> X" "pa T n = Some p" "lf T p = sib"
    unfolding fd_mid_right_def by blast
  note LD = links_okD[OF L]
  have pl: "live T p" "p \<notin> X" using LD(2)[OF n(1,2,3)] by auto
  have sl: "live T s" "s \<notin> X" using LD(3)[OF pl, of s] n(4) Some by auto
  have a: "rt T s = None \<or> (\<exists>a. rt T s = Some a \<and> live T a)"
    "lf T s = None \<or> (\<exists>a. lf T s = Some a \<and> live T a)"
    using LD(4)[OF sl] LD(3)[OF sl] by (cases "rt T s"; cases "lf T s"; auto)+
  show ?thesis using Some sl(1) a
    by (simp add: fd_both_black_right_def getters is_null_or_black_simp)
qed

lemma fd_near_red_right_spec:
  fixes key :: "addr \<Rightarrow> 'k::linorder"
  assumes M: "fd_mid_right X key T n p sib"
    and nb: "\<not> (case sib of None \<Rightarrow> False
           | Some s \<Rightarrow> null_or_black T (rt T s) \<and> null_or_black T (lf T s))"
  shows "\<exists>T2 sib2. fd_near_red_right T n sib = Some (T2, sib2) \<and> rest_eq T T2 \<and>
     fd_mid_right X key T2 n p sib2"
proof -
  from M obtain hi lo where L: "links_ok X T" and B: "bst_ok X key lo hi T"
    and n: "live T n" "n \<notin> X" and p: "pa T n = Some p" and ln: "rt T p = Some n"
    and sb: "lf T p = sib" and RB: "root_black T"
    unfolding fd_mid_right_def by blast
  note LD = links_okD[OF L] links_ok_root[OF L]
  have pl: "live T p" "p \<notin> X" using LD(2)[OF n p] by auto
  have pn: "p \<noteq> n" using acyclic1[OF L B pl childI2[OF pl(1) ln]] .
  show ?thesis
  proof (cases "\<exists>s. sib = Some s \<and> null_or_black T (lf T s)")
    case False
    have "(case sib of None \<Rightarrow> Some False
            | Some s \<Rightarrow> do { sr \<leftarrow> get_left T s; is_null_or_black T sr }) = Some False"
    proof (cases sib)
      case None then show ?thesis by simp
    next
      case (Some s)
      then have sl: "live T s" "s \<notin> X" using LD(3)[OF pl, of s] sb by auto
      have "lf T s = None \<or> (\<exists>a. lf T s = Some a \<and> live T a)"
        using LD(3)[OF sl] by (cases "lf T s") auto
      then show ?thesis using Some sl(1) False by (simp add: getters is_null_or_black_simp)
    qed
    then have "fd_near_red_right T n sib = Some (T, sib)" by (simp add: fd_near_red_right_def)
    then show ?thesis using M by simp
  next
    case True
    then obtain s where s: "sib = Some s" "null_or_black T (lf T s)" by blast
    have sl: "live T s" "s \<notin> X" "pa T s = Some p" using LD(3)[OF pl, of s] sb s(1) by auto
    have rs: "lf T p = Some s" using sb s(1) by simp
    have sp: "s \<noteq> p" using acyclic1[OF L B pl childI1[OF pl(1) rs]] by simp
    have sn: "s \<noteq> n" using rt_neq_lf[OF L B pl ln] rs by auto
    have "\<not> null_or_black T (rt T s)" using nb s by simp
    then obtain l where l: "rt T s = Some l" "col T l \<noteq> black"
      by (cases "rt T s") (auto simp: null_or_black_def)
    have ll: "live T l" "l \<notin> X" "pa T l = Some s" using LD(4)[OF sl(1,2) l(1)] by auto
    have lne: "l \<noteq> s" "l \<noteq> p" "l \<noteq> n"
      using acyclic1[OF L B sl(1,2) childI2[OF sl(1) l(1)]]
        acyclic2[OF L B pl childI1[OF pl(1) rs] childI2[OF sl(1) l(1)]] ll(3) p sp by auto
    have fb: "(case sib of None \<Rightarrow> Some False
            | Some s \<Rightarrow> do { sr \<leftarrow> get_left T s; is_null_or_black T sr }) = Some True"
    proof -
      have "lf T s = None \<or> (\<exists>a. lf T s = Some a \<and> live T a)"
        using LD(3)[OF sl(1,2)] by (cases "lf T s") auto
      then show ?thesis using s sl(1) by (simp add: getters is_null_or_black_simp)
    qed
    let ?Ta = "upd l (\<lambda>n. n\<lparr>colour := black\<rparr>) T"
    let ?Tb = "upd s (\<lambda>n. n\<lparr>colour := red\<rparr>) ?Ta"
    have vb: "live ?Tb = live T" "pa ?Tb = pa T" "rt ?Tb = rt T" "lf ?Tb = lf T" "root ?Tb = root T"
      "col ?Tb = (col T)(l := black, s := red)"
      using sl(1) ll(1) by (simp_all add: view_upd)
    have Lb: "links_ok X ?Tb" and Bb: "bst_ok X key lo hi ?Tb" using L B by (simp_all add: colour_inv)
    have slb: "live ?Tb s" and lb: "rt ?Tb s = Some l" using sl(1) l(1) vb by simp_all
    from RotateLeft_inv[OF Lb Bb slb sl(2) lb] obtain Tc where
      Tc: "RtlpRbTreeRotateLeft ?Tb s = Some Tc" "rotl_rel ?Tb s l Tc" "links_ok X Tc"
        "bst_ok X key (lo(l := lo s)) (hi(l := hi s, s := Some (key l))) Tc" by blast
    have nl: "lf T l \<noteq> Some n" using LD(3)[OF ll(1,2), of n] p lne by auto
    have vc: "live Tc = live T" "pa Tc n = Some p" "rt Tc p = Some n" "lf Tc p = Some l"
      "col Tc = (col T)(l := black, s := red)" "root Tc = root T"
      using Tc(2) vb p ln rs sl(3) pn sn sp lne nl unfolding rotl_rel_def rest_eq_def by auto
    have run: "fd_near_red_right T n sib = Some (Tc, Some l)"
      unfolding fd_near_red_right_def fb
      using s(1) sl(1) l(1) ll(1) n(1) pl(1) Tc(1) vc(1,2,4)
      by (simp add: getters setters parent_of_simp view_upd)
    have re: "rest_eq T Tc" using rotl_rel_rest[OF Tc(2)] rest_eq_trans[of T ?Tb Tc]
      by (simp add: rest_eq_def view_upd)
    have rb: "root_black Tc"
      unfolding root_black_def
    proof (intro allI impI)
      fix r assume r: "root Tc = Some r"
      then have rr: "root T = Some r" using vc(6) by simp
      then have "pa T r = None" "col T r = black" using LD(5)[OF rr] RB by (auto simp: root_black_def)
      then show "col Tc r = black" using vc(5) sl(3) ll(3) by auto
    qed
    have "\<exists>lo hi. bst_ok X key lo hi Tc" using Tc(4) by blast
    then have "fd_mid_right X key Tc n p (Some l)"
      unfolding fd_mid_right_def using Tc(3) n vc(1,2,3,4) rb by simp
    then show ?thesis using run re by blast
  qed
qed

lemma fd_far_red_right_spec:
  fixes key :: "addr \<Rightarrow> 'k::linorder"
  assumes M: "fd_mid_right X key T n p sib"
  shows "\<exists>T3. fd_far_red_right T n sib = Some T3 \<and> rest_eq T T3 \<and> links_ok X T3 \<and>
     (\<exists>lo' hi'. bst_ok X key lo' hi' T3) \<and> root_black T3"
proof -
  from M obtain hi lo where L: "links_ok X T" and B: "bst_ok X key lo hi T"
    and n: "live T n" "n \<notin> X" and p: "pa T n = Some p" and ln: "rt T p = Some n"
    and sb: "lf T p = sib" and RB: "root_black T"
    unfolding fd_mid_right_def by blast
  note LD = links_okD[OF L] links_ok_root[OF L]
  have pl: "live T p" "p \<notin> X" using LD(2)[OF n p] by auto
  show ?thesis
  proof (cases sib)
    case None
    then have "fd_far_red_right T n sib = Some T" by (simp add: fd_far_red_right_def)
    then show ?thesis using L B RB by auto
  next
    case (Some s)
    have rs: "lf T p = Some s" using sb Some by simp
    have sl: "live T s" "s \<notin> X" "pa T s = Some p" using LD(3)[OF pl rs] by auto
    have sp: "s \<noteq> p" using acyclic1[OF L B pl childI1[OF pl(1) rs]] by simp
    have rl: "\<forall>r. lf T s = Some r \<longrightarrow> live T r \<and> pa T r = Some s" using LD(3)[OF sl(1,2)] by auto
    let ?Ta = "upd s (\<lambda>n. n\<lparr>colour := col T p\<rparr>) T"
    let ?Tb = "upd p (\<lambda>n. n\<lparr>colour := black\<rparr>) ?Ta"
    define Tc where "Tc = (case lf T s of None \<Rightarrow> ?Tb | Some r \<Rightarrow> upd r (\<lambda>n. n\<lparr>colour := black\<rparr>) ?Tb)"
    have tc: "(case lf T s of None \<Rightarrow> Some ?Tb | Some r \<Rightarrow> set_colour r black ?Tb) = Some Tc"
      using rl by (auto simp: Tc_def setters split: option.splits)
    have vc: "live Tc = live T" "pa Tc = pa T" "rt Tc = rt T" "lf Tc = lf T" "root Tc = root T"
      "rest_eq T Tc"
      "\<And>a. col Tc a = (if lf T s = Some a then black else if a = p then black
                          else if a = s then col T p else col T a)"
      using sl(1) pl(1) rl by (auto simp: Tc_def view_upd rest_eq_def split: option.splits)
    have Lc: "links_ok X Tc" and Bc: "bst_ok X key lo hi Tc"
      using L B by (auto simp: Tc_def colour_inv split: option.splits)
    have plc: "live Tc p" and sc: "lf Tc p = Some s" using pl(1) rs vc by simp_all
    from RotateRight_inv[OF Lc Bc plc pl(2) sc] obtain T3 where
      T3: "RtlpRbTreeRotateRight Tc p = Some T3" "rotr_rel Tc p s T3" "links_ok X T3"
        "bst_ok X key (lo(s := lo p, p := Some (key s))) (hi(s := hi p)) T3" by blast
    have run: "fd_far_red_right T n sib = Some T3"
      using Some n(1) p pl(1) sl(1) tc T3(1) vc(1,2)
      by (simp add: fd_far_red_right_def getters setters view_upd parent_of_simp)
    have re: "rest_eq T T3" using rotr_rel_rest[OF T3(2)] vc(6) by (blast intro: rest_eq_trans)
    have v3: "col T3 = col Tc" "root T3 = (if pa T p = None then Some s else root T)"
      using T3(2) vc unfolding rotr_rel_def by auto
    have rb: "root_black T3"
      unfolding root_black_def
    proof (intro allI impI)
      fix r assume r: "root T3 = Some r"
      show "col T3 r = black"
      proof (cases "pa T p")
        case None
        then have "root T = Some p" using LD(1)[OF pl] by simp
        then have "col T p = black" using RB by (simp add: root_black_def)
        then show ?thesis using r v3 None vc(7)[of s] by auto
      next
        case (Some g)
        then have rr: "root T = Some r" using r v3 by simp
        then have "pa T r = None" "col T r = black" using LD(5)[OF rr] RB by (auto simp: root_black_def)
        then show ?thesis using v3(1) vc(7)[of r] sl(3) rl by auto
      qed
    qed
    show ?thesis using run re T3(3,4) rb by blast
  qed
qed

lemma fd_post_trans: "rest_eq T T1 \<Longrightarrow> fd_post X key T1 T' n' \<Longrightarrow> fd_post X key T T' n'"
  by (auto simp: fd_post_def intro: rest_eq_trans)

lemma FixupDelete_loop_exit:
  "live T n \<Longrightarrow> Some n = root T \<or> col T n = red \<Longrightarrow> FixupDelete_loop T n = Some (T, n)"
  by (subst FixupDelete_loop.simps) (auto simp: getters)

lemma fd_left:
  fixes key :: "addr \<Rightarrow> 'k::linorder" and T :: "('k, 'o) RB_TREE"
  assumes P: "fd_pre X key lo hi T n" and nr: "Some n \<noteq> root T" and cn: "col T n = black"
    and p: "pa T n = Some p" and ln: "lf T p = Some n"
    and IH: "\<And>T2. same_links T T2 \<Longrightarrow> rest_eq T T2 \<Longrightarrow> fd_pre X key lo hi T2 p \<Longrightarrow>
       \<exists>T' n'. FixupDelete_loop T2 p = Some (T', n') \<and> fd_post X key T2 T' n'"
  shows "\<exists>T' n'. FixupDelete_loop T n = Some (T', n') \<and> fd_post X key T T' n'"
proof -
  have L: "links_ok X T" and B: "bst_ok X key lo hi T" and n: "live T n" "n \<notin> X"
    and RB: "root_black T"
    using P nr by (auto simp: fd_pre_def)
  have pl: "live T p" "p \<notin> X" using links_okD(2)[OF L n p] by auto
  from fd_red_sibling_left_spec[OF L B n p ln RB] obtain T1 sib where
    A: "fd_red_sibling_left T n p = Some (T1, sib)" "rest_eq T T1" "fd_mid_left X key T1 n p sib"
       "T1 = T \<or> col T1 p = red" by blast
  from A(3) obtain lo1 hi1 where L1: "links_ok X T1" and B1: "bst_ok X key lo1 hi1 T1"
    and n1: "live T1 n" and p1: "pa T1 n = Some p" and s1: "rt T1 p = sib" and RB1: "root_black T1"
    unfolding fd_mid_left_def by blast
  have pl1: "live T1 p" using links_okD(2)[OF L1 n1 n(2) p1] by simp
  note bb = fd_both_black_left_spec[OF A(3)]
  have nl: "rt T p \<noteq> Some n" "Some n \<noteq> rt T p" using lf_neq_rt[OF L B pl ln] by auto
  have step: "FixupDelete_loop T n =
      (if (case sib of None \<Rightarrow> False
           | Some s \<Rightarrow> null_or_black T1 (lf T1 s) \<and> null_or_black T1 (rt T1 s))
       then do { s \<leftarrow> sib; T2 \<leftarrow> set_colour s red T1; p2 \<leftarrow> parent_of T2 n;
                 FixupDelete_loop T2 p2 }
       else do { (T2, sibling2) \<leftarrow> fd_near_red_left T1 n sib;
                 T3 \<leftarrow> fd_far_red_left T2 n sibling2;
                 r \<leftarrow> root T3;
                 FixupDelete_loop T3 r })"
    using nr n(1) cn p pl(1) ln nl A(1) bb
    by (subst FixupDelete_loop_unfold) (simp add: getters parent_of_simp)
  show ?thesis
  proof (cases "case sib of None \<Rightarrow> False
           | Some s \<Rightarrow> null_or_black T1 (lf T1 s) \<and> null_or_black T1 (rt T1 s)")
    case True
    then obtain s where s: "sib = Some s" by (cases sib) auto
    have sl: "live T1 s" "s \<notin> X" "pa T1 s = Some p"
      using links_okD(4)[OF L1 pl1 pl(2), of s] s1 s by auto
    have sp: "s \<noteq> p" using acyclic1[OF L1 B1 pl1 pl(2) childI2[OF pl1], of s] s1 s by simp
    let ?T2 = "upd s (\<lambda>n. n\<lparr>colour := red\<rparr>) T1"
    have v2: "live ?T2 = live T1" "pa ?T2 = pa T1" "lf ?T2 = lf T1" "rt ?T2 = rt T1"
      "root ?T2 = root T1" "col ?T2 = (col T1)(s := red)"
      using sl(1) by (simp_all add: view_upd)
    have st2: "FixupDelete_loop T n = FixupDelete_loop ?T2 p"
      unfolding step using True s sl(1) n1 p1 by (simp add: setters parent_of_simp view_upd)
    have L2: "links_ok X ?T2" and B2: "bst_ok X key lo1 hi1 ?T2" using L1 B1 by (simp_all add: colour_inv)
    have RB2: "root_black ?T2"
      using RB1 links_ok_root[OF L1] sl(3) unfolding root_black_def v2 by auto
    have re2: "rest_eq T ?T2" using A(2) rest_eq_trans[of T T1 ?T2] by simp
    show ?thesis
    proof (cases "T1 = T")
      case True
      have S: "same_links T ?T2" using v2 True by (simp add: same_links_def)
      have P2: "fd_pre X key lo hi ?T2 p"
        unfolding fd_pre_def using L B pl RB2 True v2(1) by (simp add: colour_inv)
      from IH[OF S re2 P2] obtain T' n' where
        "FixupDelete_loop ?T2 p = Some (T', n')" "fd_post X key ?T2 T' n'" by blast
      then show ?thesis using st2 fd_post_trans[OF re2] by auto
    next
      case False
      then have "col ?T2 p = red" using A(4) v2(6) sp by simp
      then have "FixupDelete_loop ?T2 p = Some (?T2, p)"
        using FixupDelete_loop_exit[of ?T2 p] pl1 v2(1) by simp
      moreover have "fd_post X key T ?T2 p"
        unfolding fd_post_def using re2 L2 B2 pl1 pl(2) RB2 v2(1) by auto
      ultimately show ?thesis using st2 by simp
    qed
  next
    case False
    from fd_near_red_left_spec[OF A(3) False] obtain T2 sib2 where
      C: "fd_near_red_left T1 n sib = Some (T2, sib2)" "rest_eq T1 T2" "fd_mid_left X key T2 n p sib2"
      by blast
    from fd_far_red_left_spec[OF C(3)] obtain T3 lo3 hi3 where
      D: "fd_far_red_left T2 n sib2 = Some T3" "rest_eq T2 T3" "links_ok X T3"
         "bst_ok X key lo3 hi3 T3" "root_black T3" by blast
    have re3: "rest_eq T T3" using A(2) C(2) D(2) by (blast intro: rest_eq_trans)
    have n3: "live T3 n" using n(1) re3 by (simp add: rest_eq_def)
    from desc_root[OF D(3,4) n3 n(2)] obtain r where r: "root T3 = Some r" by blast
    have rl: "live T3 r" "r \<notin> X" using links_ok_root[OF D(3) r] by auto
    have "FixupDelete_loop T n = Some (T3, r)"
      unfolding step using False C(1) D(1) r FixupDelete_loop_exit[of T3 r] rl(1) by simp
    moreover have "fd_post X key T T3 r"
      unfolding fd_post_def using re3 D(3,4,5) rl by auto
    ultimately show ?thesis by blast
  qed
qed

lemma fd_right:
  fixes key :: "addr \<Rightarrow> 'k::linorder" and T :: "('k, 'o) RB_TREE"
  assumes P: "fd_pre X key lo hi T n" and nr: "Some n \<noteq> root T" and cn: "col T n = black"
    and p: "pa T n = Some p" and ln: "rt T p = Some n"
    and IH: "\<And>T2. same_links T T2 \<Longrightarrow> rest_eq T T2 \<Longrightarrow> fd_pre X key lo hi T2 p \<Longrightarrow>
       \<exists>T' n'. FixupDelete_loop T2 p = Some (T', n') \<and> fd_post X key T2 T' n'"
  shows "\<exists>T' n'. FixupDelete_loop T n = Some (T', n') \<and> fd_post X key T T' n'"
proof -
  have L: "links_ok X T" and B: "bst_ok X key lo hi T" and n: "live T n" "n \<notin> X"
    and RB: "root_black T"
    using P nr by (auto simp: fd_pre_def)
  have pl: "live T p" "p \<notin> X" using links_okD(2)[OF L n p] by auto
  from fd_red_sibling_right_spec[OF L B n p ln RB] obtain T1 sib where
    A: "fd_red_sibling_right T n p = Some (T1, sib)" "rest_eq T T1" "fd_mid_right X key T1 n p sib"
       "T1 = T \<or> col T1 p = red" by blast
  from A(3) obtain hi1 lo1 where L1: "links_ok X T1" and B1: "bst_ok X key lo1 hi1 T1"
    and n1: "live T1 n" and p1: "pa T1 n = Some p" and s1: "lf T1 p = sib" and RB1: "root_black T1"
    unfolding fd_mid_right_def by blast
  have pl1: "live T1 p" using links_okD(2)[OF L1 n1 n(2) p1] by simp
  note bb = fd_both_black_right_spec[OF A(3)]
  have nl: "lf T p \<noteq> Some n" "Some n \<noteq> lf T p" using rt_neq_lf[OF L B pl ln] by auto
  have step: "FixupDelete_loop T n =
      (if (case sib of None \<Rightarrow> False
           | Some s \<Rightarrow> null_or_black T1 (rt T1 s) \<and> null_or_black T1 (lf T1 s))
       then do { s \<leftarrow> sib; T2 \<leftarrow> set_colour s red T1; p2 \<leftarrow> parent_of T2 n;
                 FixupDelete_loop T2 p2 }
       else do { (T2, sibling2) \<leftarrow> fd_near_red_right T1 n sib;
                 T3 \<leftarrow> fd_far_red_right T2 n sibling2;
                 r \<leftarrow> root T3;
                 FixupDelete_loop T3 r })"
    using nr n(1) cn p pl(1) ln nl A(1) bb
    by (subst FixupDelete_loop_unfold) (simp add: getters parent_of_simp)
  show ?thesis
  proof (cases "case sib of None \<Rightarrow> False
           | Some s \<Rightarrow> null_or_black T1 (rt T1 s) \<and> null_or_black T1 (lf T1 s)")
    case True
    then obtain s where s: "sib = Some s" by (cases sib) auto
    have sl: "live T1 s" "s \<notin> X" "pa T1 s = Some p"
      using links_okD(3)[OF L1 pl1 pl(2), of s] s1 s by auto
    have sp: "s \<noteq> p" using acyclic1[OF L1 B1 pl1 pl(2) childI1[OF pl1], of s] s1 s by simp
    let ?T2 = "upd s (\<lambda>n. n\<lparr>colour := red\<rparr>) T1"
    have v2: "live ?T2 = live T1" "pa ?T2 = pa T1" "rt ?T2 = rt T1" "lf ?T2 = lf T1"
      "root ?T2 = root T1" "col ?T2 = (col T1)(s := red)"
      using sl(1) by (simp_all add: view_upd)
    have st2: "FixupDelete_loop T n = FixupDelete_loop ?T2 p"
      unfolding step using True s sl(1) n1 p1 by (simp add: setters parent_of_simp view_upd)
    have L2: "links_ok X ?T2" and B2: "bst_ok X key lo1 hi1 ?T2" using L1 B1 by (simp_all add: colour_inv)
    have RB2: "root_black ?T2"
      using RB1 links_ok_root[OF L1] sl(3) unfolding root_black_def v2 by auto
    have re2: "rest_eq T ?T2" using A(2) rest_eq_trans[of T T1 ?T2] by simp
    show ?thesis
    proof (cases "T1 = T")
      case True
      have S: "same_links T ?T2" using v2 True by (simp add: same_links_def)
      have P2: "fd_pre X key lo hi ?T2 p"
        unfolding fd_pre_def using L B pl RB2 True v2(1) by (simp add: colour_inv)
      from IH[OF S re2 P2] obtain T' n' where
        "FixupDelete_loop ?T2 p = Some (T', n')" "fd_post X key ?T2 T' n'" by blast
      then show ?thesis using st2 fd_post_trans[OF re2] by auto
    next
      case False
      then have "col ?T2 p = red" using A(4) v2(6) sp by simp
      then have "FixupDelete_loop ?T2 p = Some (?T2, p)"
        using FixupDelete_loop_exit[of ?T2 p] pl1 v2(1) by simp
      moreover have "fd_post X key T ?T2 p"
        unfolding fd_post_def using re2 L2 B2 pl1 pl(2) RB2 v2(1) by auto
      ultimately show ?thesis using st2 by simp
    qed
  next
    case False
    from fd_near_red_right_spec[OF A(3) False] obtain T2 sib2 where
      C: "fd_near_red_right T1 n sib = Some (T2, sib2)" "rest_eq T1 T2" "fd_mid_right X key T2 n p sib2"
      by blast
    from fd_far_red_right_spec[OF C(3)] obtain T3 hi3 lo3 where
      D: "fd_far_red_right T2 n sib2 = Some T3" "rest_eq T2 T3" "links_ok X T3"
         "bst_ok X key lo3 hi3 T3" "root_black T3" by blast
    have re3: "rest_eq T T3" using A(2) C(2) D(2) by (blast intro: rest_eq_trans)
    have n3: "live T3 n" using n(1) re3 by (simp add: rest_eq_def)
    from desc_root[OF D(3,4) n3 n(2)] obtain r where r: "root T3 = Some r" by blast
    have rl: "live T3 r" "r \<notin> X" using links_ok_root[OF D(3) r] by auto
    have "FixupDelete_loop T n = Some (T3, r)"
      unfolding step using False C(1) D(1) r FixupDelete_loop_exit[of T3 r] rl(1) by simp
    moreover have "fd_post X key T T3 r"
      unfolding fd_post_def using re3 D(3,4,5) rl by auto
    ultimately show ?thesis by blast
  qed
qed

lemma FixupDelete_loop_spec:
  fixes key :: "addr \<Rightarrow> 'k::linorder" and T :: "('k, 'o) RB_TREE"
  shows "fd_pre X key lo hi T n \<Longrightarrow>
     \<exists>T' n'. FixupDelete_loop T n = Some (T', n') \<and> fd_post X key T T' n'"
proof (induction "card {c. live T c} - card (below key lo hi X T n)" arbitrary: T n rule: less_induct)
  case less
  note P = less.prems
  have L: "links_ok X T" and B: "bst_ok X key lo hi T" and n: "live T n" "n \<notin> X"
    and rb: "root_black T \<or> root T = Some n"
    using P by (simp_all add: fd_pre_def)
  note LD = links_okD[OF L] links_ok_root[OF L]
  have post0: "fd_post X key T T n" unfolding fd_post_def using L B n rb by auto
  show ?case
  proof (cases "Some n = root T \<or> col T n = red")
    case True
    then show ?thesis using FixupDelete_loop_exit[OF n(1)] post0 by blast
  next
    case False
    then have nr: "Some n \<noteq> root T" and cn: "col T n = black" by (auto intro: col_cases)
    obtain p where p: "pa T n = Some p" using LD(1)[OF n] nr by (cases "pa T n") auto
    have pl: "live T p" "p \<notin> X" "lf T p = Some n \<or> rt T p = Some n" using LD(2)[OF n p] by auto
    have chpn: "child T p n" using pl by (simp add: child_def)
    have m: "card (below key lo hi X T n) < card (below key lo hi X T p)"
      using child_card_less[OF L B pl(1,2) chpn] by simp
    have IH: "\<exists>T' n'. FixupDelete_loop T2 p = Some (T', n') \<and> fd_post X key T2 T' n'"
      if S: "same_links T T2" and "rest_eq T T2" and P2: "fd_pre X key lo hi T2 p" for T2
    proof -
      have e: "{c. live T2 c} = {c. live T c}" "below key lo hi X T2 = below key lo hi X T"
        using S same_links_below[OF S, where X=X and key=key and lo=lo and hi=hi]
        by (simp_all add: same_links_def)
      have "card {c. live T2 c} - card (below key lo hi X T2 p) < card {c. live T c} - card (below key lo hi X T n)"
        using m below_le_live[OF L, of key lo hi p] by (simp add: e)
      from less.hyps[OF this P2] show ?thesis .
    qed
    show ?thesis
    proof (cases "lf T p = Some n")
      case True
      show ?thesis by (rule fd_left[OF P nr cn p True]) (rule IH)
    next
      case False
      then have "rt T p = Some n" using pl(3) by simp
      show ?thesis by (rule fd_right[OF P nr cn p \<open>rt T p = Some n\<close>]) (rule IH)
    qed
  qed
qed

lemma FixupDelete_spec:
  fixes key :: "addr \<Rightarrow> 'k::linorder" and T :: "('k, 'o) RB_TREE"
  assumes P: "fd_pre X key lo hi T n"
  shows "\<exists>T'. RtlpRbTreeFixupDelete T n = Some T' \<and> rest_eq T T' \<and> links_ok X T' \<and>
     (\<exists>lo' hi'. bst_ok X key lo' hi' T') \<and> root_black T'"
proof -
  from FixupDelete_loop_spec[OF P] obtain T1 n1 where
    T1: "FixupDelete_loop T n = Some (T1, n1)" "fd_post X key T T1 n1" by blast
  from T1(2) obtain lo1 hi1 where re: "rest_eq T T1" and L1: "links_ok X T1"
    and B1: "bst_ok X key lo1 hi1 T1" and n1: "live T1 n1" "n1 \<notin> X"
    and rb: "root_black T1 \<or> root T1 = Some n1" unfolding fd_post_def by blast
  let ?T' = "upd n1 (\<lambda>n. n\<lparr>colour := black\<rparr>) T1"
  have run: "RtlpRbTreeFixupDelete T n = Some ?T'"
    using T1(1) n1(1) by (simp add: RtlpRbTreeFixupDelete_def setters)
  have "root_black ?T'" using rb n1(1) by (auto simp: root_black_def view_upd)
  moreover have "rest_eq T ?T'" using re rest_eq_trans[of T T1 ?T'] by simp
  moreover have "links_ok X ?T'" "bst_ok X key lo1 hi1 ?T'" using L1 B1 by (simp_all add: colour_inv)
  ultimately show ?thesis using run by blast
qed

subsection \<open>Deletion\<close>

lemma unlink_spec:
  fixes key :: "addr \<Rightarrow> 'k::linorder" and T :: "('k, 'o) RB_TREE"
  assumes L: "links_ok {} T" and B: "bst_ok {} key lo hi T" and z: "live T z"
  shows "\<exists>T1 c x. DeleteNode_unlink T z = Some (T1, c, x) \<and> rest_eq T T1 \<and>
     links_ok {z} T1 \<and> (\<exists>lo' hi'. bst_ok {z} key lo' hi' T1) \<and>
     (\<forall>x'. x = Some x' \<longrightarrow> live T x' \<and> x' \<noteq> z) \<and>
     (root_black T \<longrightarrow> root_black T1 \<or> (c = black \<and> x \<noteq> None \<and> root T1 = x)) \<and>
     (rr_ok {} {} T \<longrightarrow> rr_ok {z} (set_option x) T1 \<and>
        (c = red \<longrightarrow> (\<forall>x'. x = Some x' \<longrightarrow> col T1 x' = black))) \<and>
     ((\<exists>bh. bh_ok {} bh T) \<longrightarrow> (\<forall>x'. x = Some x' \<longrightarrow> col T1 x' = red))"
proof (cases "lf T z = None \<or> rt T z = None")
  case True
  have zx: "a \<notin> {}" for a :: addr by simp
  from unlink_one[OF L B z True] obtain T1 x where
    u: "DeleteNode_unlink T z = Some (T1, col T z, x)"
       "(lf T z = None \<and> x = rt T z) \<or> (rt T z = None \<and> x = lf T z)"
       "rest_eq T T1" "col T1 = col T" "links_ok {z} T1" "\<exists>lo' hi'. bst_ok {z} key lo' hi' T1"
       "\<forall>c. x = Some c \<longrightarrow> live T c \<and> c \<noteq> z"
       "root_black T \<longrightarrow> root_black T1 \<or> (col T z = black \<and> x \<noteq> None \<and> root T1 = x)"
       "rr_ok {} {} T \<longrightarrow> rr_ok {z} (set_option x) T1" by blast
  have ch: "(lf T z = None \<and> rt T z = Some x') \<or> (rt T z = None \<and> lf T z = Some x')"
    if "x = Some x'" for x' using u(2) that by auto
  have r1: "col T z = red \<longrightarrow> (\<forall>x'. x = Some x' \<longrightarrow> col T1 x' = black)" if RR: "rr_ok {} {} T"
  proof (intro allI impI)
    fix x' assume h: "col T z = red" "x = Some x'"
    have "col T x' = red \<Longrightarrow> x' \<in> {}" using rr_okD[OF RR z zx h(1), of x'] ch[OF h(2)] by auto
    then show "col T1 x' = black" unfolding u(4) using col_cases[of T x'] by auto
  qed
  have b1: "\<forall>x'. x = Some x' \<longrightarrow> col T1 x' = red" if "\<exists>bh. bh_ok {} bh T"
  proof (intro allI impI)
    fix x' assume h: "x = Some x'"
    from that obtain bh where H: "bh_ok {} bh T" by blast
    show "col T1 x' = red" unfolding u(4) using only_child_red[OF H z ch[OF h] L] .
  qed
  show ?thesis using u(1,3,5,6,7,8,9) r1 b1 by blast
next
  case False
  have zx: "a \<notin> {}" for a :: addr by simp
  from False obtain l r where l: "lf T z = Some l" and r: "rt T z = Some r" by auto
  from unlink_two[OF L B z l r] obtain y T1 where
    u: "DeleteNode_unlink T z = Some (T1, col T y, rt T y)" "live T y" "y \<noteq> z" "lf T y = None"
       "rest_eq T T1" "links_ok {z} T1" "\<exists>lo' hi'. bst_ok {z} key lo' hi' T1"
       "\<forall>c. rt T y = Some c \<longrightarrow> live T c \<and> c \<noteq> z \<and> c \<noteq> y"
       "root_black T \<longrightarrow> root_black T1"
       "rr_ok {} {} T \<longrightarrow> rr_ok {z} (set_option (rt T y)) T1"
       "\<forall>a. a \<noteq> y \<and> a \<noteq> z \<longrightarrow> col T1 a = col T a" by blast
  have cx: "col T1 x' = col T x'" if "rt T y = Some x'" for x' using u(8,11) that by auto
  have r1: "col T y = red \<longrightarrow> (\<forall>x'. rt T y = Some x' \<longrightarrow> col T1 x' = black)" if RR: "rr_ok {} {} T"
  proof (intro allI impI)
    fix x' assume h: "col T y = red" "rt T y = Some x'"
    have "col T x' = red \<Longrightarrow> x' \<in> {}" using rr_okD[OF RR u(2) zx h(1), of x'] h(2) by auto
    then show "col T1 x' = black" unfolding cx[OF h(2)] using col_cases[of T x'] by auto
  qed
  have b1: "\<forall>x'. rt T y = Some x' \<longrightarrow> col T1 x' = red" if "\<exists>bh. bh_ok {} bh T"
  proof (intro allI impI)
    fix x' assume h: "rt T y = Some x'"
    from that obtain bh where H: "bh_ok {} bh T" by blast
    have "(lf T y = None \<and> rt T y = Some x') \<or> (rt T y = None \<and> lf T y = Some x')" using u(4) h by simp
    from only_child_red[OF H u(2) this L] show "col T1 x' = red" unfolding cx[OF h] .
  qed
  have xl: "\<forall>x'. rt T y = Some x' \<longrightarrow> live T x' \<and> x' \<noteq> z" using u(8) by blast
  have rb: "root_black T \<longrightarrow> root_black T1 \<or> (col T y = black \<and> rt T y \<noteq> None \<and> root T1 = rt T y)"
    using u(9) by blast
  show ?thesis using u(1,5,6,7) xl rb u(10) r1 b1 by blast
qed

text \<open>Returning the block of an unlinked node to the pool.\<close>

lemma free_unlinked:
  fixes key :: "addr \<Rightarrow> 'k::linorder"
  assumes L: "links_ok {z} T" and B: "bst_ok {z} key lo hi T" and z: "live T z"
  shows "\<exists>T3 blk. ExFreeToLookasideListEx T z = Some T3 \<and> pool T3 = (z, blk) # pool T \<and>
     root T3 = root T \<and> compare T3 = compare T \<and> node_count T3 = node_count T \<and>
     insertion_count T3 = insertion_count T \<and> deletion_count T3 = deletion_count T \<and>
     live T3 = (live T)(z := False) \<and> (\<forall>a. a \<noteq> z \<longrightarrow> obj T3 a = obj T a) \<and>
     links_ok {} T3 \<and> bst_ok {} key lo hi T3 \<and> (root_black T \<longrightarrow> root_black T3) \<and>
     (rr_ok {z} {} T \<longrightarrow> rr_ok {} {} T3)"
proof -
  obtain blk where blk: "mem T z = Some blk" using z by (auto simp: live_def)
  let ?T3 = "T\<lparr>pool := (z, blk) # pool T, mem := (mem T)(z := None)\<rparr>"
  have run: "ExFreeToLookasideListEx T z = Some ?T3" using blk by (simp add: ExFreeToLookasideListEx_def)
  have v: "live ?T3 = (live T)(z := False)" "pa ?T3 = (pa T)(z := None)" "lf ?T3 = (lf T)(z := None)"
    "rt ?T3 = (rt T)(z := None)" "col ?T3 = (col T)(z := black)" "obj ?T3 = (obj T)(z := None)"
    "root ?T3 = root T"
    by (auto simp: live_def pa_def lf_def rt_def col_def obj_def fun_eq_iff)
  note LD = links_okD[OF L] links_ok_root[OF L]
  have fin: "finite {a. live ?T3 a}"
    by (rule finite_subset[OF _ links_ok_finite[OF L]]) (auto simp: v)
  have l2: "\<forall>r. root ?T3 = Some r \<longrightarrow> live ?T3 r \<and> r \<notin> {} \<and> pa ?T3 r = None"
    unfolding v using LD(5) by auto
  have l3: "\<forall>a. live ?T3 a \<and> a \<notin> {} \<longrightarrow>
       (pa ?T3 a = None \<longrightarrow> root ?T3 = Some a) \<and>
       (\<forall>p. pa ?T3 a = Some p \<longrightarrow> live ?T3 p \<and> p \<notin> {} \<and> (lf ?T3 p = Some a \<or> rt ?T3 p = Some a)) \<and>
       (\<forall>b. lf ?T3 a = Some b \<longrightarrow> live ?T3 b \<and> b \<notin> {} \<and> pa ?T3 b = Some a) \<and>
       (\<forall>b. rt ?T3 a = Some b \<longrightarrow> live ?T3 b \<and> b \<notin> {} \<and> pa ?T3 b = Some a)"
    unfolding v
  proof (intro allI impI)
    fix a assume "((live T)(z := False)) a \<and> a \<notin> {}"
    then have a: "live T a" "a \<notin> {z}" by (auto split: if_splits)
    show "(((pa T)(z := None)) a = None \<longrightarrow> root T = Some a) \<and>
       (\<forall>p. ((pa T)(z := None)) a = Some p \<longrightarrow>
            ((live T)(z := False)) p \<and> p \<notin> {} \<and>
            (((lf T)(z := None)) p = Some a \<or> ((rt T)(z := None)) p = Some a)) \<and>
       (\<forall>b. ((lf T)(z := None)) a = Some b \<longrightarrow>
            ((live T)(z := False)) b \<and> b \<notin> {} \<and> ((pa T)(z := None)) b = Some a) \<and>
       (\<forall>b. ((rt T)(z := None)) a = Some b \<longrightarrow>
            ((live T)(z := False)) b \<and> b \<notin> {} \<and> ((pa T)(z := None)) b = Some a)"
      using LD(1)[OF a] LD(2)[OF a] LD(3)[OF a] LD(4)[OF a] a(2) by auto
  qed
  have L3: "links_ok {} ?T3" unfolding links_ok_def using fin l2 l3 by blast
  have b3: "\<forall>a. live ?T3 a \<and> a \<notin> {} \<longrightarrow> inb (lo a) (hi a) (key a) \<and>
       (pa ?T3 a = None \<longrightarrow> lo a = None \<and> hi a = None) \<and>
       (\<forall>b. lf ?T3 a = Some b \<longrightarrow> lo b = lo a \<and> hi b = Some (key a)) \<and>
       (\<forall>b. rt ?T3 a = Some b \<longrightarrow> lo b = Some (key a) \<and> hi b = hi a)"
    unfolding v
  proof (intro allI impI)
    fix a assume "((live T)(z := False)) a \<and> a \<notin> {}"
    then have a: "live T a" "a \<notin> {z}" by (auto split: if_splits)
    show "inb (lo a) (hi a) (key a) \<and>
       (((pa T)(z := None)) a = None \<longrightarrow> lo a = None \<and> hi a = None) \<and>
       (\<forall>b. ((lf T)(z := None)) a = Some b \<longrightarrow> lo b = lo a \<and> hi b = Some (key a)) \<and>
       (\<forall>b. ((rt T)(z := None)) a = Some b \<longrightarrow> lo b = Some (key a) \<and> hi b = hi a)"
      using bst_okD[OF B a] a(2) by auto
  qed
  have B3: "bst_ok {} key lo hi ?T3" unfolding bst_ok_def using b3 by blast
  have RB3: "root_black T \<longrightarrow> root_black ?T3"
    unfolding root_black_def v using LD(5) by auto
  have RR3: "rr_ok {z} {} T \<longrightarrow> rr_ok {} {} ?T3"
    unfolding rr_ok_def v by (auto split: if_splits)
  show ?thesis using run v L3 B3 RB3 RR3 by (intro exI[of _ ?T3] exI[of _ blk]) simp
qed

lemma deleted_counts:
  "links_ok X (RtlpRbTreeDecrementNodeCount (RtlpRbTreeIncrementDeletionCount T)) = links_ok X T"
  "bst_ok X key lo hi (RtlpRbTreeDecrementNodeCount (RtlpRbTreeIncrementDeletionCount T)) = bst_ok X key lo hi T"
  "rr_ok X E (RtlpRbTreeDecrementNodeCount (RtlpRbTreeIncrementDeletionCount T)) = rr_ok X E T"
  "root_black (RtlpRbTreeDecrementNodeCount (RtlpRbTreeIncrementDeletionCount T)) = root_black T"
  "cmp_ok keyof (RtlpRbTreeDecrementNodeCount (RtlpRbTreeIncrementDeletionCount T)) = cmp_ok keyof T"
  "pool_ok (RtlpRbTreeDecrementNodeCount (RtlpRbTreeIncrementDeletionCount T)) = pool_ok T"
  "live (RtlpRbTreeDecrementNodeCount (RtlpRbTreeIncrementDeletionCount T)) = live T"
  "obj (RtlpRbTreeDecrementNodeCount (RtlpRbTreeIncrementDeletionCount T)) = obj T"
  "pool (RtlpRbTreeDecrementNodeCount (RtlpRbTreeIncrementDeletionCount T)) = pool T"
  "node_count (RtlpRbTreeDecrementNodeCount (RtlpRbTreeIncrementDeletionCount T)) = node_count T - 1"
  "root (RtlpRbTreeDecrementNodeCount (RtlpRbTreeIncrementDeletionCount T)) = root T"
  by (simp_all add: links_ok_def bst_ok_def rr_ok_def root_black_def cmp_ok_def pool_ok_def
      RtlpRbTreeDecrementNodeCount_def RtlpRbTreeIncrementDeletionCount_def)

lemma rr_ok_black:
  assumes "rr_ok X {c} T" and "col T c = black"
  shows "rr_ok X {} T"
  unfolding rr_ok_def
proof (intro allI impI)
  fix a b
  assume h: "live T a \<and> a \<notin> X \<and> col T a = red \<and> (lf T a = Some b \<or> rt T a = Some b) \<and> col T b = red"
  then have "b \<in> {c}" using assms(1) unfolding rr_ok_def by blast
  then show "b \<in> {}" using h assms(2) by simp
qed

lemma rr_ok_blacken:
  assumes "rr_ok X {c} T" and "live T c"
  shows "rr_ok X {} (upd c (\<lambda>n. n\<lparr>colour := black\<rparr>) T)"
  unfolding rr_ok_def
proof (intro allI impI)
  fix a b
  let ?T = "upd c (\<lambda>n. n\<lparr>colour := black\<rparr>) T"
  assume h: "live ?T a \<and> a \<notin> X \<and> col ?T a = red \<and> (lf ?T a = Some b \<or> rt ?T a = Some b) \<and> col ?T b = red"
  then have "live T a \<and> a \<notin> X \<and> col T a = red \<and> (lf T a = Some b \<or> rt T a = Some b) \<and> col T b = red"
    and "b \<noteq> c"
    using assms(2) by (auto simp: view_upd split: if_splits)
  then show "b \<in> {}" using assms(1) unfolding rr_ok_def by blast
qed

text \<open>
  \<^verbatim>\<open>RtlRbTreeDeleteNode\<close> on a search tree with a black root: it returns, the result is
  a search tree with a black root, and the node holding the key, if there is one, is
  gone and its block is back in the pool.
\<close>

lemma DeleteNode_spec:
  fixes T :: "('k::linorder, 'o) RB_TREE"
  assumes I: "bst_inv keyof T" and P: "pool_ok T" and RB: "root_black T"
  shows "\<exists>T'. RtlRbTreeDeleteNode T k = Some T' \<and> bst_inv keyof T' \<and> pool_ok T' \<and> root_black T' \<and>
     (rr_ok {} {} T \<and> (\<exists>bh. bh_ok {} bh T) \<longrightarrow> rr_ok {} {} T') \<and>
     (cnt_ok T \<longrightarrow> cnt_ok T') \<and> blocks_of T' = blocks_of T \<and>
     (\<forall>a. live T' a \<longleftrightarrow> live T a \<and> nkey keyof T a \<noteq> k) \<and>
     (\<forall>a. live T' a \<longrightarrow> obj T' a = obj T a)"
proof -
  from I obtain lo hi where B: "bst_ok {} (nkey keyof T) lo hi T" and L: "links_ok {} T"
    and C: "cmp_ok keyof T" unfolding bst_inv_def by blast
  have zx: "a \<notin> {}" for a :: addr by simp
  from FindNode_spec[OF L B keys_ok_nkey C, where k=k] obtain r where
    r: "FindNode_loop T k (root T) = Some r"
       "case r of Some c \<Rightarrow> live T c \<and> c \<notin> {} \<and> nkey keyof T c = k
        | None \<Rightarrow> \<forall>c. live T c \<and> c \<notin> {} \<longrightarrow> nkey keyof T c \<noteq> k" by blast
  show ?thesis
  proof (cases r)
    case None
    then have "RtlRbTreeDeleteNode T k = Some T"
      using r(1) by (simp add: RtlRbTreeDeleteNode_def RtlpRbTreeFindNode_def)
    moreover have "\<forall>a. live T a \<longleftrightarrow> live T a \<and> nkey keyof T a \<noteq> k" using r(2) None by auto
    ultimately show ?thesis using I P RB by auto
  next
    case (Some z)
    then have z: "live T z" "nkey keyof T z = k" using r(2) by auto
    have uz: "live T a \<and> nkey keyof T a \<noteq> k \<longleftrightarrow> live T a \<and> a \<noteq> z" for a
      using key_inj[OF L B _ zx z(1) zx, where a=a] z(2) by auto
    from unlink_spec[OF L B z(1)] obtain T1 c x lo1 hi1 where
      u: "DeleteNode_unlink T z = Some (T1, c, x)" "rest_eq T T1" "links_ok {z} T1"
         "bst_ok {z} (nkey keyof T) lo1 hi1 T1"
         "\<forall>x'. x = Some x' \<longrightarrow> live T x' \<and> x' \<noteq> z"
         "root_black T1 \<or> (c = black \<and> x \<noteq> None \<and> root T1 = x)"
         "rr_ok {} {} T \<longrightarrow> rr_ok {z} (set_option x) T1 \<and>
            (c = red \<longrightarrow> (\<forall>x'. x = Some x' \<longrightarrow> col T1 x' = black))"
         "(\<exists>bh. bh_ok {} bh T) \<longrightarrow> (\<forall>x'. x = Some x' \<longrightarrow> col T1 x' = red)"
      using RB by blast
    have lv1: "live T1 = live T" using u(2) by (simp add: rest_eq_def)
    have "\<exists>T2 lo2 hi2. (if c = black \<and> x \<noteq> None then x \<bind> RtlpRbTreeFixupDelete T1 else Some T1) = Some T2 \<and>
        rest_eq T1 T2 \<and> links_ok {z} T2 \<and> bst_ok {z} (nkey keyof T) lo2 hi2 T2 \<and> root_black T2 \<and>
        (rr_ok {} {} T \<and> (\<exists>bh. bh_ok {} bh T) \<longrightarrow> rr_ok {z} {} T2)"
    proof (cases "c = black \<and> x \<noteq> None")
      case True
      then obtain x' where x': "x = Some x'" by auto
      have xl: "live T1 x'" "x' \<notin> {z}" using u(5) x' lv1 by auto
      have pre: "fd_pre {z} (nkey keyof T) lo1 hi1 T1 x'"
        unfolding fd_pre_def using u(3,4,6) xl x' by auto
      from FixupDelete_spec[OF pre] obtain T2 lo2 hi2 where
        T2: "RtlpRbTreeFixupDelete T1 x' = Some T2" "rest_eq T1 T2" "links_ok {z} T2"
          "bst_ok {z} (nkey keyof T) lo2 hi2 T2" "root_black T2" by blast
      have "rr_ok {z} {} T2" if h: "rr_ok {} {} T \<and> (\<exists>bh. bh_ok {} bh T)"
      proof -
        have cr: "col T1 x' = red" and rr: "rr_ok {z} {x'} T1" using u(7,8) h x' by auto
        have "RtlpRbTreeFixupDelete T1 x' = Some (upd x' (\<lambda>n. n\<lparr>colour := black\<rparr>) T1)"
          using FixupDelete_loop_exit[OF xl(1)] cr xl(1)
          by (simp add: RtlpRbTreeFixupDelete_def setters)
        then have "T2 = upd x' (\<lambda>n. n\<lparr>colour := black\<rparr>) T1" using T2(1) by simp
        then show ?thesis using rr_ok_blacken[OF rr xl(1)] by simp
      qed
      then show ?thesis using True x' T2 by auto
    next
      case False
      then have rb1: "root_black T1" using u(6) by blast
      have "rr_ok {z} {} T1" if h: "rr_ok {} {} T \<and> (\<exists>bh. bh_ok {} bh T)"
      proof (cases x)
        case None
        then show ?thesis using u(7) h by simp
      next
        case (Some x')
        then have "c = red" using False by (cases c) auto
        then have "col T1 x' = black" "rr_ok {z} {x'} T1" using u(7) h Some by auto
        then show ?thesis using rr_ok_black by blast
      qed
      then show ?thesis using False u(3,4) rb1 by auto
    qed
    then obtain T2 lo2 hi2 where
      T2: "(if c = black \<and> x \<noteq> None then x \<bind> RtlpRbTreeFixupDelete T1 else Some T1) = Some T2"
        "rest_eq T1 T2" "links_ok {z} T2" "bst_ok {z} (nkey keyof T) lo2 hi2 T2" "root_black T2"
        "rr_ok {} {} T \<and> (\<exists>bh. bh_ok {} bh T) \<longrightarrow> rr_ok {z} {} T2" by blast
    have re2: "rest_eq T T2" using u(2) T2(2) by (rule rest_eq_trans)
    have z2: "live T2 z" using z(1) re2 by (simp add: rest_eq_def)
    from free_unlinked[OF T2(3,4) z2] obtain T3 blk where
      T3: "ExFreeToLookasideListEx T2 z = Some T3" "pool T3 = (z, blk) # pool T2"
        "compare T3 = compare T2" "node_count T3 = node_count T2"
        "live T3 = (live T2)(z := False)" "\<forall>a. a \<noteq> z \<longrightarrow> obj T3 a = obj T2 a"
        "links_ok {} T3" "bst_ok {} (nkey keyof T) lo2 hi2 T3" "root_black T2 \<longrightarrow> root_black T3"
        "rr_ok {z} {} T2 \<longrightarrow> rr_ok {} {} T3" by blast
    let ?T' = "RtlpRbTreeDecrementNodeCount (RtlpRbTreeIncrementDeletionCount T3)"
    have run: "RtlRbTreeDeleteNode T k = Some ?T'"
      using r(1) Some u(1) T2(1) T3(1)
      by (simp add: RtlRbTreeDeleteNode_def RtlpRbTreeFindNode_def)
    have v: "live ?T' = (live T)(z := False)" "\<And>a. a \<noteq> z \<Longrightarrow> obj ?T' a = obj T a"
      "pool ?T' = (z, blk) # pool T" "compare T3 = compare T" "node_count ?T' = node_count T - 1"
      using T3(2,3,4,5,6) re2 by (simp_all add: deleted_counts rest_eq_def)
    have nk: "nkey keyof ?T' a = nkey keyof T a" if "live ?T' a" for a
      using that v(1) v(2)[of a] by (auto simp: nkey_def split: if_splits)
    have "bst_ok {} (nkey keyof T) lo2 hi2 ?T'" using T3(8) by (simp add: deleted_counts)
    from bst_ok_cong[OF _ this, where key'="nkey keyof ?T'"] nk
    have ex: "\<exists>lo' hi'. bst_ok {} (nkey keyof ?T') lo' hi' ?T'" by blast
    have "cmp_ok keyof T3" using C v(4) unfolding cmp_ok_def by simp
    then have "cmp_ok keyof ?T'" by (simp add: deleted_counts)
    then have I': "bst_inv keyof ?T'" using ex T3(7) by (simp add: bst_inv_def deleted_counts)
    have zp: "z \<notin> fst ` set (pool T)" using P z(1) by (auto simp: pool_ok_def)
    have P': "pool_ok ?T'" using P zp unfolding pool_ok_def v(1,3) by auto
    have RB': "root_black ?T'" using T3(9) T2(5) by (simp add: deleted_counts)
    have RR': "rr_ok {} {} T \<and> (\<exists>bh. bh_ok {} bh T) \<longrightarrow> rr_ok {} {} ?T'"
      using T2(6) T3(10) by (simp add: deleted_counts)
    have fin: "finite {a. live T a}" using links_ok_finite[OF L] .
    have st: "{a. live ?T' a} = {a. live T a} - {z}" unfolding v(1) by auto
    have cd: "card {a. live T a} = Suc (card {a. live ?T' a})"
      unfolding st using card_Suc_Diff1[OF fin, of z] z(1) by simp
    have cn: "cnt_ok T \<longrightarrow> cnt_ok ?T'" unfolding cnt_ok_def v(5) cd by simp
    have bl: "blocks_of ?T' = blocks_of T" unfolding blocks_of_def cd v(3) by simp
    have lv: "\<forall>a. live ?T' a \<longleftrightarrow> live T a \<and> nkey keyof T a \<noteq> k"
      unfolding uz v(1) by auto
    have ob: "\<forall>a. live ?T' a \<longrightarrow> obj ?T' a = obj T a" using v(1,2) by (auto split: if_splits)
    show ?thesis using run I' P' RB' RR' cn bl lv ob by blast
  qed
qed

subsection \<open>Enumeration\<close>

lemma desc_Some:
  assumes "live T a"
  shows "desc T (Some a) = desc T (lf T a) \<union> {a} \<union> desc T (rt T a)"
proof (intro set_eqI iffI)
  fix c assume "c \<in> desc T (Some a)"
  then have "(child T)\<^sup>*\<^sup>* a c" by (simp add: desc_def)
  from desc_cases[OF this] show "c \<in> desc T (lf T a) \<union> {a} \<union> desc T (rt T a)"
    by (auto simp: desc_def)
next
  fix c assume c: "c \<in> desc T (lf T a) \<union> {a} \<union> desc T (rt T a)"
  have "(child T)\<^sup>*\<^sup>* a c" if "lf T a = Some b \<or> rt T a = Some b" "(child T)\<^sup>*\<^sup>* b c" for b
  proof -
    have "child T a b" using that(1) assms by (simp add: child_def)
    then show ?thesis using that(2) by (rule converse_rtranclp_into_rtranclp)
  qed
  then show "c \<in> desc T (Some a)" using c by (auto simp: desc_def split: option.splits)
qed

text \<open>
  \<^verbatim>\<open>RtlpRbTreeEnumerate\<close> on a subtree: it returns, and what it returns is the callback
  folded over the nodes of the subtree, each once, in ascending order of the keys.
\<close>

lemma Enumerate_spec:
  fixes key :: "addr \<Rightarrow> 'k::linorder" and T :: "('k, 'o) RB_TREE"
  assumes L: "links_ok X T" and B: "bst_ok X key lo hi T"
  shows "live T a \<Longrightarrow> a \<notin> X \<Longrightarrow>
     \<exists>xs. set xs = desc T (Some a) \<and> sorted_wrt (\<lambda>b c. key b < key c) xs \<and>
       (\<forall>(Callback :: 'o \<Rightarrow> 'c \<Rightarrow> 'c) Context. RtlpRbTreeEnumerate T (Some a) Callback Context =
          Some (fold (\<lambda>b. Callback (the (obj T b))) xs Context))"
proof (induction "card (below key lo hi X T a)" arbitrary: a rule: less_induct)
  case less
  note a = less.prems
  note LD = links_okD[OF L a] and BD = bst_okD[OF B a]
  have sub: "\<exists>xs. set xs = desc T x \<and> sorted_wrt (\<lambda>b c. key b < key c) xs \<and>
       (\<forall>(Callback :: 'o \<Rightarrow> 'c \<Rightarrow> 'c) Context. RtlpRbTreeEnumerate T x Callback Context =
          Some (fold (\<lambda>b. Callback (the (obj T b))) xs Context))"
    if x: "x = lf T a \<or> x = rt T a" for x
  proof (cases x)
    case None
    have "RtlpRbTreeEnumerate T None Callback Context = Some Context" for Callback :: "'o \<Rightarrow> 'c \<Rightarrow> 'c" and Context
      by (subst RtlpRbTreeEnumerate.simps) simp
    then show ?thesis using None by (intro exI[of _ "[]"]) (simp add: desc_def)
  next
    case (Some b)
    then have ch: "child T a b" using x a(1) by (auto simp: child_def)
    have bl: "live T b" "b \<notin> X" using LD(3,4)[of b] x Some by auto
    from less.hyps[OF child_card_less[OF L B a ch] bl] show ?thesis unfolding Some .
  qed
  from sub[of "lf T a"] obtain ls where
    ls: "set ls = desc T (lf T a)" "sorted_wrt (\<lambda>b c. key b < key c) ls"
      "\<And>(Callback :: 'o \<Rightarrow> 'c \<Rightarrow> 'c) Context. RtlpRbTreeEnumerate T (lf T a) Callback Context =
          Some (fold (\<lambda>b. Callback (the (obj T b))) ls Context)" by auto
  from sub[of "rt T a"] obtain rs where
    rs: "set rs = desc T (rt T a)" "sorted_wrt (\<lambda>b c. key b < key c) rs"
      "\<And>(Callback :: 'o \<Rightarrow> 'c \<Rightarrow> 'c) Context. RtlpRbTreeEnumerate T (rt T a) Callback Context =
          Some (fold (\<lambda>b. Callback (the (obj T b))) rs Context)" by auto
  have kl: "key c < key a" if "c \<in> set ls" for c
  proof -
    from that ls(1) obtain b where b: "lf T a = Some b" "(child T)\<^sup>*\<^sup>* b c"
      by (auto simp: desc_def split: option.splits)
    have bl: "live T b" "b \<notin> X" using LD(3)[OF b(1)] by auto
    have "inb (lo b) (hi b) (key c)" using desc_props[OF L B b(2) bl] by simp
    then show ?thesis using BD(3)[OF b(1)] by (auto dest: inb_Some_left)
  qed
  have kr: "key a < key c" if "c \<in> set rs" for c
  proof -
    from that rs(1) obtain b where b: "rt T a = Some b" "(child T)\<^sup>*\<^sup>* b c"
      by (auto simp: desc_def split: option.splits)
    have bl: "live T b" "b \<notin> X" using LD(4)[OF b(1)] by auto
    have "inb (lo b) (hi b) (key c)" using desc_props[OF L B b(2) bl] by simp
    then show ?thesis using BD(4)[OF b(1)] by (auto dest: inb_Some_right)
  qed
  obtain v where v: "obj T a = Some v" using live_obj[OF a(1)] by blast
  let ?xs = "ls @ a # rs"
  have s: "set ?xs = desc T (Some a)" using desc_Some[OF a(1)] ls(1) rs(1) by auto
  have so: "sorted_wrt (\<lambda>b c. key b < key c) ?xs"
    using ls(2) rs(2) kl kr by (fastforce simp: sorted_wrt_append)
  have run: "RtlpRbTreeEnumerate T (Some a) Callback Context =
          Some (fold (\<lambda>b. Callback (the (obj T b))) ?xs Context)" for Callback :: "'o \<Rightarrow> 'c \<Rightarrow> 'c" and Context
    using a(1) v ls(3) rs(3) by (subst RtlpRbTreeEnumerate.simps) (simp add: getters)
  show ?case using s so run by blast
qed

subsection \<open>Sequences of operations\<close>

lemma empty_tree_inv: "empty_tree keyof T \<Longrightarrow> tree_inv keyof T"
proof -
  assume e: "empty_tree keyof T"
  then have lv: "live T = (\<lambda>a. False)" by (simp add: empty_tree_def live_def fun_eq_iff)
  have "links_ok {} T" unfolding links_ok_def lv using e by (simp add: empty_tree_def)
  moreover have "bst_ok {} (nkey keyof T) (\<lambda>a. None) (\<lambda>a. None) T" unfolding bst_ok_def lv by simp
  moreover have "pool_ok T" unfolding pool_ok_def lv using e by (simp add: empty_tree_def)
  moreover have "root_black T" using e by (simp add: root_black_def empty_tree_def)
  moreover have "cnt_ok T" unfolding cnt_ok_def lv using e by (simp add: empty_tree_def)
  ultimately show ?thesis using e unfolding tree_inv_def bst_inv_def empty_tree_def by blast
qed

lemma apply_operation_inv:
  fixes T :: "('k::linorder, 'o) RB_TREE"
  assumes "tree_inv keyof T"
  shows "\<exists>T'. apply_operation keyof T x = Some T' \<and> tree_inv keyof T' \<and> blocks_of T' = blocks_of T"
proof (cases x)
  case (Insert v)
  from caller_insert_spec[of keyof T v] assms show ?thesis
    unfolding Insert tree_inv_def by auto
next
  case (Delete k)
  from DeleteNode_spec[of keyof T k] assms show ?thesis
    unfolding Delete tree_inv_def by auto
qed

lemma run_operations_inv:
  fixes T :: "('k::linorder, 'o) RB_TREE"
  shows "tree_inv keyof T \<Longrightarrow>
     \<exists>T'. run_operations keyof T xs = Some T' \<and> tree_inv keyof T' \<and> blocks_of T' = blocks_of T"
proof (induction xs arbitrary: T)
  case Nil
  then show ?case by simp
next
  case (Cons x xs)
  from apply_operation_inv[OF Cons.prems, of x] obtain T1 where
    T1: "apply_operation keyof T x = Some T1" "tree_inv keyof T1" "blocks_of T1 = blocks_of T" by blast
  from Cons.IH[OF T1(2)] show ?case using T1(1,3) by auto
qed

lemma reachable_live:
  assumes "bst_inv keyof T"
  shows "reachable T = {a. live T a}"
proof -
  from assms obtain lo hi where B: "bst_ok {} (nkey keyof T) lo hi T" and L: "links_ok {} T"
    unfolding bst_inv_def by blast
  have zx: "a \<notin> {}" for a :: addr by simp
  show ?thesis
  proof (cases "root T")
    case None
    then show ?thesis using desc_root[OF L B _ zx] by (auto simp: reachable_def desc_def)
  next
    case (Some r)
    have rl: "live T r" using links_ok_root[OF L Some] by simp
    show ?thesis
      using desc_root[OF L B _ zx] desc_props[OF L B _ rl zx] Some
      by (auto simp: reachable_def desc_def)
  qed
qed

lemma strict_sorted_distinct:
  fixes f :: "'a \<Rightarrow> 'k::linorder"
  shows "sorted_wrt (\<lambda>b c. f b < f c) xs \<Longrightarrow> distinct xs"
  by (induction xs) auto

text \<open>
  \<^verbatim>\<open>RtlRbTreeEnumerate\<close> on a search tree: the callback is folded over the nodes of the
  tree, each once, in ascending order of the keys.
\<close>

lemma RtlRbTreeEnumerate_spec:
  fixes T :: "('k::linorder, 'o) RB_TREE"
  assumes "bst_inv keyof T"
  shows "\<exists>xs. set xs = reachable T \<and> distinct xs \<and>
     sorted_wrt (\<lambda>b c. nkey keyof T b < nkey keyof T c) xs \<and>
     (\<forall>(Callback :: 'o \<Rightarrow> 'c \<Rightarrow> 'c) Context. RtlRbTreeEnumerate T Callback Context =
         Some (fold (\<lambda>b. Callback (the (obj T b))) xs Context))"
proof -
  from assms obtain lo hi where B: "bst_ok {} (nkey keyof T) lo hi T" and L: "links_ok {} T"
    unfolding bst_inv_def by blast
  have zx: "a \<notin> {}" for a :: addr by simp
  show ?thesis
  proof (cases "root T")
    case None
    then show ?thesis
      by (intro exI[of _ "[]"]) (simp add: reachable_def desc_def RtlRbTreeEnumerate_def)
  next
    case (Some r)
    have rl: "live T r" using links_ok_root[OF L Some] by simp
    from Enumerate_spec[OF L B rl zx] obtain xs where
      xs: "set xs = desc T (Some r)" "sorted_wrt (\<lambda>b c. nkey keyof T b < nkey keyof T c) xs"
        "\<And>(Callback :: 'o \<Rightarrow> 'c \<Rightarrow> 'c) Context. RtlpRbTreeEnumerate T (Some r) Callback Context =
          Some (fold (\<lambda>b. Callback (the (obj T b))) xs Context)" by blast
    have "distinct xs" using strict_sorted_distinct[OF xs(2)] .
    then show ?thesis using xs Some
      by (intro exI[of _ xs]) (simp add: reachable_def RtlRbTreeEnumerate_def)
  qed
qed

section \<open>Creation\<close>

lemma RtlRbTreeCreate_status:
  "fst (RtlRbTreeCreate init Compare ObjectSize Tree) =
     (if Compare = None \<or> ObjectSize = 0 then STATUS_INVALID_PARAMETER
      else if NT_SUCCESS (fst (init (unat ObjectSize + sizeof_RB_TREE_NODE))) then STATUS_SUCCESS
      else fst (init (unat ObjectSize + sizeof_RB_TREE_NODE)))"
  by (simp add: RtlRbTreeCreate_def Let_def split: prod.splits)

lemma RtlRbTreeCreate_counters:
  "fst (RtlRbTreeCreate init Compare ObjectSize Tree) = STATUS_SUCCESS \<and>
   snd (RtlRbTreeCreate init Compare ObjectSize Tree) = T' \<Longrightarrow>
   node_count T' = 0 \<and> insertion_count T' = 0 \<and> deletion_count T' = 0 \<and> compare T' = Compare"
  by (auto simp: RtlRbTreeCreate_def STATUS_SUCCESS_def STATUS_INVALID_PARAMETER_def NT_SUCCESS_def
      Let_def split: prod.splits if_splits)

lemma RtlRbTreeCreate_root:
  "root (snd (RtlRbTreeCreate init Compare ObjectSize Tree)) = root Tree"
  by (simp add: RtlRbTreeCreate_def Let_def split: prod.splits)

text \<open>
  C7. \<^verbatim>\<open>RtlRbTreeCreate\<close> sets the comparator and the three counters of the caller's
  structure and never writes \<^verbatim>\<open>Tree->root\<close>: called with a present comparator, a
  non-zero object size and a pool that registers, on a structure whose root field
  holds the address 7, it returns success and the root field still holds 7.
\<close>

theorem RtlRbTreeCreate_keeps_stale_root:
  "fst (RtlRbTreeCreate (\<lambda>sz. (STATUS_SUCCESS, [])) (Some compare_int) 8
          (zeroed_tree\<lparr>root := Some 7\<rparr>)) = STATUS_SUCCESS \<and>
   root (snd (RtlRbTreeCreate (\<lambda>sz. (STATUS_SUCCESS, [])) (Some compare_int) 8
          (zeroed_tree\<lparr>root := Some 7\<rparr>))) = Some 7 \<and>
   node_count (snd (RtlRbTreeCreate (\<lambda>sz. (STATUS_SUCCESS, [])) (Some compare_int) 8
          (zeroed_tree\<lparr>root := Some 7\<rparr>))) = 0"
  by (simp add: RtlRbTreeCreate_def zeroed_tree_def STATUS_SUCCESS_def NT_SUCCESS_def)

section \<open>Insertion: allocation failure\<close>

text \<open>
  C5. When the pool is exhausted, \<^verbatim>\<open>RtlRbTreeInsertNode\<close> returns \<^verbatim>\<open>NULL\<close> and the
  tree after the call is the tree before it (root, memory, pool, counters); and
  whenever the call returns \<^verbatim>\<open>NULL\<close>, the pool was exhausted.
\<close>

theorem InsertNode_allocation_failure:
  "(pool Tree = [] \<longrightarrow> RtlRbTreeInsertNode Tree Key = Some (None, Tree)) \<and>
   (\<forall>T'. RtlRbTreeInsertNode Tree Key = Some (None, T') \<longrightarrow> pool Tree = [])"
  by (auto simp: RtlRbTreeInsertNode_def ExAllocateFromLookasideListEx_def
      split: list.splits sum.splits prod.splits Option.bind_splits)

theorem InsertNode_allocation_failure_witness:
  "pool (new_tree 0) = [] \<and> RtlRbTreeInsertNode (new_tree 0) 5 = Some (None, new_tree 0)"
  using InsertNode_allocation_failure [of "new_tree 0" 5]
  by (simp add: new_tree_eq blocks_def)

section \<open>Scenario A\<close>

text \<open>
  C9 (as stated it fails: the children are red). Inserting 10, 20, 30 in that order
  into an empty tree: the claim says the left child of the root holds 10 and is black.
\<close>

theorem scenario_A_left_child_not_black:
  "run_operations id (new_tree 3) [Insert 10, Insert 20, Insert 30] = Some scenario_A_tree \<and>
   root scenario_A_tree = Some 2 \<and> get_left scenario_A_tree 2 = Some (Some 1) \<and>
   get_object scenario_A_tree 1 = Some 10 \<and> get_colour scenario_A_tree 1 = Some red"
  unfolding new_tree_3_run scenario_A_tree_eq
  by (simp add: get_left_def get_object_def get_colour_def)

text \<open>
  C9 (amended). Inserting 10, 20, 30 in that order into an empty tree gives the root
  holding 20, black, with the left child holding 10, red, and the right child holding
  30, red; both children are leaves and the three counters are 3, 3 and 0. (The pool
  of \<open>new_tree 3\<close> hands out the blocks at the addresses 1, 2 and 3, in that order.)
\<close>

theorem scenario_A_shape:
  "run_operations id (new_tree 3) [Insert 10, Insert 20, Insert 30] = Some scenario_A_tree \<and>
   root scenario_A_tree = Some 2 \<and>
   mem scenario_A_tree 2 =
     Some \<lparr>parent = None, left = Some 1, right = Some 3, colour = black, object = 20\<rparr> \<and>
   mem scenario_A_tree 1 =
     Some \<lparr>parent = Some 2, left = None, right = None, colour = red, object = 10\<rparr> \<and>
   mem scenario_A_tree 3 =
     Some \<lparr>parent = Some 2, left = None, right = None, colour = red, object = 30\<rparr> \<and>
   node_count scenario_A_tree = 3 \<and> insertion_count scenario_A_tree = 3 \<and>
   deletion_count scenario_A_tree = 0"
  unfolding new_tree_3_run scenario_A_tree_eq by simp

section \<open>Lookup leaves the tree alone\<close>

text \<open>
  C10. On a tree that is a search tree for the comparator, \<^verbatim>\<open>RtlRbTreeFindNodeObject\<close>
  returns, and the tree after the call is the tree before it (root, every node's
  links, colour and payload, pool and counters). The result is the object of a node
  whose key is the key asked for when the tree has such a node, and \<^verbatim>\<open>NULL\<close> when no
  node of the tree has that key.
\<close>

theorem FindNodeObject_frame:
  fixes T :: "('k::linorder, 'o) RB_TREE"
  assumes "bst_inv keyof T"
  shows "\<exists>r. RtlRbTreeFindNodeObject T k = Some (r, T) \<and>
     (case r of Some c \<Rightarrow> live T c \<and> nkey keyof T c = k
      | None \<Rightarrow> \<forall>c. live T c \<longrightarrow> nkey keyof T c \<noteq> k)"
proof -
  from assms obtain lo hi where B: "bst_ok {} (nkey keyof T) lo hi T" and L: "links_ok {} T"
    and C: "cmp_ok keyof T" unfolding bst_inv_def by blast
  from FindNode_spec[OF L B keys_ok_nkey C, of k] show ?thesis
    by (auto simp: RtlRbTreeFindNodeObject_def split: option.splits)
qed

theorem FindNodeObject_frame_witness:
  "bst_inv id tree_10_20_30 \<and>
   (\<exists>r. RtlRbTreeFindNodeObject tree_10_20_30 20 = Some (r, tree_10_20_30) \<and>
     (case r of Some c \<Rightarrow> live tree_10_20_30 c \<and> nkey id tree_10_20_30 c = 20
      | None \<Rightarrow> \<forall>c. live tree_10_20_30 c \<longrightarrow> nkey id tree_10_20_30 c \<noteq> 20))"
  using FindNodeObject_frame [of id tree_10_20_30 20] tree_10_20_30_inv by simp

section \<open>Insertion of a key that is present\<close>

text \<open>
  C6 (as stated it fails). \<^verbatim>\<open>RtlRbTreeInsertNode\<close> takes a block from the pool before
  it looks for the key. On the tree that holds the key 10 and whose pool is exhausted,
  inserting 10 again returns \<^verbatim>\<open>NULL\<close>, not the object that holds 10.
\<close>

theorem InsertNode_present_key_exhausted_pool:
  "run_operations id (new_tree 1) [Insert 10] = Some tree_10_exhausted \<and>
   get_object tree_10_exhausted 1 = Some 10 \<and>
   RtlRbTreeInsertNode tree_10_exhausted 10 = Some (None, tree_10_exhausted)"
  unfolding tree_10_exhausted_run tree_10_exhausted_eq
  by (simp add: get_object_def RtlRbTreeInsertNode_def ExAllocateFromLookasideListEx_def)

text \<open>
  C6 (amended). On a search tree whose pool can supply a block, inserting a key that a
  node of the tree holds returns the object of that node; the root, every node (links,
  colour and payload) and the three counters are unchanged, and the pool holds the
  same blocks as before.
\<close>

theorem InsertNode_present_key:
  fixes T :: "('k::linorder, 'o) RB_TREE"
  assumes "bst_inv keyof T" and "pool_ok T" and "pool T \<noteq> []"
    and "live T c" and "nkey keyof T c = k"
  shows "\<exists>T'. RtlRbTreeInsertNode T k = Some (Some c, T') \<and> root T' = root T \<and> mem T' = mem T \<and>
     node_count T' = node_count T \<and> insertion_count T' = insertion_count T \<and>
     deletion_count T' = deletion_count T \<and> map fst (pool T') = map fst (pool T)"
proof -
  from assms(3) obtain a blk rest where pl: "pool T = (a, blk) # rest"
    by (cases "pool T") auto
  show ?thesis using InsertNode_present[OF assms(1,2) pl assms(4,5)] pl by simp
qed

theorem InsertNode_present_key_witness:
  "bst_inv id tree_10_20_30 \<and> pool_ok tree_10_20_30 \<and> pool tree_10_20_30 \<noteq> [] \<and>
   live tree_10_20_30 3 \<and> nkey id tree_10_20_30 3 = 30 \<and>
   (\<exists>T'. RtlRbTreeInsertNode tree_10_20_30 30 = Some (Some 3, T') \<and>
      root T' = root tree_10_20_30 \<and> mem T' = mem tree_10_20_30 \<and>
      node_count T' = node_count tree_10_20_30 \<and>
      insertion_count T' = insertion_count tree_10_20_30 \<and>
      deletion_count T' = deletion_count tree_10_20_30 \<and>
      map fst (pool T') = map fst (pool tree_10_20_30))"
proof -
  have "pool tree_10_20_30 \<noteq> []" "live tree_10_20_30 3" "nkey id tree_10_20_30 3 = 30"
    by (simp_all add: tree_10_20_30_eq live_def nkey_def obj_def)
  then show ?thesis
    using InsertNode_present_key [of id tree_10_20_30 3 30] tree_10_20_30_inv by simp
qed

section \<open>Black height after an insertion\<close>

text \<open>
  C4. On a tree that satisfies the red-black invariants and whose pool can supply a
  block, \<^verbatim>\<open>RtlRbTreeInsertNode\<close> returns the object of a node, and in the tree after the
  call any two paths from a node down to a null pointer pass the same number of black
  nodes.
\<close>

theorem InsertNode_black_height:
  fixes T :: "('k::linorder, 'o) RB_TREE"
  assumes "rb_tree keyof T" and "pool T \<noteq> []"
  shows "\<exists>a T'. RtlRbTreeInsertNode T k = Some (Some a, T') \<and> bh_uniform T'"
proof -
  from assms(1) obtain bh where I: "bst_inv keyof T" and P: "pool_ok T" and RB: "root_black T"
    and RR: "rr_ok {} {} T" and H: "bh_ok {} bh T" unfolding rb_tree_def rb_inv_def by blast
  from assms(2) obtain a blk rest where pl: "pool T = (a, blk) # rest"
    by (cases "pool T") auto
  show ?thesis
  proof (cases "\<exists>c. live T c \<and> nkey keyof T c = k")
    case True
    then obtain c where c: "live T c" "nkey keyof T c = k" by blast
    have "bh_uniform (T\<lparr>pool := (a, blk\<lparr>parent := None, left := None, right := None, colour := red\<rparr>) # rest\<rparr>)"
      using H by (intro bh_ok_uniform[of bh]) (simp add: pool_inv)
    then show ?thesis using InsertNode_present[OF I P pl c] by blast
  next
    case False
    then have nk: "\<forall>c. live T c \<longrightarrow> nkey keyof T c \<noteq> k" by blast
    have FU: "True \<longrightarrow> rr_ok {} {} T \<and> (\<exists>bh. bh_ok {} bh T)" using RR H by blast
    from InsertNode_absent[OF I P pl RB nk FU] obtain T' bh2 where
      "RtlRbTreeInsertNode T k = Some (Some a, T')" "bh_ok {} bh2 T'" by blast
    then show ?thesis using bh_ok_uniform by blast
  qed
qed

theorem InsertNode_black_height_witness:
  "rb_tree id tree_10_20_30 \<and> pool tree_10_20_30 \<noteq> [] \<and>
   (\<exists>a T'. RtlRbTreeInsertNode tree_10_20_30 40 = Some (Some a, T') \<and> bh_uniform T')"
proof -
  have "pool tree_10_20_30 \<noteq> []" by (simp add: tree_10_20_30_eq)
  then show ?thesis
    using InsertNode_black_height [of id tree_10_20_30 40] tree_10_20_30_inv
    by (simp add: rb_tree_def)
qed

section \<open>Root colour and red-red edges\<close>

text \<open>
  C1. On a tree that satisfies the red-black invariants (consistent links, search
  order, black root, no red node with a red child, uniform black height), both
  \<^verbatim>\<open>RtlRbTreeInsertNode\<close> and \<^verbatim>\<open>RtlRbTreeDeleteNode\<close> return, for every key, and in the
  tree after the call the root, if there is one, is black and no red node has a red
  parent.
\<close>

theorem Insert_Delete_root_black_no_red_red:
  fixes T :: "('k::linorder, 'o) RB_TREE"
  assumes "rb_tree keyof T"
  shows "(\<exists>r T'. RtlRbTreeInsertNode T k = Some (r, T') \<and> root_black T' \<and> no_red_red T') \<and>
         (\<exists>T'. RtlRbTreeDeleteNode T k = Some T' \<and> root_black T' \<and> no_red_red T')"
proof
  from assms obtain bh where I: "bst_inv keyof T" and P: "pool_ok T" and RB: "root_black T"
    and RR: "rr_ok {} {} T" and H: "bh_ok {} bh T" unfolding rb_tree_def rb_inv_def by blast
  have L: "links_ok {} T" using I by (simp add: bst_inv_def)
  have N: "no_red_red T" using rr_ok_no_red_red[OF L RR] .
  show "\<exists>r T'. RtlRbTreeInsertNode T k = Some (r, T') \<and> root_black T' \<and> no_red_red T'"
  proof (cases "pool T")
    case Nil
    then show ?thesis using InsertNode_exhausted[of T k] RB N by blast
  next
    case (Cons e rest)
    obtain a blk where pl: "pool T = (a, blk) # rest" using Cons by (cases e) simp
    show ?thesis
    proof (cases "\<exists>c. live T c \<and> nkey keyof T c = k")
      case True
      then obtain c where c: "live T c" "nkey keyof T c = k" by blast
      let ?T' = "T\<lparr>pool := (a, blk\<lparr>parent := None, left := None, right := None, colour := red\<rparr>) # rest\<rparr>"
      have "root_black ?T'" "no_red_red ?T'"
        using RB N by (simp_all add: root_black_def no_red_red_def)
      then show ?thesis using InsertNode_present[OF I P pl c] by blast
    next
      case False
      then have nk: "\<forall>c. live T c \<longrightarrow> nkey keyof T c \<noteq> k" by blast
      have FU: "True \<longrightarrow> rr_ok {} {} T \<and> (\<exists>bh. bh_ok {} bh T)" using RR H by blast
      from InsertNode_absent[OF I P pl RB nk FU] obtain T' where
        T': "RtlRbTreeInsertNode T k = Some (Some a, T')" "links_ok {} T'" "root_black T'"
          "rr_ok {} {} T'" by blast
      then show ?thesis using rr_ok_no_red_red[OF T'(2,4)] by blast
    qed
  qed
  from DeleteNode_spec[OF I P RB, of k] RR H obtain T' where
    T': "RtlRbTreeDeleteNode T k = Some T'" "bst_inv keyof T'" "root_black T'" "rr_ok {} {} T'"
    by blast
  have "links_ok {} T'" using T'(2) by (simp add: bst_inv_def)
  then show "\<exists>T'. RtlRbTreeDeleteNode T k = Some T' \<and> root_black T' \<and> no_red_red T'"
    using T' rr_ok_no_red_red by blast
qed

theorem Insert_Delete_root_black_no_red_red_witness:
  "rb_tree id tree_10_20_30 \<and>
   (\<exists>r T'. RtlRbTreeInsertNode tree_10_20_30 40 = Some (r, T') \<and> root_black T' \<and> no_red_red T') \<and>
   (\<exists>T'. RtlRbTreeDeleteNode tree_10_20_30 40 = Some T' \<and> root_black T' \<and> no_red_red T')"
  using Insert_Delete_root_black_no_red_red [of id tree_10_20_30 40] tree_10_20_30_inv
  by (simp add: rb_tree_def)

section \<open>Search order under every sequence of operations\<close>

text \<open>
  C2. From an empty tree whose comparator is a strict total order on the keys, every
  sequence of insertions and deletions runs to its end, and enumerating the resulting
  tree with a callback that records the key of each object visited gives a strictly
  ascending list of keys.
\<close>

theorem run_operations_inorder_ascending:
  fixes T0 :: "('k::linorder, 'o) RB_TREE"
  assumes "empty_tree keyof T0"
  shows "\<exists>T ks. run_operations keyof T0 ops = Some T \<and>
     RtlRbTreeEnumerate T (\<lambda>ob acc. acc @ [keyof ob]) [] = Some ks \<and> sorted_wrt (<) ks"
proof -
  from run_operations_inv[OF empty_tree_inv[OF assms], of ops] obtain T where
    T: "run_operations keyof T0 ops = Some T" "tree_inv keyof T" by blast
  then have I: "bst_inv keyof T" by (simp add: tree_inv_def)
  from RtlRbTreeEnumerate_spec[OF I] obtain xs where
    xs: "sorted_wrt (\<lambda>b c. nkey keyof T b < nkey keyof T c) xs"
      "\<And>(Callback :: 'o \<Rightarrow> 'k list \<Rightarrow> 'k list) Context. RtlRbTreeEnumerate T Callback Context =
         Some (fold (\<lambda>b. Callback (the (obj T b))) xs Context)" by blast
  have f: "fold (\<lambda>b acc. acc @ [keyof (the (obj T b))]) ys acc = acc @ map (nkey keyof T) ys"
    for ys acc by (induction ys arbitrary: acc) (simp_all add: nkey_def)
  have "RtlRbTreeEnumerate T (\<lambda>ob acc. acc @ [keyof ob]) [] = Some (map (nkey keyof T) xs)"
    using xs(2)[of "\<lambda>ob acc. acc @ [keyof ob]" "[]"] f[of xs "[]"] by simp
  moreover have "sorted_wrt (<) (map (nkey keyof T) xs)" using xs(1) by (simp add: sorted_wrt_map)
  ultimately show ?thesis using T(1) by blast
qed

theorem run_operations_inorder_ascending_witness:
  "empty_tree id (new_tree 3) \<and>
   (\<exists>T ks. run_operations id (new_tree 3) [Insert 20, Insert 10, Delete 20, Insert 30] = Some T \<and>
     RtlRbTreeEnumerate T (\<lambda>ob acc. acc @ [id ob]) [] = Some ks \<and> sorted_wrt (<) ks)"
proof -
  have "empty_tree id (new_tree 3)"
    by (simp add: empty_tree_def cmp_ok_def new_tree_eq compare_int_def blocks_def comp_def)
  then show ?thesis
    using run_operations_inorder_ascending [of id "new_tree 3" "[Insert 20, Insert 10, Delete 20, Insert 30]"]
    by simp
qed

section \<open>Deletion of a node with two children\<close>

text \<open>
  C3. Deleting the key of a node \<open>z\<close> that has two children, in a search tree with a
  black root: \<^verbatim>\<open>RtlpRbTreeMinimum\<close> of the right child is a node \<open>y\<close> without left child
  that holds the least key above the key of \<open>z\<close>; after the unlinking \<open>y\<close> stands where
  \<open>z\<close> stood (the root pointer or the slot of the parent of \<open>z\<close> points to it, its
  parent and left child are those of \<open>z\<close>) and has the colour of \<open>z\<close>; the colour
  recorded is the colour \<open>y\<close> had and the child recorded is the right child \<open>y\<close> had; and
  the rest of the deletion runs \<^verbatim>\<open>RtlpRbTreeFixupDelete\<close> on that child exactly when
  the recorded colour is black and the child is not null, then frees \<open>z\<close> and updates
  the counters. The deletion returns.
\<close>

theorem DeleteNode_two_children:
  fixes T :: "('k::linorder, 'o) RB_TREE"
  assumes "bst_inv keyof T" and "pool_ok T" and "root_black T"
    and "live T z" and "nkey keyof T z = k" and "lf T z = Some l" and "rt T z = Some r"
  shows "\<exists>y T1 T'. RtlpRbTreeMinimum T r = Some y \<and> live T y \<and> lf T y = None \<and>
     nkey keyof T z < nkey keyof T y \<and>
     (\<forall>b. live T b \<and> nkey keyof T z < nkey keyof T b \<longrightarrow> nkey keyof T y \<le> nkey keyof T b) \<and>
     DeleteNode_unlink T z = Some (T1, col T y, rt T y) \<and>
     root T1 = (if root T = Some z then Some y else root T) \<and>
     (\<forall>p. lf T p = Some z \<longrightarrow> lf T1 p = Some y) \<and> (\<forall>p. rt T p = Some z \<longrightarrow> rt T1 p = Some y) \<and>
     pa T1 y = pa T z \<and> lf T1 y = Some l \<and> col T1 y = col T z \<and>
     RtlRbTreeDeleteNode T k =
       (if col T y = black \<and> rt T y \<noteq> None then rt T y \<bind> RtlpRbTreeFixupDelete T1 else Some T1) \<bind>
       (\<lambda>T2. ExFreeToLookasideListEx T2 z \<bind>
       (\<lambda>T3. Some (RtlpRbTreeDecrementNodeCount (RtlpRbTreeIncrementDeletionCount T3)))) \<and>
     RtlRbTreeDeleteNode T k = Some T'"
proof -
  from assms(1) obtain lo hi where B: "bst_ok {} (nkey keyof T) lo hi T" and L: "links_ok {} T"
    and C: "cmp_ok keyof T" unfolding bst_inv_def by blast
  have zx: "a \<notin> {}" for a :: addr by simp
  from FindNode_spec[OF L B keys_ok_nkey C, where k=k] obtain f where
    f: "FindNode_loop T k (root T) = Some f"
       "case f of Some c \<Rightarrow> live T c \<and> c \<notin> {} \<and> nkey keyof T c = k
        | None \<Rightarrow> \<forall>c. live T c \<and> c \<notin> {} \<longrightarrow> nkey keyof T c \<noteq> k" by blast
  have fz: "f = Some z"
  proof (cases f)
    case None then show ?thesis using f(2) assms(4,5) by auto
  next
    case (Some c)
    then have "live T c" "nkey keyof T c = k" using f(2) by auto
    then show ?thesis using key_inj[OF L B _ zx assms(4) zx, where a=c] assms(5) Some by simp
  qed
  from unlink_two[OF L B assms(4,6,7)] obtain y T1 where
    u: "RtlpRbTreeMinimum T r = Some y" "DeleteNode_unlink T z = Some (T1, col T y, rt T y)"
       "live T y" "lf T y = None" "nkey keyof T z < nkey keyof T y"
       "\<forall>b. live T b \<and> nkey keyof T z < nkey keyof T b \<longrightarrow> nkey keyof T y \<le> nkey keyof T b"
       "root T1 = (if root T = Some z then Some y else root T)"
       "pa T1 y = pa T z" "lf T1 y = lf T z" "col T1 y = col T z"
       "\<forall>p. lf T p = Some z \<longrightarrow> lf T1 p = Some y" "\<forall>p. rt T p = Some z \<longrightarrow> rt T1 p = Some y"
    by blast
  have run: "RtlRbTreeDeleteNode T k =
       (if col T y = black \<and> rt T y \<noteq> None then rt T y \<bind> RtlpRbTreeFixupDelete T1 else Some T1) \<bind>
       (\<lambda>T2. ExFreeToLookasideListEx T2 z \<bind>
       (\<lambda>T3. Some (RtlpRbTreeDecrementNodeCount (RtlpRbTreeIncrementDeletionCount T3))))"
    using f(1) fz u(2) by (simp add: RtlRbTreeDeleteNode_def RtlpRbTreeFindNode_def)
  from DeleteNode_spec[OF assms(1,2,3), of k] obtain T' where "RtlRbTreeDeleteNode T k = Some T'"
    by blast
  then show ?thesis using u run assms(6) by auto
qed

theorem DeleteNode_two_children_witness:
  "bst_inv id tree_10_20_30 \<and> pool_ok tree_10_20_30 \<and> root_black tree_10_20_30 \<and>
   live tree_10_20_30 2 \<and> nkey id tree_10_20_30 2 = 20 \<and>
   lf tree_10_20_30 2 = Some 1 \<and> rt tree_10_20_30 2 = Some 3 \<and>
   (\<exists>y T1 T'. RtlpRbTreeMinimum tree_10_20_30 3 = Some y \<and> live tree_10_20_30 y \<and>
     lf tree_10_20_30 y = None \<and>
     nkey id tree_10_20_30 2 < nkey id tree_10_20_30 y \<and>
     (\<forall>b. live tree_10_20_30 b \<and> nkey id tree_10_20_30 2 < nkey id tree_10_20_30 b \<longrightarrow>
          nkey id tree_10_20_30 y \<le> nkey id tree_10_20_30 b) \<and>
     DeleteNode_unlink tree_10_20_30 2 = Some (T1, col tree_10_20_30 y, rt tree_10_20_30 y) \<and>
     root T1 = (if root tree_10_20_30 = Some 2 then Some y else root tree_10_20_30) \<and>
     (\<forall>p. lf tree_10_20_30 p = Some 2 \<longrightarrow> lf T1 p = Some y) \<and>
     (\<forall>p. rt tree_10_20_30 p = Some 2 \<longrightarrow> rt T1 p = Some y) \<and>
     pa T1 y = pa tree_10_20_30 2 \<and> lf T1 y = Some 1 \<and> col T1 y = col tree_10_20_30 2 \<and>
     RtlRbTreeDeleteNode tree_10_20_30 20 =
       (if col tree_10_20_30 y = black \<and> rt tree_10_20_30 y \<noteq> None
        then rt tree_10_20_30 y \<bind> RtlpRbTreeFixupDelete T1 else Some T1) \<bind>
       (\<lambda>T2. ExFreeToLookasideListEx T2 2 \<bind>
       (\<lambda>T3. Some (RtlpRbTreeDecrementNodeCount (RtlpRbTreeIncrementDeletionCount T3)))) \<and>
     RtlRbTreeDeleteNode tree_10_20_30 20 = Some T')"
proof -
  have "live tree_10_20_30 2" "nkey id tree_10_20_30 2 = 20"
    "lf tree_10_20_30 2 = Some 1" "rt tree_10_20_30 2 = Some 3"
    by (simp_all add: tree_10_20_30_eq live_def nkey_def obj_def lf_def rt_def)
  then show ?thesis
    using DeleteNode_two_children [of id tree_10_20_30 2 20 1 3] tree_10_20_30_inv
    by (simp add: rb_inv_def)
qed

section \<open>The node count and the enumeration\<close>

text \<open>
  C8. From an empty tree, after every sequence of insertions and deletions:
  \<^verbatim>\<open>node_count\<close>, a 32-bit counter, is the number of nodes reachable from the root
  (as a 32-bit number; as a natural number when the blocks of the pool are fewer than
  \<open>2^32\<close>), and \<^verbatim>\<open>RtlRbTreeEnumerate\<close> returns the callback folded over a list that holds
  every reachable node once, in ascending order of the keys, so that the number of
  entries visited is the number of reachable nodes.
\<close>

theorem run_operations_node_count_enumerate:
  fixes T0 :: "('k::linorder, 'o) RB_TREE"
  assumes "empty_tree keyof T0"
  shows "\<exists>T xs. run_operations keyof T0 ops = Some T \<and>
     node_count T = of_nat (card (reachable T)) \<and>
     (length (pool T0) < 2 ^ 32 \<longrightarrow> unat (node_count T) = card (reachable T)) \<and>
     length xs = card (reachable T) \<and> set xs = reachable T \<and> distinct xs \<and>
     sorted_wrt (\<lambda>b c. nkey keyof T b < nkey keyof T c) xs \<and>
     (\<forall>(Callback :: 'o \<Rightarrow> 'c \<Rightarrow> 'c) Context. RtlRbTreeEnumerate T Callback Context =
         Some (fold (\<lambda>b. Callback (the (obj T b))) xs Context))"
proof -
  from run_operations_inv[OF empty_tree_inv[OF assms], of ops] obtain T where
    T: "run_operations keyof T0 ops = Some T" "tree_inv keyof T" "blocks_of T = blocks_of T0" by blast
  then have I: "bst_inv keyof T" and cn: "cnt_ok T" by (simp_all add: tree_inv_def)
  note rl = reachable_live[OF I]
  from RtlRbTreeEnumerate_spec[OF I] obtain xs where
    xs: "set xs = reachable T" "distinct xs"
      "sorted_wrt (\<lambda>b c. nkey keyof T b < nkey keyof T c) xs"
      "\<And>(Callback :: 'o \<Rightarrow> 'c \<Rightarrow> 'c) Context. RtlRbTreeEnumerate T Callback Context =
         Some (fold (\<lambda>b. Callback (the (obj T b))) xs Context)" by blast
  have len: "length xs = card (reachable T)" using xs(1,2) distinct_card by fastforce
  have nc: "node_count T = of_nat (card (reachable T))" using cn by (simp add: cnt_ok_def rl)
  have b0: "blocks_of T0 = length (pool T0)" using assms by (simp add: blocks_of_def empty_tree_def live_def)
  have "card (reachable T) \<le> length (pool T0)" using T(3) b0 by (simp add: blocks_of_def rl)
  then have un: "length (pool T0) < 2 ^ 32 \<longrightarrow> unat (node_count T) = card (reachable T)"
    unfolding nc by (simp add: unat_of_nat)
  show ?thesis using T(1) nc un len xs by blast
qed

theorem run_operations_node_count_enumerate_witness:
  "empty_tree id (new_tree 3) \<and>
   (\<exists>T xs. run_operations id (new_tree 3) [Insert 20, Insert 10, Delete 20, Insert 30] = Some T \<and>
     node_count T = of_nat (card (reachable T)) \<and>
     (length (pool (new_tree 3)) < 2 ^ 32 \<longrightarrow> unat (node_count T) = card (reachable T)) \<and>
     length xs = card (reachable T) \<and> set xs = reachable T \<and> distinct xs \<and>
     sorted_wrt (\<lambda>b c. nkey id T b < nkey id T c) xs \<and>
     (\<forall>(Callback :: int \<Rightarrow> int list \<Rightarrow> int list) Context. RtlRbTreeEnumerate T Callback Context =
         Some (fold (\<lambda>b. Callback (the (obj T b))) xs Context)))"
proof -
  have "empty_tree id (new_tree 3)"
    by (simp add: empty_tree_def cmp_ok_def new_tree_eq compare_int_def blocks_def comp_def)
  then show ?thesis
    using run_operations_node_count_enumerate [of id "new_tree 3" "[Insert 20, Insert 10, Delete 20, Insert 30]"]
    by simp
qed

end
